(* ===== verification/Union_Find.thy ===== *)
theory Union_Find
  imports Main
begin

text \<open>
  The union-find of \<^verbatim>\<open>merge_results\<close> in \<^verbatim>\<open>backend/cs_uk_api/merge.py\<close>: a parent list, \<open>find\<close> with path
  halving and \<open>union\<close> with its log of actual unions.  The loop of \<open>find\<close> runs on fuel; the length of the
  parent list is enough on every list the code builds (\<open>uf_find_correct\<close>), so \<open>None\<close>, running out of
  fuel, never happens.

  The correctness argument carries a ghost: \<open>uf_inv n ps R\<close> says that \<open>ps\<close> is an acyclic parent list
  over \<open>n\<close> elements whose root map is \<open>R\<close>.  \<open>find\<close> keeps \<open>R\<close>, \<open>union\<close> merges two of its classes, and
  \<open>conn\<close> ties \<open>R\<close> to the equivalence closure of the pairs united so far.
\<close>

section \<open>The code\<close>

fun find_loop :: "nat \<Rightarrow> nat list \<Rightarrow> nat \<Rightarrow> (nat list \<times> nat) option" where
  "find_loop 0 ps x = None"
| "find_loop (Suc k) ps x =
     (if ps ! x = x then Some (ps, x)
      else (let ps' = ps[x := ps ! (ps ! x)] in find_loop k ps' (ps' ! x)))"

definition uf_find :: "nat list \<Rightarrow> nat \<Rightarrow> (nat list \<times> nat) option" where
  "uf_find ps x = find_loop (Suc (length ps)) ps x"

text \<open>The parents and the log of unions.\<close>

type_synonym uf_state = "nat list \<times> (nat \<times> nat) list"

definition uf_union :: "nat \<Rightarrow> nat \<Rightarrow> uf_state \<Rightarrow> uf_state option" where
  "uf_union a b st =
     (case uf_find (fst st) a of None \<Rightarrow> None
      | Some (ps, ra) \<Rightarrow>
          (case uf_find ps b of None \<Rightarrow> None
           | Some (ps', rb) \<Rightarrow>
               if ra = rb then Some (ps', snd st)
               else Some (ps'[ra := rb], snd st @ [(a, b)])))"

text \<open>A sequence of unions.\<close>

definition union_step :: "uf_state option \<Rightarrow> nat \<times> nat \<Rightarrow> uf_state option" where
  "union_step st ab = (case st of None \<Rightarrow> None | Some s \<Rightarrow> uf_union (fst ab) (snd ab) s)"

section \<open>The invariant\<close>

definition ranked :: "nat \<Rightarrow> nat list \<Rightarrow> (nat \<Rightarrow> nat) \<Rightarrow> (nat \<Rightarrow> nat) \<Rightarrow> bool" where
  "ranked n ps R d \<longleftrightarrow>
     length ps = n \<and>
     (\<forall>x < n. ps ! x < n \<and> R x < n \<and> R (ps ! x) = R x \<and> (ps ! x = x \<longleftrightarrow> R x = x) \<and>
              R (R x) = R x \<and> (ps ! x \<noteq> x \<longrightarrow> d (ps ! x) < d x))"

definition uf_inv :: "nat \<Rightarrow> nat list \<Rightarrow> (nat \<Rightarrow> nat) \<Rightarrow> bool" where
  "uf_inv n ps R \<longleftrightarrow> (\<exists>d. ranked n ps R d)"

lemma rankedD:
  assumes "ranked n ps R d" and "x < n"
  shows "ps ! x < n" "R x < n" "R (ps ! x) = R x" "ps ! x = x \<longleftrightarrow> R x = x" "R (R x) = R x"
    "ps ! x \<noteq> x \<Longrightarrow> d (ps ! x) < d x"
  using assms by (auto simp: ranked_def)

lemma ranked_init: "ranked n [0..<n] (\<lambda>x. x) (\<lambda>_. 0)"
  by (simp add: ranked_def)

lemma uf_inv_init: "uf_inv n [0..<n] (\<lambda>x. x)"
  using ranked_init by (auto simp: uf_inv_def)

text \<open>A rank can be chosen below \<open>n\<close>: the number of elements of smaller rank.\<close>

lemma ranked_small:
  assumes "ranked n ps R d"
  shows "\<exists>d'. ranked n ps R d' \<and> (\<forall>x < n. d' x < n)"
proof -
  let ?S = "\<lambda>x. {y. y < n \<and> d y < d x}"
  let ?d = "\<lambda>x. card (?S x)"
  have fin: "finite (?S x)" for x by simp
  have "?d x < n" if "x < n" for x
  proof -
    have "?S x \<subset> {..<n}" using that by auto
    then have "?d x < card {..<n}" by (rule psubset_card_mono [rotated]) simp
    then show ?thesis by simp
  qed
  moreover have "?d x < ?d y" if "d x < d y" "x < n" for x y
  proof -
    have "?S x \<subset> ?S y" using that by auto
    then show ?thesis by (rule psubset_card_mono [OF fin])
  qed
  ultimately show ?thesis using assms by (intro exI [of _ ?d]) (auto simp: ranked_def)
qed

section \<open>find\<close>

lemma ranked_halve:
  assumes r: "ranked n ps R d" and x: "x < n" and ne: "ps ! x \<noteq> x"
  shows "ranked n (ps[x := ps ! (ps ! x)]) R d"
    and "d (ps ! (ps ! x)) < d x"
proof -
  note X = rankedD [OF r x]
  note P = rankedD [OF r X(1)]
  show lt: "d (ps ! (ps ! x)) < d x"
    using P(6) X(6) ne by (cases "ps ! (ps ! x) = ps ! x") auto
  show "ranked n (ps[x := ps ! (ps ! x)]) R d"
    unfolding ranked_def
  proof (intro conjI allI impI)
    show "length (ps[x := ps ! (ps ! x)]) = n" using r by (simp add: ranked_def)
    fix y assume y: "y < n"
    note Y = rankedD [OF r y]
    have len: "length ps = n" using r by (simp add: ranked_def)
    have upd: "ps[x := ps ! (ps ! x)] ! y = (if y = x then ps ! (ps ! x) else ps ! y)"
      using y len by (simp add: nth_list_update)
    show "ps[x := ps ! (ps ! x)] ! y < n" using P Y by (simp add: upd)
    show "R y < n" "R (R y) = R y" using Y by auto
    show "R (ps[x := ps ! (ps ! x)] ! y) = R y" using P X Y by (simp add: upd)
    show "(ps[x := ps ! (ps ! x)] ! y = y) = (R y = y)"
      using lt X(4) Y(4) ne by (auto simp: upd)
    show "ps[x := ps ! (ps ! x)] ! y \<noteq> y \<Longrightarrow> d (ps[x := ps ! (ps ! x)] ! y) < d y"
      using lt Y(6) by (auto simp: upd)
  qed
qed

lemma find_loop_correct:
  assumes "ranked n ps R d" and "x < n" and "d x < k"
  shows "\<exists>ps'. find_loop k ps x = Some (ps', R x) \<and> ranked n ps' R d"
  using assms
proof (induction k arbitrary: ps x)
  case (Suc k)
  show ?case
  proof (cases "ps ! x = x")
    case True
    then show ?thesis using Suc.prems rankedD(4) [OF Suc.prems(1,2)] by auto
  next
    case False
    let ?ps = "ps[x := ps ! (ps ! x)]"
    have len: "length ps = n" using Suc.prems(1) by (simp add: ranked_def)
    have nxt: "?ps ! x = ps ! (ps ! x)" using Suc.prems(2) len by simp
    note X = rankedD [OF Suc.prems(1,2)]
    note P = rankedD [OF Suc.prems(1) X(1)]
    have "d (?ps ! x) < k"
      using ranked_halve(2) [OF Suc.prems(1,2) False] Suc.prems(3) nxt by simp
    from Suc.IH [OF ranked_halve(1) [OF Suc.prems(1,2) False] _ this]
    show ?thesis using False P X nxt by simp
  qed
qed simp

lemma uf_find_correct:
  assumes "uf_inv n ps R" and "x < n"
  shows "\<exists>ps'. uf_find ps x = Some (ps', R x) \<and> uf_inv n ps' R"
proof -
  from assms(1) obtain e where "ranked n ps R e" by (auto simp: uf_inv_def)
  from ranked_small [OF this] obtain d where d: "ranked n ps R d" "\<forall>x < n. d x < n" by blast
  from d(1) have "length ps = n" by (simp add: ranked_def)
  with d(2) assms(2) have "d x < Suc (length ps)" by (simp add: less_SucI)
  from find_loop_correct [OF d(1) assms(2) this] show ?thesis
    unfolding uf_find_def uf_inv_def by blast
qed

section \<open>union\<close>

definition join_roots :: "nat \<Rightarrow> nat \<Rightarrow> (nat \<Rightarrow> nat) \<Rightarrow> nat \<Rightarrow> nat" where
  "join_roots a b R = (\<lambda>x. if R x = R a then R b else R x)"

lemma ranked_link:
  assumes r: "ranked n ps R d" and ab: "a < n" "b < n" and ne: "R a \<noteq> R b"
  shows "ranked n (ps[R a := R b]) (join_roots a b R) (\<lambda>x. if R x = R a then d x + Suc (d (R b)) else d x)"
proof -
  note A = rankedD [OF r ab(1)] and B = rankedD [OF r ab(2)]
  have len: "length ps = n" using r by (simp add: ranked_def)
  have root: "ps ! R a = R a" using rankedD(4) [OF r A(2)] A(5) by simp
  show ?thesis
    unfolding ranked_def
  proof (intro conjI allI impI)
    show "length (ps[R a := R b]) = n" by (simp add: len)
    fix x assume x: "x < n"
    note X = rankedD [OF r x]
    have upd: "ps[R a := R b] ! x = (if x = R a then R b else ps ! x)"
      using x len by (simp add: nth_list_update)
    show "ps[R a := R b] ! x < n" using X B by (simp add: upd)
    show "join_roots a b R x < n" using X B by (simp add: join_roots_def)
    show "join_roots a b R (ps[R a := R b] ! x) = join_roots a b R x"
      using X A B ne by (auto simp: upd join_roots_def)
    show "(ps[R a := R b] ! x = x) = (join_roots a b R x = x)"
      using X A B ne by (auto simp: upd join_roots_def)
    show "join_roots a b R (join_roots a b R x) = join_roots a b R x"
      using X A B by (auto simp: join_roots_def)
    assume nx: "ps[R a := R b] ! x \<noteq> x"
    show "(if R (ps[R a := R b] ! x) = R a then d (ps[R a := R b] ! x) + Suc (d (R b))
          else d (ps[R a := R b] ! x)) < (if R x = R a then d x + Suc (d (R b)) else d x)"
    proof (cases "x = R a")
      case True
      then have "R x = R a" using A(5) by simp
      moreover have "R (R b) \<noteq> R a" using B(5) ne by simp
      moreover have "ps[R a := R b] ! x = R b" using upd True by simp
      ultimately show ?thesis by (simp only: if_False if_True refl)
    next
      case False
      with nx have "d (ps ! x) < d x" using X(6) by (simp add: upd)
      with False X(3) show ?thesis by (simp add: upd)
    qed
  qed
qed

lemma uf_union_correct:
  assumes "uf_inv n (fst st) R" and "a < n" and "b < n"
  shows "\<exists>ps. uf_union a b st = Some (ps, if R a = R b then snd st else snd st @ [(a, b)]) \<and>
    uf_inv n ps (join_roots a b R)"
proof -
  obtain p1 where p1: "uf_find (fst st) a = Some (p1, R a)" "uf_inv n p1 R"
    using uf_find_correct [OF assms(1,2)] by blast
  obtain p2 where p2: "uf_find p1 b = Some (p2, R b)" "uf_inv n p2 R"
    using uf_find_correct [OF p1(2) assms(3)] by blast
  show ?thesis
  proof (cases "R a = R b")
    case True
    then have "join_roots a b R = R" by (auto simp: join_roots_def fun_eq_iff)
    then show ?thesis using True p1 p2 by (simp add: uf_union_def)
  next
    case False
    have "uf_inv n (p2[R a := R b]) (join_roots a b R)"
      using p2(2) ranked_link [OF _ assms(2,3) False] by (auto simp: uf_inv_def)
    then show ?thesis using False p1 p2 by (simp add: uf_union_def)
  qed
qed

section \<open>Connectivity\<close>

text \<open>The equivalence closure of a set of pairs.\<close>

definition conn :: "(nat \<times> nat) set \<Rightarrow> (nat \<times> nat) set" where
  "conn E = (E \<union> E\<inverse>)\<^sup>*"

lemma conn_refl [simp]: "(x, x) \<in> conn E"
  by (simp add: conn_def)

lemma conn_sym: "(x, y) \<in> conn E \<Longrightarrow> (y, x) \<in> conn E"
proof -
  have "sym (conn E)" unfolding conn_def by (rule sym_rtrancl) (rule sym_Un_converse)
  then show "(x, y) \<in> conn E \<Longrightarrow> (y, x) \<in> conn E" by (rule symD)
qed

lemma conn_trans: "(x, y) \<in> conn E \<Longrightarrow> (y, z) \<in> conn E \<Longrightarrow> (x, z) \<in> conn E"
  unfolding conn_def by (rule rtrancl_trans)

lemma conn_edge: "(x, y) \<in> E \<Longrightarrow> (x, y) \<in> conn E"
  by (auto simp: conn_def)

lemma conn_mono: "E \<subseteq> F \<Longrightarrow> conn E \<subseteq> conn F"
  unfolding conn_def by (rule rtrancl_mono) auto

lemma conn_least:
  assumes "E \<subseteq> conn F"
  shows "conn E \<subseteq> conn F"
proof
  fix p assume "p \<in> conn E"
  then obtain x y where p: "p = (x, y)" and "(x, y) \<in> (E \<union> E\<inverse>)\<^sup>*"
    by (cases p) (auto simp: conn_def)
  from this(2) have "(x, y) \<in> conn F"
  proof (induction rule: rtrancl_induct)
    case (step y z)
    then have "(y, z) \<in> conn F" using assms conn_sym by blast
    with step.IH show ?case by (rule conn_trans)
  qed simp
  then show "p \<in> conn F" by (simp add: p)
qed

definition classes_of :: "nat \<Rightarrow> (nat \<Rightarrow> nat) \<Rightarrow> (nat \<times> nat) set \<Rightarrow> bool" where
  "classes_of n R E \<longleftrightarrow> (\<forall>x < n. \<forall>y < n. R x = R y \<longleftrightarrow> (x, y) \<in> conn E)"

lemma classes_of_init: "classes_of n (\<lambda>x. x) {}"
  by (simp add: classes_of_def conn_def)

lemma classes_of_join:
  assumes c: "classes_of n R E" and ab: "a < n" "b < n" and E: "E \<subseteq> {..<n} \<times> {..<n}"
  shows "classes_of n (join_roots a b R) (insert (a, b) E)"
  unfolding classes_of_def
proof (intro allI impI iffI)
  let ?F = "insert (a, b) E"
  have R: "R x = R y \<Longrightarrow> (x, y) \<in> conn ?F" if "x < n" "y < n" for x y
    using c that conn_mono [of E ?F] by (auto simp: classes_of_def)
  have e: "(a, b) \<in> conn ?F" by (rule conn_edge) simp
  fix x y assume xy: "x < n" "y < n"
  show "join_roots a b R x = join_roots a b R y \<Longrightarrow> (x, y) \<in> conn ?F"
    using R [OF xy] R [OF xy(1) ab(1)] R [OF xy(1) ab(2)] R [OF ab(1) xy(2)] R [OF ab(2) xy(2)] e
      conn_sym [OF e]
    by (auto simp: join_roots_def split: if_splits intro: conn_trans)
  assume "(x, y) \<in> conn ?F"
  then have "(x, y) \<in> (?F \<union> ?F\<inverse>)\<^sup>*" by (simp add: conn_def)
  then show "join_roots a b R x = join_roots a b R y"
  proof (induction rule: rtrancl_induct)
    case (step y z)
    then have "(y, z) = (a, b) \<or> (y, z) = (b, a) \<or> (y, z) \<in> E \<or> (z, y) \<in> E" by auto
    moreover have "R y = R z" if "(y, z) \<in> E \<or> (z, y) \<in> E"
      using that E c conn_edge [of _ _ E] conn_sym [of _ _ E] by (auto simp: classes_of_def)
    ultimately have "join_roots a b R y = join_roots a b R z"
      by (auto simp: join_roots_def)
    with step.IH show ?case by simp
  qed simp
qed

section \<open>The state after a set of unions\<close>

text \<open>
  \<open>uf_good n st E\<close>: the computation has returned, its classes are those of the pairs \<open>E\<close>, the log
  holds pairs of \<open>E\<close>, and every logged union has removed exactly one class.
\<close>

definition uf_good :: "nat \<Rightarrow> uf_state option \<Rightarrow> (nat \<times> nat) set \<Rightarrow> bool" where
  "uf_good n st E \<longleftrightarrow>
     (\<exists>s R. st = Some s \<and> uf_inv n (fst s) R \<and> classes_of n R E \<and> set (snd s) \<subseteq> E \<and>
            length (snd s) + card (R ` {..<n}) = n)"

lemma uf_good_init: "uf_good n (Some ([0..<n], [])) {}"
  unfolding uf_good_def
  by (rule exI [of _ "([0..<n], [])"], rule exI [of _ "\<lambda>x. x"])
    (simp add: uf_inv_init classes_of_init)

lemma card_join_roots:
  assumes inv: "uf_inv n ps R" and ab: "a < n" "b < n" and ne: "R a \<noteq> R b"
  shows "Suc (card (join_roots a b R ` {..<n})) = card (R ` {..<n})"
proof -
  obtain d where r: "ranked n ps R d" using inv by (auto simp: uf_inv_def)
  have "join_roots a b R ` {..<n} = R ` {..<n} - {R a}"
  proof
    show "join_roots a b R ` {..<n} \<subseteq> R ` {..<n} - {R a}"
      using ab ne by (auto simp: join_roots_def)
    show "R ` {..<n} - {R a} \<subseteq> join_roots a b R ` {..<n}"
    proof
      fix y assume "y \<in> R ` {..<n} - {R a}"
      then obtain x where x: "x < n" "y = R x" "R x \<noteq> R a" by auto
      then have "join_roots a b R x = y" by (simp add: join_roots_def)
      with x(1) show "y \<in> join_roots a b R ` {..<n}" by auto
    qed
  qed
  moreover have "Suc (card (R ` {..<n} - {R a})) = card (R ` {..<n})"
    by (rule card_Suc_Diff1) (use ab in simp_all)
  ultimately show ?thesis by simp
qed

lemma uf_good_union:
  assumes good: "uf_good n st E" and ab: "a < n" "b < n" and E: "E \<subseteq> {..<n} \<times> {..<n}"
  shows "uf_good n (union_step st (a, b)) (insert (a, b) E)"
proof -
  from good obtain s R where s: "st = Some s" "uf_inv n (fst s) R" "classes_of n R E" "set (snd s) \<subseteq> E"
    "length (snd s) + card (R ` {..<n}) = n" by (auto simp: uf_good_def)
  obtain ps where ps: "uf_union a b s = Some (ps, if R a = R b then snd s else snd s @ [(a, b)])"
    and inv: "uf_inv n ps (join_roots a b R)"
    using uf_union_correct [OF s(2) ab] by blast
  have cl: "classes_of n (join_roots a b R) (insert (a, b) E)"
    by (rule classes_of_join [OF s(3) ab E])
  have "length (if R a = R b then snd s else snd s @ [(a, b)]) + card (join_roots a b R ` {..<n}) = n"
  proof (cases "R a = R b")
    case True
    then have "join_roots a b R = R" by (auto simp: join_roots_def fun_eq_iff)
    with True s(5) show ?thesis by simp
  next
    case False
    with s(5) card_join_roots [OF s(2) ab False] show ?thesis by simp
  qed
  with inv cl s(4) show ?thesis
    unfolding uf_good_def
    by (intro exI [of _ "(ps, if R a = R b then snd s else snd s @ [(a, b)])"]
        exI [of _ "join_roots a b R"]) (auto simp: union_step_def s(1) ps)
qed

lemma uf_good_unions:
  assumes "uf_good n st E" and "E \<subseteq> {..<n} \<times> {..<n}" and "set cs \<subseteq> {..<n} \<times> {..<n}"
  shows "uf_good n (foldl union_step st cs) (E \<union> set cs)"
  using assms
proof (induction cs arbitrary: st E)
  case (Cons c cs)
  obtain a b where c: "c = (a, b)" by force
  have "uf_good n (union_step st c) (insert c E)"
    using uf_good_union [OF Cons.prems(1)] Cons.prems(2,3) c by auto
  from Cons.IH [OF this] Cons.prems(2,3) show ?case by auto
qed simp

end
