(* ===== verification/Py_Prelude.thy ===== *)
theory Py_Prelude
  imports Main "HOL-Library.Code_Target_Nat" "HOL-Library.List_Lexorder" "HOL-Library.Sublist"
begin

text \<open>
  What every component of the backend uses of Python: strings, insertion-ordered dictionaries,
  order-preserving deduplication and stable sorting.

  A Python \<^verbatim>\<open>str\<close> is a list of code points (\<open>ustr\<close>); literals are written \<open>u ''...''\<close>.
  The order of \<open>HOL-Library.List_Lexorder\<close> on it is Python's order on strings.  The strings of the
  model hold Unicode scalar values: the ones that cross the API are validated by pydantic, which
  refuses lone surrogates.

  A Python \<^verbatim>\<open>dict\<close> is an association list whose keys are distinct, in insertion order: assigning
  to a present key keeps its place, a new key goes to the end, and removing a key and assigning
  it again moves it to the end.  \<open>pydict\<close> below is the interface the clients rest on.
\<close>

section \<open>Strings\<close>

type_synonym ustr = "nat list"

definition u :: "string \<Rightarrow> ustr" where
  "u s = map of_char s"

named_theorems py_simps \<open>evaluation of the Python primitives\<close>

text \<open>\<^verbatim>\<open>s.partition(c)\<close> without the separator: what is before the first \<open>c\<close>, and what is after it
  (\<open>None\<close> when there is no \<open>c\<close>; Python then answers an empty tail).\<close>

fun split_first :: "nat \<Rightarrow> ustr \<Rightarrow> ustr \<times> ustr option" where
  "split_first c [] = ([], None)"
| "split_first c (x # xs) =
     (if x = c then ([], Some xs)
      else (let (a, b) = split_first c xs in (x # a, b)))"

text \<open>\<^verbatim>\<open>s.rpartition(c)\<close>: \<open>None\<close> when there is no \<open>c\<close>, else the two sides of the last \<open>c\<close>.\<close>

definition split_last :: "nat \<Rightarrow> ustr \<Rightarrow> (ustr \<times> ustr) option" where
  "split_last c s =
     (case split_first c (rev s) of
        (a, None) \<Rightarrow> None
      | (a, Some b) \<Rightarrow> Some (rev b, rev a))"

text \<open>\<^verbatim>\<open>s.startswith(p)\<close>, \<^verbatim>\<open>s.endswith(p)\<close> and \<^verbatim>\<open>s.removeprefix(p)\<close>.\<close>

definition starts_with :: "ustr \<Rightarrow> ustr \<Rightarrow> bool" where
  "starts_with p s \<longleftrightarrow> take (length p) s = p"

definition ends_with :: "ustr \<Rightarrow> ustr \<Rightarrow> bool" where
  "ends_with p s \<longleftrightarrow> length p \<le> length s \<and> drop (length s - length p) s = p"

text \<open>\<^verbatim>\<open>part in s\<close>.\<close>

fun contains :: "ustr \<Rightarrow> ustr \<Rightarrow> bool" where
  "contains p [] = (p = [])"
| "contains p (c # cs) = (starts_with p (c # cs) \<or> contains p cs)"

definition remove_prefix :: "ustr \<Rightarrow> ustr \<Rightarrow> ustr" where
  "remove_prefix p s = (if starts_with p s then drop (length p) s else s)"

definition remove_suffix :: "ustr \<Rightarrow> ustr \<Rightarrow> ustr" where
  "remove_suffix p s = (if ends_with p s then take (length s - length p) s else s)"

text \<open>Decimal notation of an integer, as \<^verbatim>\<open>str(n)\<close> and \<^verbatim>\<open>f"{n}"\<close> write it.\<close>

fun dec_nat :: "nat \<Rightarrow> ustr" where
  "dec_nat n = (if n < 10 then [48 + n] else dec_nat (n div 10) @ [48 + n mod 10])"

declare dec_nat.simps [simp del]

definition dec_int :: "int \<Rightarrow> ustr" where
  "dec_int i = (if i < 0 then 45 # dec_nat (nat (- i)) else dec_nat (nat i))"

definition ascii_digit :: "nat \<Rightarrow> bool" where
  "ascii_digit c \<longleftrightarrow> 48 \<le> c \<and> c \<le> 57"

fun nat_of_dec :: "nat \<Rightarrow> ustr \<Rightarrow> nat" where
  "nat_of_dec acc [] = acc"
| "nat_of_dec acc (c # cs) = nat_of_dec (10 * acc + (c - 48)) cs"

lemma u_Nil [simp]: "u [] = []"
  by (simp add: u_def)

lemma u_append: "u (s @ t) = u s @ u t"
  by (simp add: u_def)

lemma length_u [simp]: "length (u s) = length s"
  by (simp add: u_def)

lemma u_inj [simp]: "u s = u t \<longleftrightarrow> s = t"
  by (auto simp: u_def inj_map_eq_map inj_def)

lemma split_first_None: "snd (split_first c s) = None \<longleftrightarrow> c \<notin> set s"
  by (induction s) (auto simp: case_prod_beta Let_def)

lemma split_first_no: "c \<notin> set s \<Longrightarrow> split_first c s = (s, None)"
  by (induction s) auto

lemma split_first_app: "c \<notin> set a \<Longrightarrow> split_first c (a @ c # b) = (a, Some b)"
  by (induction a) auto

lemma split_first_Some:
  "split_first c s = (a, Some b) \<Longrightarrow> s = a @ c # b \<and> c \<notin> set a"
proof (induction s arbitrary: a)
  case Nil
  then show ?case by simp
next
  case (Cons x xs)
  then show ?case
    by (cases "split_first c xs") (auto split: if_splits)
qed

lemma split_last_app: "c \<notin> set b \<Longrightarrow> split_last c (a @ c # b) = Some (a, b)"
  using split_first_app [of c "rev b" "rev a"] by (simp add: split_last_def)

lemma split_last_no: "c \<notin> set s \<Longrightarrow> split_last c s = None"
  using split_first_no [of c "rev s"] by (simp add: split_last_def)

lemma split_last_Some:
  assumes "split_last c s = Some (a, b)"
  shows "s = a @ c # b \<and> c \<notin> set b"
proof -
  from assms have "split_first c (rev s) = (rev b, Some (rev a))"
    by (auto simp: split_last_def split: prod.splits option.splits)
  from split_first_Some [OF this] have "rev s = rev b @ c # rev a \<and> c \<notin> set b" by simp
  then have "rev (rev s) = rev (rev b @ c # rev a) \<and> c \<notin> set b" by simp
  then show ?thesis by simp
qed

lemma starts_with_app [simp]: "starts_with p (p @ s)"
  by (simp add: starts_with_def)

lemma starts_with_iff: "starts_with p s \<longleftrightarrow> (\<exists>t. s = p @ t)"
  unfolding starts_with_def by (metis append_eq_conv_conj append_take_drop_id)

lemma ends_with_app [simp]: "ends_with p (s @ p)"
  by (simp add: ends_with_def)

lemma ends_with_iff: "ends_with p s \<longleftrightarrow> (\<exists>t. s = t @ p)"
  unfolding ends_with_def by (metis append_eq_append_conv append_take_drop_id diff_diff_cancel
      diff_le_self le_add2 length_append length_drop)

lemma remove_prefix_app [simp]: "remove_prefix p (p @ s) = s"
  by (simp add: remove_prefix_def)

lemma remove_suffix_app [simp]: "remove_suffix p (s @ p) = s"
  by (simp add: remove_suffix_def)

lemma dec_nat_nonempty [simp]: "dec_nat n \<noteq> []"
  by (subst dec_nat.simps) simp

lemma dec_nat_rec: "\<not> n < 10 \<Longrightarrow> dec_nat n = dec_nat (n div 10) @ [48 + n mod 10]"
  by (simp add: dec_nat.simps [of n])

lemma dec_nat_small: "n < 10 \<Longrightarrow> dec_nat n = [48 + n]"
  by (simp add: dec_nat.simps [of n])

lemma dec_nat_digits: "c \<in> set (dec_nat n) \<Longrightarrow> ascii_digit c"
proof (induction n rule: dec_nat.induct)
  case (1 n)
  show ?case
  proof (cases "n < 10")
    case True
    with "1.prems" show ?thesis by (simp add: dec_nat_small ascii_digit_def)
  next
    case False
    with "1.prems" have "c \<in> set (dec_nat (n div 10)) \<or> c = 48 + n mod 10"
      by (auto simp: dec_nat_rec)
    with "1.IH" False show ?thesis by (auto simp: ascii_digit_def)
  qed
qed

lemma nat_of_dec_snoc: "nat_of_dec acc (xs @ [c]) = 10 * nat_of_dec acc xs + (c - 48)"
  by (induction xs arbitrary: acc) auto

text \<open>\<^verbatim>\<open>int(str(n)) == n\<close>.\<close>

lemma nat_of_dec_dec_nat [simp]: "nat_of_dec 0 (dec_nat n) = n"
proof (induction n rule: dec_nat.induct)
  case (1 n)
  show ?case
  proof (cases "n < 10")
    case True
    then show ?thesis by (simp add: dec_nat_small)
  next
    case False
    with "1.IH" show ?thesis by (simp add: dec_nat_rec nat_of_dec_snoc)
  qed
qed

section \<open>Insertion-ordered dictionaries\<close>

type_synonym ('k, 'v) pdict = "('k \<times> 'v) list"

abbreviation dget :: "('k, 'v) pdict \<Rightarrow> 'k \<Rightarrow> 'v option" where
  "dget \<equiv> map_of"

abbreviation dkeys :: "('k, 'v) pdict \<Rightarrow> 'k list" where
  "dkeys d \<equiv> map fst d"

text \<open>\<^verbatim>\<open>d[k] = v\<close>.\<close>

fun dset :: "'k \<Rightarrow> 'v \<Rightarrow> ('k, 'v) pdict \<Rightarrow> ('k, 'v) pdict" where
  "dset k v [] = [(k, v)]"
| "dset k v ((a, b) # d) = (if a = k then (a, v) # d else (a, b) # dset k v d)"

text \<open>\<^verbatim>\<open>d.pop(k, None)\<close>, and \<^verbatim>\<open>del d[k]\<close> for a present key.\<close>

definition dpop :: "'k \<Rightarrow> ('k, 'v) pdict \<Rightarrow> ('k, 'v) pdict" where
  "dpop k d = filter (\<lambda>kv. fst kv \<noteq> k) d"

text \<open>\<^verbatim>\<open>d.setdefault(k, v)\<close>: the value that stands under \<open>k\<close> afterwards, and the dictionary.\<close>

definition dsetdefault :: "'k \<Rightarrow> 'v \<Rightarrow> ('k, 'v) pdict \<Rightarrow> 'v \<times> ('k, 'v) pdict" where
  "dsetdefault k v d =
     (case dget d k of Some w \<Rightarrow> (w, d) | None \<Rightarrow> (v, d @ [(k, v)]))"

text \<open>A dictionary is well formed when its keys are distinct.\<close>

definition dwf :: "('k, 'v) pdict \<Rightarrow> bool" where
  "dwf d \<longleftrightarrow> distinct (dkeys d)"

lemma set_dset: "set (dset k v d) \<subseteq> insert (k, v) (set d)"
  by (induction k v d rule: dset.induct) auto

lemma dget_dset: "dget (dset k v d) = (dget d)(k \<mapsto> v)"
  by (induction k v d rule: dset.induct) auto

lemma dget_dpop: "dget (dpop k d) = (dget d)(k := None)"
  by (induction d) (auto simp: dpop_def)

lemma dkeys_dset: "dkeys (dset k v d) = (if k \<in> set (dkeys d) then dkeys d else dkeys d @ [k])"
  by (induction k v d rule: dset.induct) auto

lemma keys_dset [simp]: "fst ` set (dset k v d) = insert k (fst ` set d)"
  by (induction k v d rule: dset.induct) auto

lemma keys_dpop [simp]: "fst ` set (dpop k d) = fst ` set d - {k}"
  by (auto simp: dpop_def)

lemma dset_new: "k \<notin> set (dkeys d) \<Longrightarrow> dset k v d = d @ [(k, v)]"
  by (induction k v d rule: dset.induct) auto

lemma dkeys_dpop: "dkeys (dpop k d) = filter (\<lambda>a. a \<noteq> k) (dkeys d)"
  by (induction d) (auto simp: dpop_def)

lemma dpop_absent: "k \<notin> set (dkeys d) \<Longrightarrow> dpop k d = d"
  by (induction d) (auto simp: dpop_def)

lemma dwf_Nil [simp]: "dwf []"
  by (simp add: dwf_def)

lemma dwf_dset [intro, simp]: "dwf d \<Longrightarrow> dwf (dset k v d)"
  by (simp add: dwf_def dkeys_dset)

lemma dwf_filter [intro]: "dwf d \<Longrightarrow> dwf (filter P d)"
  by (simp add: dwf_def distinct_map_filter)

lemma dwf_drop [intro]: "dwf d \<Longrightarrow> dwf (drop n d)"
  by (simp add: dwf_def drop_map [symmetric])

lemma dwf_dpop [intro, simp]: "dwf d \<Longrightarrow> dwf (dpop k d)"
  by (auto simp: dpop_def)

lemma dget_Some_in: "dwf d \<Longrightarrow> dget d k = Some v \<longleftrightarrow> (k, v) \<in> set d"
  by (simp add: dwf_def)

lemma length_dset: "length (dset k v d) = (if k \<in> set (dkeys d) then length d else Suc (length d))"
  by (induction k v d rule: dset.induct) auto

lemma length_dpop: "dwf d \<Longrightarrow> k \<in> set (dkeys d) \<Longrightarrow> Suc (length (dpop k d)) = length d"
proof (induction d)
  case Nil
  then show ?case by simp
next
  case (Cons a d)
  have "dpop k d = d" if "fst a = k"
    using Cons.prems(1) that by (auto simp: dpop_absent dwf_def)
  moreover have "dpop k (a # d) = (if fst a = k then dpop k d else a # dpop k d)"
    by (simp add: dpop_def)
  ultimately show ?case using Cons by (auto simp: dwf_def)
qed

lemma dget_dsetdefault: "dget (snd (dsetdefault k v d)) k = Some (fst (dsetdefault k v d))"
  by (auto simp: dsetdefault_def map_add_def split: option.splits)

lemma dwf_dsetdefault [intro, simp]: "dwf d \<Longrightarrow> dwf (snd (dsetdefault k v d))"
  by (auto simp: dsetdefault_def dwf_def map_of_eq_None_iff split: option.splits)

section \<open>Order-preserving deduplication\<close>

text \<open>\<^verbatim>\<open>list(dict.fromkeys(xs))\<close>: the first occurrence of every element, in order.\<close>

fun uniq_from :: "'a list \<Rightarrow> 'a list \<Rightarrow> 'a list" where
  "uniq_from seen [] = []"
| "uniq_from seen (x # xs) =
     (if x \<in> set seen then uniq_from seen xs else x # uniq_from (x # seen) xs)"

definition uniq :: "'a list \<Rightarrow> 'a list" where
  "uniq xs = uniq_from [] xs"

lemma set_uniq_from: "set (uniq_from seen xs) = set xs - set seen"
  by (induction seen xs rule: uniq_from.induct) auto

lemma distinct_uniq_from: "distinct (uniq_from seen xs)"
  by (induction seen xs rule: uniq_from.induct) (auto simp: set_uniq_from)

lemma set_uniq [simp]: "set (uniq xs) = set xs"
  by (simp add: uniq_def set_uniq_from)

lemma uniq_Nil_iff [simp]: "uniq xs = [] \<longleftrightarrow> xs = []"
  by (metis set_empty set_uniq)

lemma distinct_uniq [simp]: "distinct (uniq xs)"
  by (simp add: uniq_def distinct_uniq_from)

lemma uniq_from_distinct: "distinct xs \<Longrightarrow> set xs \<inter> set seen = {} \<Longrightarrow> uniq_from seen xs = xs"
  by (induction seen xs rule: uniq_from.induct) auto

lemma uniq_from_snoc:
  "uniq_from seen (xs @ [x]) =
     (if x \<in> set seen \<union> set xs then uniq_from seen xs else uniq_from seen xs @ [x])"
  by (induction seen xs rule: uniq_from.induct) auto

lemma uniq_snoc: "uniq (xs @ [x]) = (if x \<in> set xs then uniq xs else uniq xs @ [x])"
  by (simp add: uniq_def uniq_from_snoc)

lemma uniq_id: "distinct xs \<Longrightarrow> uniq xs = xs"
  by (simp add: uniq_def uniq_from_distinct)

section \<open>The dictionary interface\<close>

text \<open>
  What a component that owns a dictionary relies on: a lookup that follows every update, and a
  well-formedness that every operation keeps.
\<close>

locale dict_ops =
  fixes lookup :: "'d \<Rightarrow> 'k \<Rightarrow> 'v option"
    and insert_at :: "'k \<Rightarrow> 'v \<Rightarrow> 'd \<Rightarrow> 'd"
    and remove_at :: "'k \<Rightarrow> 'd \<Rightarrow> 'd"
    and wf_dict :: "'d \<Rightarrow> bool"
  assumes lookup_insert: "wf_dict d \<Longrightarrow> lookup (insert_at k v d) = (lookup d)(k \<mapsto> v)"
    and lookup_remove: "wf_dict d \<Longrightarrow> lookup (remove_at k d) = (lookup d)(k := None)"
    and wf_insert: "wf_dict d \<Longrightarrow> wf_dict (insert_at k v d)"
    and wf_remove: "wf_dict d \<Longrightarrow> wf_dict (remove_at k d)"
begin

lemma lookup_insert_same: "wf_dict d \<Longrightarrow> lookup (insert_at k v d) k = Some v"
  by (simp add: lookup_insert)

lemma lookup_insert_other: "wf_dict d \<Longrightarrow> j \<noteq> k \<Longrightarrow> lookup (insert_at k v d) j = lookup d j"
  by (simp add: lookup_insert)

lemma lookup_remove_other: "wf_dict d \<Longrightarrow> j \<noteq> k \<Longrightarrow> lookup (remove_at k d) j = lookup d j"
  by (simp add: lookup_remove)

lemma reinsert: "wf_dict d \<Longrightarrow> lookup (insert_at k v (remove_at k d)) = (lookup d)(k \<mapsto> v)"
  by (simp add: lookup_insert lookup_remove wf_remove)

end

interpretation pydict: dict_ops dget dset dpop dwf
  by unfold_locales (auto simp: dget_dset dget_dpop)

end
