(* ===== verification/Py_Unicode.thy ===== *)
theory Py_Unicode
  imports Py_Prelude
begin

text \<open>
  Character classes, whitespace splitting and regular expressions, as the title and id grammars use
  them.

  The Unicode character database ships with Python, not with this repository, so its tables are a
  parameter: a record \<open>ucd\<close> every definition that classifies characters takes.  \<open>ucd_ok\<close> states the
  documented facts about it that lemmas rest on, and \<open>ua_ucd\<close> is the database restricted to Basic
  Latin, Latin-1, Cyrillic and general punctuation, for evaluation.

  A regular expression is matched as Python's \<^verbatim>\<open>re\<close> does: \<open>outs r p\<close> lists all positions a match of
  \<open>r\<close> that starts at \<open>p\<close> can end in, in backtracking order, so its head is the match \<^verbatim>\<open>re\<close> reports.
\<close>

record ucd =
  lower :: "ustr \<Rightarrow> ustr"
  punct_or_symbol :: "nat \<Rightarrow> bool"
  space :: "nat \<Rightarrow> bool"
  decimal :: "nat \<Rightarrow> bool"
  decimal_value :: "nat \<Rightarrow> nat"
  digit :: "nat \<Rightarrow> bool"
  word_char :: "nat \<Rightarrow> bool"
  same_letter :: "nat \<Rightarrow> nat \<Rightarrow> bool"

text \<open>
  What the Unicode standard fixes: the ASCII part of the classes, and that a decimal digit is a
  digit, has no other class and a value below ten.
\<close>

definition ucd_ok :: "ucd \<Rightarrow> bool" where
  "ucd_ok U \<longleftrightarrow>
     (\<forall>c < 128. decimal U c \<longleftrightarrow> ascii_digit c) \<and>
     (\<forall>c. ascii_digit c \<longrightarrow> decimal_value U c = c - 48) \<and>
     (\<forall>c. decimal U c \<longrightarrow> digit U c \<and> \<not> space U c \<and> \<not> punct_or_symbol U c) \<and>
     space U 32 \<and> \<not> punct_or_symbol U 32 \<and>
     (\<forall>c \<in> set (u '':/|''). punct_or_symbol U c \<and> \<not> space U c)"

section \<open>Whitespace\<close>

text \<open>\<^verbatim>\<open>s.strip()\<close>.\<close>

definition strip :: "ucd \<Rightarrow> ustr \<Rightarrow> ustr" where
  "strip U s = rev (dropWhile (space U) (rev (dropWhile (space U) s)))"

text \<open>\<^verbatim>\<open>s.split()\<close>: the maximal runs of characters that are not whitespace.\<close>

fun split_ws_acc :: "ucd \<Rightarrow> ustr \<Rightarrow> ustr \<Rightarrow> ustr list" where
  "split_ws_acc U acc [] = (if acc = [] then [] else [rev acc])"
| "split_ws_acc U acc (c # cs) =
     (if space U c then (if acc = [] then split_ws_acc U [] cs else rev acc # split_ws_acc U [] cs)
      else split_ws_acc U (c # acc) cs)"

definition split_ws :: "ucd \<Rightarrow> ustr \<Rightarrow> ustr list" where
  "split_ws U s = split_ws_acc U [] s"

text \<open>\<^verbatim>\<open>sep.join(parts)\<close>.\<close>

fun join :: "ustr \<Rightarrow> ustr list \<Rightarrow> ustr" where
  "join sep [] = []"
| "join sep [p] = p"
| "join sep (p # q # ps) = p @ sep @ join sep (q # ps)"

lemma split_ws_acc_tokens:
  assumes "\<forall>c \<in> set acc. P c \<and> \<not> space U c" and "\<forall>c \<in> set s. space U c \<or> P c"
    and "t \<in> set (split_ws_acc U acc s)"
  shows "t \<noteq> [] \<and> (\<forall>c \<in> set t. P c \<and> \<not> space U c)"
  using assms
proof (induction U acc s rule: split_ws_acc.induct)
  case (1 U acc)
  then show ?case by (auto split: if_splits)
next
  case (2 U acc c cs)
  note P = "2.prems"(1,2) and t = "2.prems"(3)
  show ?case
  proof (cases "space U c")
    case False
    with P have "\<forall>d \<in> set (c # acc). P d \<and> \<not> space U d" and "\<forall>d \<in> set cs. space U d \<or> P d"
      by simp_all
    with "2.IH"(3) [OF False] t False show ?thesis by simp
  next
    case True
    have cs: "\<forall>d \<in> set cs. space U d \<or> P d" using P(2) by simp
    have e: "\<forall>d \<in> set []. P d \<and> \<not> space U d" by simp
    show ?thesis
    proof (cases "acc = []")
      case nil: True
      with "2.IH"(1) [OF True nil e cs] t True show ?thesis by simp
    next
      case ne: False
      with t True have "t = rev acc \<or> t \<in> set (split_ws_acc U [] cs)" by simp
      with "2.IH"(2) [OF True ne e cs] ne P(1) show ?thesis by auto
    qed
  qed
qed

lemma split_ws_tokens:
  "\<forall>c \<in> set s. space U c \<or> P c \<Longrightarrow> t \<in> set (split_ws U s) \<Longrightarrow>
   t \<noteq> [] \<and> (\<forall>c \<in> set t. P c \<and> \<not> space U c)"
  unfolding split_ws_def by (rule split_ws_acc_tokens) auto

lemma set_join: "c \<in> set (join sep ps) \<Longrightarrow> c \<in> set sep \<or> (\<exists>p \<in> set ps. c \<in> set p)"
  by (induction sep ps rule: join.induct) auto

lemma join_Nil: "join sep ps = [] \<Longrightarrow> p \<in> set ps \<Longrightarrow> p = []"
  by (induction sep ps rule: join.induct) auto

section \<open>Regular expressions\<close>

datatype rx =
    Eps
  | Chr "nat \<Rightarrow> bool"
  | Seq rx rx
  | Alt rx rx
  | Star rx
  | Assert "ustr \<Rightarrow> ustr \<Rightarrow> bool"

text \<open>A position is what lies before it, reversed, and what lies after it.\<close>

type_synonym pos = "ustr \<times> ustr"

fun chr_outs :: "(nat \<Rightarrow> bool) \<Rightarrow> pos \<Rightarrow> pos list" where
  "chr_outs p (l, []) = []"
| "chr_outs p (l, c # r) = (if p c then [(c # l, r)] else [])"

text \<open>Greedy repetition: at most \<open>n\<close> rounds, each of which must consume something.\<close>

fun star_outs :: "nat \<Rightarrow> (pos \<Rightarrow> pos list) \<Rightarrow> pos \<Rightarrow> pos list" where
  "star_outs 0 f p = [p]"
| "star_outs (Suc n) f p =
     concat (map (star_outs n f) (filter (\<lambda>q. length (snd q) < length (snd p)) (f p))) @ [p]"

primrec outs :: "rx \<Rightarrow> pos \<Rightarrow> pos list" where
  "outs Eps p = [p]"
| "outs (Chr f) p = chr_outs f p"
| "outs (Seq a b) p = concat (map (outs b) (outs a p))"
| "outs (Alt a b) p = outs a p @ outs b p"
| "outs (Star a) p = star_outs (length (snd p)) (outs a) p"
| "outs (Assert f) p = (if f (fst p) (snd p) then [p] else [])"

fun seqs :: "rx list \<Rightarrow> rx" where
  "seqs [] = Eps" | "seqs [r] = r" | "seqs (r # rs) = Seq r (seqs rs)"

fun alts :: "rx list \<Rightarrow> rx" where
  "alts [] = Assert (\<lambda>_ _. False)" | "alts [r] = r" | "alts (r # rs) = Alt r (alts rs)"

definition opt :: "rx \<Rightarrow> rx" where "opt r = Alt r Eps"
definition plus :: "rx \<Rightarrow> rx" where "plus r = Seq r (Star r)"

text \<open>A literal word under \<^verbatim>\<open>re.IGNORECASE\<close>, and a case-sensitive one.\<close>

definition lit_i :: "ucd \<Rightarrow> ustr \<Rightarrow> rx" where
  "lit_i U w = seqs (map (\<lambda>k. Chr (\<lambda>c. same_letter U c k)) w)"

definition lit :: "ustr \<Rightarrow> rx" where
  "lit w = seqs (map (\<lambda>k. Chr (\<lambda>c. c = k)) w)"

definition one_of :: "ustr \<Rightarrow> rx" where
  "one_of cs = Chr (\<lambda>c. c \<in> set cs)"

text \<open>\<^verbatim>\<open>\b\<close> and \<^verbatim>\<open>$\<close> (the end, or just before a final line feed).\<close>

definition word_boundary :: "ucd \<Rightarrow> rx" where
  "word_boundary U = Assert (\<lambda>l r.
     (case l of [] \<Rightarrow> False | c # _ \<Rightarrow> word_char U c) \<noteq> (case r of [] \<Rightarrow> False | c # _ \<Rightarrow> word_char U c))"

definition end_of_text :: rx where
  "end_of_text = Assert (\<lambda>l r. r = [] \<or> r = [10])"

text \<open>\<^verbatim>\<open>r.search(s)\<close>: the match as (before, matched, after).\<close>

fun search_from :: "rx \<Rightarrow> ustr \<Rightarrow> ustr \<Rightarrow> (ustr \<times> ustr \<times> ustr) option" where
  "search_from r l [] =
     (case outs r (l, []) of [] \<Rightarrow> None | (l', r') # _ \<Rightarrow> Some (rev l, [], []))"
| "search_from r l (c # cs) =
     (case outs r (l, c # cs) of
        (l', r') # _ \<Rightarrow> Some (rev l, take (length (c # cs) - length r') (c # cs), r')
      | [] \<Rightarrow> search_from r (c # l) cs)"

definition search :: "rx \<Rightarrow> ustr \<Rightarrow> (ustr \<times> ustr \<times> ustr) option" where
  "search r s = search_from r [] s"

definition fullmatch :: "rx \<Rightarrow> ustr \<Rightarrow> bool" where
  "fullmatch r s \<longleftrightarrow> list_ex (\<lambda>p. snd p = []) (outs r ([], s))"

text \<open>
  The pieces of \<open>s\<close> between the non-overlapping matches of \<open>r\<close>, from left to right, as \<^verbatim>\<open>r.split(s)\<close>
  lists them; \<^verbatim>\<open>r.sub(t, s)\<close> joins them with \<open>t\<close>.  For expressions that match no empty string,
  which is all the backend's.
\<close>

function pieces :: "rx \<Rightarrow> ustr \<Rightarrow> ustr \<Rightarrow> ustr \<Rightarrow> ustr list" where
  "pieces r l acc [] = [rev acc]"
| "pieces r l acc (c # cs) =
     (case outs r (l, c # cs) of
        (l', r') # _ \<Rightarrow>
          if length r' < length (c # cs) then rev acc # pieces r l' [] r'
          else pieces r (c # l) (c # acc) cs
      | [] \<Rightarrow> pieces r (c # l) (c # acc) cs)"
  by pat_completeness auto
termination
  by (relation "measure (\<lambda>(r, l, acc, s). length s)") auto

definition re_split :: "rx \<Rightarrow> ustr \<Rightarrow> ustr list" where
  "re_split r s = pieces r [] [] s"

definition re_sub :: "rx \<Rightarrow> ustr \<Rightarrow> ustr \<Rightarrow> ustr" where
  "re_sub r t s = join t (re_split r s)"

section \<open>A database for evaluation\<close>

definition in_ranges :: "(nat \<times> nat) list \<Rightarrow> nat \<Rightarrow> bool" where
  "in_ranges rs c \<longleftrightarrow> list_ex (\<lambda>(a, b). a \<le> c \<and> c \<le> b) rs"

definition ua_lower :: "nat \<Rightarrow> nat" where
  "ua_lower c =
     (if in_ranges [(65, 90), (192, 214), (216, 222), (1040, 1071)] c then c + 32
      else if in_ranges [(1024, 1039)] c then c + 80
      else if in_ranges [(1120, 1152), (1162, 1214), (1232, 1326)] c \<and> even c then c + 1
      else c)"

definition ua_letter :: "nat \<Rightarrow> bool" where
  "ua_letter = in_ranges [(65, 90), (97, 122), (170, 170), (181, 181), (186, 186), (192, 214),
     (216, 246), (248, 255), (1024, 1153), (1162, 1327)]"

definition ua_ucd :: ucd where
  "ua_ucd = \<lparr>
     lower = map ua_lower,
     punct_or_symbol = in_ranges [(33, 47), (58, 64), (91, 96), (123, 126), (161, 169), (171, 172),
       (174, 177), (180, 180), (182, 184), (187, 187), (191, 191), (215, 215), (247, 247),
       (8208, 8231), (8240, 8286)],
     space = in_ranges [(9, 13), (28, 32), (133, 133), (160, 160), (8192, 8202), (8232, 8233),
       (8239, 8239), (8287, 8287), (12288, 12288)],
     decimal = in_ranges [(48, 57)],
     decimal_value = (\<lambda>c. c - 48),
     digit = in_ranges [(48, 57), (178, 179), (185, 185)],
     word_char = (\<lambda>c. ua_letter c \<or> in_ranges [(48, 57), (95, 95), (178, 179), (185, 185), (188, 190)] c),
     same_letter = (\<lambda>a b. ua_lower a = ua_lower b)\<rparr>"

lemma ua_ucd_ok: "ucd_ok ua_ucd"
proof -
  have p: "\<forall>c \<in> set (u '':/|''). punct_or_symbol ua_ucd c \<and> \<not> space ua_ucd c"
    by (simp add: u_def ua_ucd_def in_ranges_def)
  show ?thesis
    unfolding ucd_ok_def
    by (intro conjI p) (auto simp: ua_ucd_def in_ranges_def ascii_digit_def)
qed

end
