(* ===== verification/Titles.thy ===== *)
theory Titles
  imports Py_Unicode
begin

text \<open>
  Title normalization: the first half of \<^verbatim>\<open>backend/cs_uk_api/wire_identity.py\<close>.  The regular
  expressions are written with the combinators of \<open>Py_Unicode\<close>, alternative by alternative; Ukrainian
  words are spelled by their code points.  The facts at the end are what the merge core relies on:
  aliases are distinct, never empty, and free of punctuation and of the separators \<^verbatim>\<open>:\<close> and \<^verbatim>\<open>|\<close>.
\<close>

definition w_film :: ustr where "w_film = [1092, 1110, 1083, 1100, 1084]"
definition w_serial :: ustr where "w_serial = [1089, 1077, 1088, 1110, 1072, 1083]"
definition w_mult :: ustr where "w_mult = [1084, 1091, 1083, 1100, 1090]"
definition w_anime :: ustr where "w_anime = [1072, 1085, 1110, 1084, 1077]"
definition w_dorama :: ustr where "w_dorama = [1076, 1086, 1088, 1072, 1084, 1072]"
definition w_kino :: ustr where "w_kino = [1082, 1080, 1085, 1086]"
definition w_serial_ru :: ustr where "w_serial_ru = [1089, 1077, 1088, 1080, 1072, 1083]"
definition w_multyk :: ustr where "w_multyk = [1084, 1091, 1083, 1100, 1090, 1080, 1082]"
definition w_ukr :: ustr where "w_ukr = [1091, 1082, 1088]"
definition w_dubljazh :: ustr where "w_dubljazh = [1076, 1091, 1073, 1083, 1103, 1078]"
definition w_subtytry :: ustr where "w_subtytry = [1089, 1091, 1073, 1090, 1080, 1090, 1088, 1080]"

definition tail_types :: "ustr list" where
  "tail_types = [w_film, w_serial, w_mult @ w_film, w_mult @ w_serial, w_anime, w_dorama, w_kino,
                 w_serial_ru, w_multyk]"

text \<open>\<^verbatim>\<open>_QUALITY_TAGS\<close>.\<close>

definition dash_or_space :: rx where "dash_or_space = opt (one_of (u ''- ''))"

definition quality_tags :: "ucd \<Rightarrow> rx" where
  "quality_tags U =
     (let w = lit_i U \<circ> u in
      seqs [word_boundary U,
        alts [w ''480p'', w ''576p'', w ''720p'', w ''1080p'', w ''2160p'', w ''4320p'', w ''4k'',
          w ''8k'', w ''uhd'', w ''fhd'', Seq (w ''hdr'') (opt (w ''10'')),
          seqs [w ''web'', dash_or_space, w ''dl''], seqs [w ''web'', dash_or_space, w ''rip''],
          seqs [w ''bd'', dash_or_space, w ''rip''], seqs [w ''dvd'', dash_or_space, w ''rip''],
          w ''dvdscr'', w ''hdtv'', Seq (w ''cam'') (opt (w ''rip'')), w ''ts'',
          Seq (w ''x26'') (one_of (u ''45'')), Seq (w ''h26'') (one_of (u ''45'')), w ''hevc'', w ''avc'',
          w ''aac'', w ''ac3'', w ''dts'', w ''mp3'', lit_i U w_ukr, w ''ukr'', w ''ua'',
          lit_i U w_dubljazh, lit_i U w_subtytry],
        word_boundary U])"

text \<open>\<^verbatim>\<open>(?:19|20)\d{2}\<close>, \<^verbatim>\<open>_BRACKET_YEAR\<close> and \<^verbatim>\<open>_TRAILING_YEAR\<close>.\<close>

definition year_digits :: "ucd \<Rightarrow> rx" where
  "year_digits U = seqs [Alt (lit (u ''19'')) (lit (u ''20'')), Chr (decimal U), Chr (decimal U)]"

definition bracket_year :: "ucd \<Rightarrow> rx" where
  "bracket_year U = seqs [one_of (u ''(''  @ u ''[''), Star (Chr (space U)), year_digits U,
                          Star (Chr (space U)), one_of (u '')'' @ u '']'')]"

definition trailing_year :: "ucd \<Rightarrow> rx" where
  "trailing_year U = seqs [Chr (space U), year_digits U, Star (Chr (space U)), end_of_text]"

definition bracket_tail_type :: "ucd \<Rightarrow> rx" where
  "bracket_tail_type U =
     seqs [one_of (u ''('' @ u ''[''),
           alts (map (lit_i U) [w_film, w_serial, w_mult @ w_film, w_mult @ w_serial, w_anime, w_dorama]),
           one_of (u '')'' @ u '']'')]"

text \<open>\<^verbatim>\<open>_APOSTROPHES\<close>: the characters that are deleted.\<close>

definition apostrophes :: "nat list" where
  "apostrophes = [8217, 8216, 96, 180, 700, 39, 34]"

definition alias_split :: "ucd \<Rightarrow> rx" where
  "alias_split U = seqs [plus (Chr (space U)), lit (u ''/''), plus (Chr (space U))]"

text \<open>\<^verbatim>\<open>extract_year\<close>: group 1 of either expression is what its match has of decimal digits.\<close>

definition int_of_decimals :: "ucd \<Rightarrow> ustr \<Rightarrow> nat" where
  "int_of_decimals U s = foldl (\<lambda>n c. 10 * n + decimal_value U c) 0 s"

definition extract_year :: "ucd \<Rightarrow> ustr \<Rightarrow> int option" where
  "extract_year U raw =
     (case search (bracket_year U) raw of
        Some (_, m, _) \<Rightarrow> Some (int (int_of_decimals U (filter (decimal U) m)))
      | None \<Rightarrow>
          (case search (trailing_year U) raw of
             Some (_, m, _) \<Rightarrow> Some (int (int_of_decimals U (filter (decimal U) m)))
           | None \<Rightarrow> None))"

fun drop_tail_types :: "ustr list \<Rightarrow> ustr list" where
  "drop_tail_types [] = []"
| "drop_tail_types (t # ts) = (if t \<in> set tail_types then drop_tail_types ts else t # ts)"

definition normalize_one :: "ucd \<Rightarrow> ustr \<Rightarrow> ustr" where
  "normalize_one U piece =
     (let s = lower U (filter (\<lambda>c. c \<notin> set apostrophes) piece);
          s = re_sub (bracket_year U) [32] s;
          s = re_sub (trailing_year U) [] s;
          s = re_sub (quality_tags U) [32] s;
          s = re_sub (bracket_tail_type U) [32] s;
          s = map (\<lambda>c. if punct_or_symbol U c then 32 else c) s;
          tokens = rev (drop_tail_types (rev (split_ws U s)))
      in join [32] tokens)"

definition title_aliases :: "ucd \<Rightarrow> ustr \<Rightarrow> ustr list" where
  "title_aliases U raw =
     uniq (filter (\<lambda>n. n \<noteq> []) (map (normalize_one U) (re_split (alias_split U) (strip U raw))))"

definition normalize_title :: "ucd \<Rightarrow> ustr \<Rightarrow> ustr" where
  "normalize_title U raw = (case title_aliases U raw of [] \<Rightarrow> [] | a # _ \<Rightarrow> a)"

definition effective_year :: "ucd \<Rightarrow> ustr \<Rightarrow> int option \<Rightarrow> int option" where
  "effective_year U title year = (case year of Some y \<Rightarrow> Some y | None \<Rightarrow> extract_year U title)"

section \<open>The shape of an alias\<close>

lemma set_drop_tail_types: "set (drop_tail_types ts) \<subseteq> set ts"
  by (induction ts) auto

lemma normalize_one_chars:
  assumes ok: "ucd_ok U" and c: "c \<in> set (normalize_one U piece)"
  shows "c = 32 \<or> \<not> punct_or_symbol U c"
proof -
  define s where "s = re_sub (bracket_tail_type U) [32] (re_sub (quality_tags U) [32]
    (re_sub (trailing_year U) [] (re_sub (bracket_year U) [32]
      (lower U (filter (\<lambda>c. c \<notin> set apostrophes) piece)))))"
  define m where "m = map (\<lambda>c. if punct_or_symbol U c then 32 else c) s"
  have "\<forall>c \<in> set m. space U c \<or> \<not> punct_or_symbol U c"
    using ok by (auto simp: m_def ucd_ok_def)
  then have tok: "\<forall>t \<in> set (split_ws U m). \<forall>c \<in> set t. \<not> punct_or_symbol U c"
    using split_ws_tokens [of m U "\<lambda>c. \<not> punct_or_symbol U c"] by blast
  have "normalize_one U piece = join [32] (rev (drop_tail_types (rev (split_ws U m))))"
    by (simp add: normalize_one_def Let_def m_def s_def)
  with c have "c = 32 \<or> (\<exists>t \<in> set (drop_tail_types (rev (split_ws U m))). c \<in> set t)"
    using set_join [of c "[32]"] by fastforce
  then show ?thesis using tok set_drop_tail_types [of "rev (split_ws U m)"] by auto
qed

lemma title_aliases_distinct [simp]: "distinct (title_aliases U raw)"
  by (simp add: title_aliases_def)

lemma title_alias_nonempty: "a \<in> set (title_aliases U raw) \<Longrightarrow> a \<noteq> []"
  by (auto simp: title_aliases_def)

lemma title_alias_chars:
  "ucd_ok U \<Longrightarrow> a \<in> set (title_aliases U raw) \<Longrightarrow> c \<in> set a \<Longrightarrow> c = 32 \<or> \<not> punct_or_symbol U c"
  by (auto simp: title_aliases_def dest: normalize_one_chars)

text \<open>Neither separator of the key text occurs in an alias.\<close>

lemma alias_no_separator:
  assumes "ucd_ok U" and "a \<in> set (title_aliases U raw)" and "c \<in> set (u '':/|'')"
  shows "c \<notin> set a"
proof
  assume "c \<in> set a"
  from title_alias_chars [OF assms(1,2) this] have "c = 32"
    using assms(1,3) by (auto simp: ucd_ok_def)
  with assms(3) show False by (simp add: u_def)
qed

end
