(* ===== verification/Sha1.thy ===== *)
theory Sha1
  imports Py_Prelude "HOL-Library.Word"
begin

text \<open>
  \<^verbatim>\<open>hashlib.sha1(text.encode()).hexdigest()\<close>, which the group keys are cut from: UTF-8 encoding, the
  padding of FIPS 180-4, its eighty rounds on 32-bit words, and the hexadecimal rendering.
\<close>

unbundle bit_operations_syntax

fun utf8_char :: "nat \<Rightarrow> nat list" where
  "utf8_char c =
     (if c < 128 then [c]
      else if c < 2048 then [192 + c div 64, 128 + c mod 64]
      else if c < 65536 then [224 + c div 4096, 128 + c div 64 mod 64, 128 + c mod 64]
      else [240 + c div 262144, 128 + c div 4096 mod 64, 128 + c div 64 mod 64, 128 + c mod 64])"

definition utf8 :: "ustr \<Rightarrow> nat list" where
  "utf8 s = concat (map utf8_char s)"

type_synonym u32 = "32 word"

definition rotl :: "nat \<Rightarrow> u32 \<Rightarrow> u32" where
  "rotl n x = push_bit n x OR drop_bit (32 - n) x"

text \<open>The message, a one bit, zeros up to 56 bytes modulo 64, and the bit length in 8 bytes.\<close>

definition be_bytes :: "nat \<Rightarrow> nat \<Rightarrow> nat list" where
  "be_bytes k n = map (\<lambda>i. n div 256 ^ (k - 1 - i) mod 256) [0..<k]"

definition sha_pad :: "nat list \<Rightarrow> nat list" where
  "sha_pad bs = bs @ [128] @ replicate ((119 - length bs mod 64) mod 64) 0 @ be_bytes 8 (8 * length bs)"

fun be_words :: "nat list \<Rightarrow> u32 list" where
  "be_words (a # b # c # d # bs) = of_nat (((a * 256 + b) * 256 + c) * 256 + d) # be_words bs"
| "be_words _ = []"

text \<open>The schedule, kept as the last sixteen words, newest first.\<close>

definition next_word :: "u32 list \<Rightarrow> u32" where
  "next_word w = rotl 1 (w ! 2 XOR w ! 7 XOR w ! 13 XOR w ! 15)"

fun schedule :: "nat \<Rightarrow> u32 list \<Rightarrow> u32 list" where
  "schedule 0 w = []"
| "schedule (Suc n) w = (let x = next_word w in x # schedule n (x # butlast w))"

type_synonym sha_state = "u32 \<times> u32 \<times> u32 \<times> u32 \<times> u32"

definition sha_f :: "nat \<Rightarrow> u32 \<Rightarrow> u32 \<Rightarrow> u32 \<Rightarrow> u32 \<times> u32" where
  "sha_f t b c d =
     (if t < 20 then ((b AND c) OR (NOT b AND d), 1518500249)
      else if t < 40 then (b XOR c XOR d, 1859775393)
      else if t < 60 then ((b AND c) OR (b AND d) OR (c AND d), 2400959708)
      else (b XOR c XOR d, 3395469782))"

fun sha_rounds :: "nat \<Rightarrow> u32 list \<Rightarrow> sha_state \<Rightarrow> sha_state" where
  "sha_rounds t [] s = s"
| "sha_rounds t (w # ws) (a, b, c, d, e) =
     (let (f, k) = sha_f t b c d
      in sha_rounds (Suc t) ws (rotl 5 a + f + e + k + w, a, rotl 30 b, c, d))"

definition sha_block :: "sha_state \<Rightarrow> u32 list \<Rightarrow> sha_state" where
  "sha_block s w =
     (let (a, b, c, d, e) = s;
          (a', b', c', d', e') = sha_rounds 0 (w @ schedule 64 (rev w)) s
      in (a + a', b + b', c + c', d + d', e + e'))"

function sha_blocks :: "u32 list \<Rightarrow> sha_state \<Rightarrow> sha_state" where
  "sha_blocks ws s = (if ws = [] then s else sha_blocks (drop 16 ws) (sha_block s (take 16 ws)))"
  by pat_completeness auto
termination
  by (relation "measure (length \<circ> fst)") auto

declare sha_blocks.simps [simp del]

definition sha_init :: sha_state where
  "sha_init = (1732584193, 4023233417, 2562383102, 271733878, 3285377520)"

definition hex_digit :: "nat \<Rightarrow> nat" where
  "hex_digit n = (if n < 10 then 48 + n else 87 + n)"

definition hex_word :: "u32 \<Rightarrow> ustr" where
  "hex_word w = map (\<lambda>i. hex_digit (unat w div 16 ^ (7 - i) mod 16)) [0..<8]"

definition sha1_hex :: "nat list \<Rightarrow> ustr" where
  "sha1_hex bs =
     (case sha_blocks (be_words (sha_pad bs)) sha_init of
        (a, b, c, d, e) \<Rightarrow> hex_word a @ hex_word b @ hex_word c @ hex_word d @ hex_word e)"

lemma length_hex_word [simp]: "length (hex_word w) = 8"
  by (simp add: hex_word_def)

lemma length_sha1_hex [simp]: "length (sha1_hex bs) = 40"
  by (simp add: sha1_hex_def split: prod.splits)

end
