(* ===== verification/Wire_Identity.thy ===== *)
theory Wire_Identity
  imports Titles Sha1
begin

text \<open>
  The id grammar that crosses the API: \<^verbatim>\<open>backend/cs_uk_api/wire_identity.py\<close> from the group keys on,
  and the \<^verbatim>\<open>SearchResult\<close> model of \<^verbatim>\<open>models.py\<close> it keys.  Group keys, season keys, episode tails, the
  movie suffix, playable ids and the projection of a merged group, with the round trips between
  their builders and their parsers.  A \<^verbatim>\<open>ValueError\<close> is the value \<open>Inl Value_error\<close>.
\<close>

datatype wire_error = Value_error

section \<open>Listing items\<close>

datatype media_form = Movie | Series
datatype media_style = Anime | Cartoon | Dorama

definition form_text :: "media_form \<Rightarrow> ustr" where
  "form_text f = (case f of Movie \<Rightarrow> u ''movie'' | Series \<Rightarrow> u ''series'')"

definition style_text :: "media_style \<Rightarrow> ustr" where
  "style_text s = (case s of Anime \<Rightarrow> u ''anime'' | Cartoon \<Rightarrow> u ''cartoon'' | Dorama \<Rightarrow> u ''dorama'')"

text \<open>Styles are ordered as their texts are, which \<^verbatim>\<open>min(styles)\<close> and \<^verbatim>\<open>sorted(styles)\<close> use.\<close>

instantiation media_style :: linorder
begin

definition less_eq_media_style :: "media_style \<Rightarrow> media_style \<Rightarrow> bool" where
  "less_eq_media_style a b \<longleftrightarrow> style_text a \<le> style_text b"

definition less_media_style :: "media_style \<Rightarrow> media_style \<Rightarrow> bool" where
  "less_media_style a b \<longleftrightarrow> style_text a < style_text b"

instance
proof
  fix a b c :: media_style
  show "a < b \<longleftrightarrow> a \<le> b \<and> \<not> b \<le> a"
    by (auto simp: less_eq_media_style_def less_media_style_def)
  show "a \<le> a" by (simp add: less_eq_media_style_def)
  show "a \<le> b \<Longrightarrow> b \<le> c \<Longrightarrow> a \<le> c" by (auto simp: less_eq_media_style_def)
  show "a \<le> b \<Longrightarrow> b \<le> a \<Longrightarrow> a = b"
    by (cases a; cases b) (auto simp: less_eq_media_style_def style_text_def dest: antisym)
  show "a \<le> b \<or> b \<le> a" by (auto simp: less_eq_media_style_def)
qed

end

record search_result =
  sr_id :: ustr
  provider :: ustr
  form :: media_form
  title :: ustr
  year :: "int option"
  poster :: "ustr option"
  url :: ustr
  styles :: "media_style set"
  genres :: "ustr list"
  imdb_id :: "ustr option"

section \<open>Group keys\<close>

definition group_key_prefix :: ustr where "group_key_prefix = u ''g2:''"
definition group_key_prefix_g3 :: ustr where "group_key_prefix_g3 = u ''g3:''"

text \<open>\<^verbatim>\<open>f"{alias}|{form}|{year or ''}"\<close>: a year of zero is written like an unknown one.\<close>

definition key_text :: "ustr \<Rightarrow> media_form \<Rightarrow> int option \<Rightarrow> ustr" where
  "key_text alias f y =
     alias @ u ''|'' @ form_text f @ u ''|'' @
     (case y of None \<Rightarrow> [] | Some i \<Rightarrow> if i = 0 then [] else dec_int i)"

definition key_digest :: "ustr \<Rightarrow> ustr" where
  "key_digest text = take 16 (sha1_hex (utf8 text))"

definition group_key :: "ustr \<Rightarrow> media_form \<Rightarrow> int option \<Rightarrow> ustr" where
  "group_key alias f y = group_key_prefix @ key_digest (key_text alias f y)"

text \<open>\<^verbatim>\<open>IMDB_ID_RE.fullmatch\<close> and \<^verbatim>\<open>IMDB_RE.fullmatch\<close>: \<^verbatim>\<open>tt\<close> and 7 to 10, or 7 to 8, digits.\<close>

definition imdb_shape :: "ucd \<Rightarrow> nat \<Rightarrow> ustr \<Rightarrow> bool" where
  "imdb_shape U m s \<longleftrightarrow>
     starts_with (u ''tt'') s \<and> list_all (decimal U) (drop 2 s) \<and>
     7 \<le> length (drop 2 s) \<and> length (drop 2 s) \<le> m"

definition imdb_id_re :: "ucd \<Rightarrow> ustr \<Rightarrow> bool" where "imdb_id_re U = imdb_shape U 10"
definition imdb_re :: "ucd \<Rightarrow> ustr \<Rightarrow> bool" where "imdb_re U = imdb_shape U 8"

definition group_key_from_imdb :: "ucd \<Rightarrow> ustr \<Rightarrow> wire_error + ustr" where
  "group_key_from_imdb U i =
     (if \<not> imdb_id_re U i then Inl Value_error else Inr (group_key_prefix_g3 @ i))"

definition is_group_key :: "ustr \<Rightarrow> bool" where
  "is_group_key s \<longleftrightarrow> starts_with group_key_prefix s \<or> starts_with group_key_prefix_g3 s"

definition group_key_from :: "ucd \<Rightarrow> ustr \<Rightarrow> media_form \<Rightarrow> int option \<Rightarrow> ustr \<Rightarrow> ustr" where
  "group_key_from U t f y i =
     (let aliases = title_aliases U t;
          key_alias = (if aliases \<noteq> [] then min_list aliases else u ''id:'' @ i)
      in group_key key_alias f (effective_year U t y))"

text \<open>The id an item asserts, when it is truthy and has the shape of one.\<close>

definition valid_imdb :: "ucd \<Rightarrow> search_result \<Rightarrow> ustr option" where
  "valid_imdb U it =
     (case imdb_id it of
        None \<Rightarrow> None
      | Some i \<Rightarrow> if i \<noteq> [] \<and> imdb_id_re U i then Some i else None)"

text \<open>The \<^verbatim>\<open>ValueError\<close> of \<^verbatim>\<open>group_key_from_imdb\<close> is unreachable here: the shape was tested.\<close>

definition item_group_key :: "ucd \<Rightarrow> search_result \<Rightarrow> ustr" where
  "item_group_key U it =
     (case valid_imdb U it of
        Some i \<Rightarrow> (case group_key_from_imdb U i of Inr k \<Rightarrow> k | Inl _ \<Rightarrow> [])
      | None \<Rightarrow> group_key_from U (title it) (form it) (year it) (sr_id it))"

lemma item_group_key_imdb: "valid_imdb U it = Some i \<Longrightarrow> item_group_key U it = group_key_prefix_g3 @ i"
  by (auto simp: item_group_key_def valid_imdb_def group_key_from_imdb_def split: option.splits if_splits)

section \<open>Integers on the wire\<close>

text \<open>
  \<^verbatim>\<open>int(s)\<close> on a run of digits: a character that \<^verbatim>\<open>isdigit\<close> accepts but that is no decimal digit is a
  \<^verbatim>\<open>ValueError\<close>, and so is a run longer than the interpreter's limit of 4300 digits.
\<close>

definition max_str_digits :: nat where "max_str_digits = 4300"

definition py_int :: "ucd \<Rightarrow> ustr \<Rightarrow> wire_error + int" where
  "py_int U s =
     (if s = [] \<or> \<not> list_all (decimal U) s \<or> max_str_digits < length s then Inl Value_error
      else Inr (int (int_of_decimals U s)))"

lemma int_of_decimals_ascii:
  assumes "ucd_ok U" and "\<forall>c \<in> set s. ascii_digit c"
  shows "foldl (\<lambda>n c. 10 * n + decimal_value U c) k s = nat_of_dec k s"
  using assms(2) by (induction s arbitrary: k) (use assms(1) in \<open>auto simp: ucd_ok_def\<close>)

lemma ascii_digit_decimal: "ucd_ok U \<Longrightarrow> ascii_digit c \<Longrightarrow> decimal U c"
  by (auto simp: ucd_ok_def ascii_digit_def)

lemma py_int_dec_nat:
  assumes "ucd_ok U" and "length (dec_nat n) \<le> max_str_digits"
  shows "py_int U (dec_nat n) = Inr (int n)"
  using assms dec_nat_digits [of _ n] int_of_decimals_ascii [OF assms(1), of "dec_nat n" 0]
  by (auto simp: py_int_def int_of_decimals_def list_all_iff ascii_digit_decimal)

section \<open>Season keys\<close>

definition season_key :: "ustr \<Rightarrow> int \<Rightarrow> ustr" where
  "season_key g n = g @ u '':S'' @ dec_int n"

definition split_season_key :: "ucd \<Rightarrow> ustr \<Rightarrow> wire_error + ustr \<times> int option" where
  "split_season_key U i =
     (if \<not> is_group_key i then Inr (i, None)
      else case split_last 58 i of
        None \<Rightarrow> Inr (i, None)
      | Some (head, tail) \<Rightarrow>
          if starts_with (u ''S'') tail \<and> drop 1 tail \<noteq> [] \<and> list_all (digit U) (drop 1 tail)
          then (case py_int U (drop 1 tail) of Inl e \<Rightarrow> Inl e | Inr n \<Rightarrow> Inr (head, Some n))
          else Inr (i, None))"

section \<open>Episode tails\<close>

text \<open>
  \<^verbatim>\<open>:(?:s\d+)?e\d+(?=:|$)\<close> at the start of \<open>s\<close>.  No alternative of the expression overlaps another:
  after the colon comes \<^verbatim>\<open>s\<close> or \<^verbatim>\<open>e\<close>, and a run of digits can only be taken whole.
\<close>

definition tail_end :: "ustr \<Rightarrow> bool" where
  "tail_end r \<longleftrightarrow> r = [] \<or> r = [10] \<or> starts_with (u '':'') r"

definition number_then :: "ucd \<Rightarrow> (ustr \<Rightarrow> bool) \<Rightarrow> ustr \<Rightarrow> bool" where
  "number_then U P s \<longleftrightarrow> takeWhile (decimal U) s \<noteq> [] \<and> P (dropWhile (decimal U) s)"

definition e_part :: "ucd \<Rightarrow> ustr \<Rightarrow> bool" where
  "e_part U s = (case s of c # r \<Rightarrow> c = 101 \<and> number_then U tail_end r | [] \<Rightarrow> False)"

definition episode_tail_at :: "ucd \<Rightarrow> ustr \<Rightarrow> bool" where
  "episode_tail_at U s =
     (case s of
        c # d # r \<Rightarrow> c = 58 \<and> (if d = 115 then number_then U (e_part U) r else e_part U (d # r))
      | _ \<Rightarrow> False)"

fun find_tail :: "ucd \<Rightarrow> ustr \<Rightarrow> (ustr \<times> ustr) option" where
  "find_tail U [] = None"
| "find_tail U (c # cs) =
     (if episode_tail_at U (c # cs) then Some ([], c # cs)
      else map_option (\<lambda>(a, b). (c # a, b)) (find_tail U cs))"

definition split_episode_tail :: "ucd \<Rightarrow> ustr \<Rightarrow> (ustr \<times> ustr) option" where
  "split_episode_tail U i = find_tail U i"

text \<open>\<^verbatim>\<open>parse_episode_tail\<close>: \<^verbatim>\<open>s(\d+)e(\d+)\<close> over the whole tail without its leading colons.\<close>

definition parse_episode_tail :: "ucd \<Rightarrow> ustr \<Rightarrow> wire_error + (int \<times> int) option" where
  "parse_episode_tail U tail =
     (case dropWhile (\<lambda>c. c = 58) tail of
        c # r \<Rightarrow>
          (let s = takeWhile (decimal U) r; r' = dropWhile (decimal U) r in
           case r' of
             d # e \<Rightarrow>
               if c = 115 \<and> s \<noteq> [] \<and> d = 101 \<and> e \<noteq> [] \<and> list_all (decimal U) e
               then (case py_int U s of
                       Inl x \<Rightarrow> Inl x
                     | Inr m \<Rightarrow> (case py_int U e of Inl x \<Rightarrow> Inl x | Inr n \<Rightarrow> Inr (Some (m, n))))
               else Inr None
           | [] \<Rightarrow> Inr None)
      | [] \<Rightarrow> Inr None)"

definition episode_wire_id :: "ustr \<Rightarrow> ustr \<Rightarrow> int \<Rightarrow> int \<Rightarrow> ustr" where
  "episode_wire_id p ext season episode =
     p @ u '':'' @ ext @ u '':s'' @ dec_int season @ u ''e'' @ dec_int episode"

section \<open>Movie suffix and playable ids\<close>

definition movie_suffix :: ustr where "movie_suffix = u '':__movie__''"

definition is_movie_wire_id :: "ustr \<Rightarrow> bool" where
  "is_movie_wire_id i = ends_with movie_suffix i"

definition strip_movie_suffix :: "ustr \<Rightarrow> ustr" where
  "strip_movie_suffix i = (if ends_with movie_suffix i then take (length i - length movie_suffix) i else i)"

text \<open>
  \<^verbatim>\<open>parse_playable_id\<close>, with the full match of \<^verbatim>\<open>external_re\<close> as a predicate.  \<open>None\<close> is \<^verbatim>\<open>(None, None)\<close>.
\<close>

definition parse_playable_id ::
  "ucd \<Rightarrow> (ustr \<Rightarrow> bool) \<Rightarrow> ustr \<Rightarrow> ustr \<Rightarrow> wire_error + (ustr \<times> int option) option" where
  "parse_playable_id U external_re p i =
     (if is_movie_wire_id i then
        (let external = remove_prefix (p @ u '':'') (strip_movie_suffix i)
         in Inr (if external_re external then Some (external, None) else None))
      else case split_episode_tail U i of
        None \<Rightarrow> Inr None
      | Some (composite, tail) \<Rightarrow>
          (let c = remove_prefix (p @ u '':'') composite in
           if 58 \<in> set c \<or> \<not> external_re c then Inr None
           else case parse_episode_tail U tail of
             Inl e \<Rightarrow> Inl e
           | Inr None \<Rightarrow> Inr None
           | Inr (Some (season, episode)) \<Rightarrow> Inr (Some (c, Some season))))"

text \<open>\<^verbatim>\<open>split_wire_id\<close>.\<close>

definition split_wire_id :: "ustr \<Rightarrow> ustr \<times> ustr" where
  "split_wire_id s = (case split_first 58 s of (p, None) \<Rightarrow> (p, []) | (p, Some e) \<Rightarrow> (p, e))"

section \<open>The projection of a merged group\<close>

record merge_group =
  mg_key :: ustr
  sources :: "search_result list"

record group_projection =
  gp_key :: ustr
  gp_title :: ustr
  gp_year :: "int option"
  gp_poster :: "ustr option"
  gp_form :: media_form
  gp_styles :: "media_style set"
  gp_genres :: "ustr list"
  gp_providers :: "ustr list"
  gp_sources :: "search_result list"
  gp_member_keys :: "ustr list"

definition has_cyrillic :: "ustr \<Rightarrow> bool" where
  "has_cyrillic s = list_ex (\<lambda>c. 1024 \<le> c \<and> c \<le> 1279) s"

text \<open>\<open>None\<close> is the \<^verbatim>\<open>IndexError\<close> of a group without sources.\<close>

definition project_group :: "ucd \<Rightarrow> merge_group \<Rightarrow> group_projection option" where
  "project_group U mg =
     (case sources mg of
        [] \<Rightarrow> None
      | first # _ \<Rightarrow>
          (let sample = (case find (\<lambda>s. has_cyrillic (title s)) (sources mg) of
                           Some s \<Rightarrow> s | None \<Rightarrow> first)
           in Some \<lparr>gp_key = mg_key mg, gp_title = title sample, gp_year = year sample,
                    gp_poster = poster sample, gp_form = form sample, gp_styles = styles sample,
                    gp_genres = genres sample, gp_providers = uniq (map provider (sources mg)),
                    gp_sources = sources mg,
                    gp_member_keys = uniq (map (item_group_key U) (sources mg))\<rparr>))"

definition provider_union :: "search_result list \<Rightarrow> (ustr, search_result) pdict" where
  "provider_union ss = foldl (\<lambda>d s. snd (dsetdefault (provider s) s d)) [] ss"

section \<open>Round trips\<close>

lemma dec_int_nat [simp]: "dec_int (int n) = dec_nat n"
  by (simp add: dec_int_def)

lemma dec_nat_decimal: "ucd_ok U \<Longrightarrow> \<forall>c \<in> set (dec_nat n). decimal U c"
  using dec_nat_digits ascii_digit_decimal by blast

lemma ascii_not_decimal: "ucd_ok U \<Longrightarrow> c < 128 \<Longrightarrow> \<not> ascii_digit c \<Longrightarrow> \<not> decimal U c"
  by (simp add: ucd_ok_def)

lemma span_dec_nat:
  assumes "ucd_ok U" and "r = [] \<or> (\<exists>c r'. r = c # r' \<and> \<not> decimal U c)"
  shows "takeWhile (decimal U) (dec_nat n @ r) = dec_nat n"
    and "dropWhile (decimal U) (dec_nat n @ r) = r"
  using assms dec_nat_decimal [OF assms(1), of n]
  by (auto simp: takeWhile_append2 dropWhile_append2)

lemma no_colon_dec_nat: "58 \<notin> set (dec_nat n)"
  using dec_nat_digits [of 58 n] by (auto simp: ascii_digit_def)

lemma is_group_key_append: "is_group_key g \<Longrightarrow> is_group_key (g @ s)"
  by (auto simp: is_group_key_def starts_with_iff)

text \<open>A season id built from a group key splits back into that group key and season, for every
  season number Python can parse.\<close>

theorem season_key_roundtrip:
  assumes "ucd_ok U" and "is_group_key g" and "length (dec_nat n) \<le> max_str_digits"
  shows "split_season_key U (season_key g (int n)) = Inr (g, Some (int n))"
proof -
  have eq: "season_key g (int n) = g @ 58 # (83 # dec_nat n)"
    by (simp add: season_key_def u_def)
  have "list_all (digit U) (dec_nat n)"
    using dec_nat_decimal [OF assms(1), of n] assms(1) by (auto simp: ucd_ok_def list_all_iff)
  moreover have "split_last 58 (g @ 58 # (83 # dec_nat n)) = Some (g, 83 # dec_nat n)"
    by (rule split_last_app) (simp add: no_colon_dec_nat)
  moreover have "is_group_key (g @ 58 # (83 # dec_nat n))"
    using assms(2) by (rule is_group_key_append)
  ultimately show ?thesis
    using py_int_dec_nat [OF assms(1,3)]
    by (simp add: eq split_season_key_def starts_with_def u_def)
qed

theorem season_key_roundtrip_witness:
  "split_season_key ua_ucd (season_key (u ''g3:tt0903747'') 12) = Inr (u ''g3:tt0903747'', Some 12)"
proof -
  have "is_group_key (u ''g3:tt0903747'')" by code_simp
  moreover have "length (dec_nat 12) \<le> max_str_digits" by code_simp
  ultimately show ?thesis using season_key_roundtrip [OF ua_ucd_ok, of "u ''g3:tt0903747''" 12] by simp
qed

text \<open>A season suffix that \<^verbatim>\<open>str.isdigit\<close> accepts and \<^verbatim>\<open>int\<close> does not, such as a superscript
  digit, makes the splitter raise instead of passing the id through.\<close>

theorem season_key_raises:
  assumes "is_group_key g" and "digit U c" and "\<not> decimal U c" and "c \<noteq> 58"
  shows "split_season_key U (g @ u '':S'' @ [c]) = Inl Value_error"
proof -
  have eq: "g @ u '':S'' @ [c] = g @ 58 # [83, c]" by (simp add: u_def)
  have "split_last 58 (g @ 58 # [83, c]) = Some (g, [83, c])"
    by (rule split_last_app) (use assms(4) in simp)
  moreover have "is_group_key (g @ 58 # [83, c])"
    using assms(1) by (rule is_group_key_append)
  ultimately show ?thesis
    using assms(2,3) by (simp add: eq split_season_key_def starts_with_def u_def py_int_def)
qed

theorem season_key_raises_witness:
  "split_season_key ua_ucd (u ''g2:0123456789abcdef'' @ u '':S'' @ [178]) = Inl Value_error"
proof -
  have "is_group_key (u ''g2:0123456789abcdef'')" by code_simp
  then show ?thesis
    by (rule season_key_raises) (simp_all add: ua_ucd_def in_ranges_def)
qed

text \<open>The tail that \<open>episode_wire_id\<close> writes is one the expression finds.\<close>

definition episode_tail :: "nat \<Rightarrow> nat \<Rightarrow> ustr" where
  "episode_tail m n = 58 # 115 # dec_nat m @ 101 # dec_nat n"

lemma episode_wire_id_tail: "episode_wire_id p ext (int m) (int n) = (p @ u '':'' @ ext) @ episode_tail m n"
  by (simp add: episode_wire_id_def episode_tail_def u_def)

lemma episode_tail_at_tail:
  assumes "ucd_ok U"
  shows "episode_tail_at U (episode_tail m n)"
proof -
  have e: "\<not> decimal U 101" using assms by (rule ascii_not_decimal) (simp_all add: ascii_digit_def)
  then have "takeWhile (decimal U) (dec_nat m @ 101 # dec_nat n) = dec_nat m"
    "dropWhile (decimal U) (dec_nat m @ 101 # dec_nat n) = 101 # dec_nat n"
    using span_dec_nat [OF assms, of "101 # dec_nat n" m] by auto
  moreover have "takeWhile (decimal U) (dec_nat n) = dec_nat n" "dropWhile (decimal U) (dec_nat n) = []"
    using span_dec_nat [OF assms, of "[]" n] by (simp_all only: append_Nil2 simp_thms)
  ultimately show ?thesis
    by (simp del: takeWhile_eq_all_conv dropWhile_eq_Nil_conv add: episode_tail_at_def episode_tail_def number_then_def e_part_def tail_end_def)
qed

lemma parse_episode_tail_tail:
  assumes "ucd_ok U" and "length (dec_nat m) \<le> max_str_digits" and "length (dec_nat n) \<le> max_str_digits"
  shows "parse_episode_tail U (episode_tail m n) = Inr (Some (int m, int n))"
proof -
  have e: "\<not> decimal U 101" using assms(1) by (rule ascii_not_decimal) (simp_all add: ascii_digit_def)
  then have "takeWhile (decimal U) (dec_nat m @ 101 # dec_nat n) = dec_nat m"
    "dropWhile (decimal U) (dec_nat m @ 101 # dec_nat n) = 101 # dec_nat n"
    using span_dec_nat [OF assms(1), of "101 # dec_nat n" m] by auto
  moreover have "list_all (decimal U) (dec_nat n)"
    using dec_nat_decimal [OF assms(1)] by (simp add: list_all_iff)
  ultimately show ?thesis
    using py_int_dec_nat [OF assms(1,2)] py_int_dec_nat [OF assms(1,3)]
    by (simp add: parse_episode_tail_def episode_tail_def)
qed

lemma episode_tail_at_colon: "episode_tail_at U (c # cs) \<Longrightarrow> c = 58"
  by (auto simp: episode_tail_at_def split: list.splits)

lemma find_tail_skip: "58 \<notin> set a \<Longrightarrow> find_tail U (a @ t) = map_option (\<lambda>(x, y). (a @ x, y)) (find_tail U t)"
proof (induction a)
  case Nil
  show ?case by (cases "find_tail U t") auto
next
  case (Cons c a)
  then have "\<not> episode_tail_at U (c # a @ t)" using episode_tail_at_colon by fastforce
  with Cons show ?case by (cases "find_tail U t") auto
qed

lemma find_tail_here: "episode_tail_at U t \<Longrightarrow> find_tail U t = Some ([], t)"
  by (cases t) (auto simp: episode_tail_at_def)

lemma imdb_chars:
  assumes "ucd_ok U" and "imdb_shape U k ext"
  shows "58 \<notin> set ext" and "\<exists>r. ext = 116 # r"
proof -
  have e: "ext = take 2 ext @ drop 2 ext" by simp
  have t: "take 2 ext = [116, 116]"
    using assms(2) by (simp add: imdb_shape_def starts_with_def u_def numeral_2_eq_2)
  have "58 \<notin> set (drop 2 ext)"
    using assms ascii_not_decimal [OF assms(1), of 58]
    by (auto simp: imdb_shape_def list_all_iff ascii_digit_def)
  moreover have "set ext = set (take 2 ext) \<union> set (drop 2 ext)"
    by (metis e set_append)
  ultimately show "58 \<notin> set ext" using t by simp
  show "\<exists>r. ext = 116 # r" using e t by (metis append_Cons)
qed

lemma split_imdb_episode:
  assumes "ucd_ok U" and "58 \<notin> set p" and "imdb_re U ext"
  shows "split_episode_tail U ((p @ u '':'' @ ext) @ episode_tail m n) = Some (p @ u '':'' @ ext, episode_tail m n)"
    and "split_episode_tail U (ext @ episode_tail m n) = Some (ext, episode_tail m n)"
proof -
  have ext: "58 \<notin> set ext" "\<exists>r. ext = 116 # r"
    using imdb_chars [OF assms(1)] assms(3) by (auto simp: imdb_re_def)
  have here: "find_tail U (episode_tail m n) = Some ([], episode_tail m n)"
    by (rule find_tail_here) (rule episode_tail_at_tail [OF assms(1)])
  have tail: "find_tail U (ext @ episode_tail m n) = Some (ext, episode_tail m n)"
    by (simp add: find_tail_skip ext here)
  then show "split_episode_tail U (ext @ episode_tail m n) = Some (ext, episode_tail m n)"
    by (simp add: split_episode_tail_def)
  have "\<not> episode_tail_at U (58 # ext @ episode_tail m n)"
    using ext(2) by (auto simp: episode_tail_at_def e_part_def)
  then have "find_tail U (58 # ext @ episode_tail m n) = Some (58 # ext, episode_tail m n)"
    by (simp add: tail)
  then show "split_episode_tail U ((p @ u '':'' @ ext) @ episode_tail m n) =
      Some (p @ u '':'' @ ext, episode_tail m n)"
    by (simp add: split_episode_tail_def find_tail_skip assms(2) u_def)
qed

lemma not_movie_tail: "\<not> is_movie_wire_id (s @ episode_tail m n)"
proof
  assume "is_movie_wire_id (s @ episode_tail m n)"
  then obtain t where t: "s @ episode_tail m n = t @ movie_suffix"
    by (auto simp: is_movie_wire_id_def ends_with_iff)
  then have "last (s @ episode_tail m n) = 95" by (simp add: movie_suffix_def u_def)
  then have "last (dec_nat n) = 95" by (simp add: episode_tail_def)
  moreover have "ascii_digit (last (dec_nat n))" by (rule dec_nat_digits [of _ n]) simp
  ultimately show False by (simp add: ascii_digit_def)
qed

lemma remove_prefix_none:
  assumes "58 \<notin> set ext"
  shows "remove_prefix (p @ u '':'') ext = ext"
proof -
  have "58 \<in> set (p @ u '':'')" by (simp add: u_def)
  then have "\<not> starts_with (p @ u '':'') ext"
    using assms by (auto simp: starts_with_iff)
  then show ?thesis by (simp add: remove_prefix_def)
qed

lemma parse_playable_own:
  assumes "ucd_ok U" and "imdb_re U ext" and "58 \<notin> set p"
    and "length (dec_nat m) \<le> max_str_digits" and "length (dec_nat n) \<le> max_str_digits"
  shows "parse_playable_id U (imdb_re U) p (episode_wire_id p ext (int m) (int n)) = Inr (Some (ext, Some (int m)))"
    and "parse_playable_id U (imdb_re U) p (ext @ episode_tail m n) = Inr (Some (ext, Some (int m)))"
    and "parse_playable_id U (imdb_re U) p (p @ u '':'' @ ext @ movie_suffix) = Inr (Some (ext, None))"
proof -
  have ext: "58 \<notin> set ext" using imdb_chars(1) [OF assms(1)] assms(2) by (auto simp: imdb_re_def)
  note tail = parse_episode_tail_tail [OF assms(1,4,5)]
  have own: "remove_prefix (p @ u '':'') (p @ u '':'' @ ext) = ext"
    using remove_prefix_app [of "p @ u '':''" ext] by simp
  have movie: "is_movie_wire_id (p @ u '':'' @ ext @ movie_suffix)"
    "strip_movie_suffix (p @ u '':'' @ ext @ movie_suffix) = p @ u '':'' @ ext"
    using ends_with_app [of movie_suffix "p @ u '':'' @ ext"]
    by (simp_all add: is_movie_wire_id_def strip_movie_suffix_def)
  show "parse_playable_id U (imdb_re U) p (p @ u '':'' @ ext @ movie_suffix) = Inr (Some (ext, None))"
    using assms(2) by (simp add: parse_playable_id_def movie own)
  show "parse_playable_id U (imdb_re U) p (episode_wire_id p ext (int m) (int n)) = Inr (Some (ext, Some (int m)))"
    unfolding episode_wire_id_tail parse_playable_id_def split_imdb_episode(1) [OF assms(1,3,2)]
    using not_movie_tail [of "p @ u '':'' @ ext" m n] assms(2) ext by (simp add: own tail)
  show "parse_playable_id U (imdb_re U) p (ext @ episode_tail m n) = Inr (Some (ext, Some (int m)))"
    unfolding parse_playable_id_def split_imdb_episode(2) [OF assms(1,3,2)]
    using not_movie_tail [of ext m n] assms(2) ext by (simp add: remove_prefix_none tail)
qed

text \<open>C29: An episode id the builder writes for an IMDb external id parses back to that id and
  season, with and without its provider prefix, a movie id to the id alone, and the same episode id
  under another provider's prefix is refused.\<close>

theorem playable_id_roundtrip:
  assumes "ucd_ok U" and "imdb_re U ext" and "58 \<notin> set p" and "58 \<notin> set q" and "p \<noteq> q"
    and "length (dec_nat m) \<le> max_str_digits" and "length (dec_nat n) \<le> max_str_digits"
  shows "parse_playable_id U (imdb_re U) p (episode_wire_id p ext (int m) (int n)) = Inr (Some (ext, Some (int m)))
    \<and> parse_playable_id U (imdb_re U) p (ext @ episode_tail m n) = Inr (Some (ext, Some (int m)))
    \<and> parse_playable_id U (imdb_re U) p (p @ u '':'' @ ext @ movie_suffix) = Inr (Some (ext, None))
    \<and> parse_playable_id U (imdb_re U) p (episode_wire_id q ext (int m) (int n)) = Inr None"
proof -
  have foreign: "remove_prefix (p @ u '':'') (q @ u '':'' @ ext) = q @ u '':'' @ ext"
  proof -
    have "\<not> starts_with (p @ u '':'') (q @ u '':'' @ ext)"
    proof
      assume "starts_with (p @ u '':'') (q @ u '':'' @ ext)"
      then obtain t where "p @ 58 # t = q @ 58 # ext"
        by (auto simp: starts_with_iff u_def)
      then have "split_first 58 (p @ 58 # t) = split_first 58 (q @ 58 # ext)" by simp
      with assms(3-5) show False by (simp add: split_first_app)
    qed
    then show ?thesis by (simp add: remove_prefix_def)
  qed
  have "parse_playable_id U (imdb_re U) p (episode_wire_id q ext (int m) (int n)) = Inr None"
    unfolding episode_wire_id_tail parse_playable_id_def split_imdb_episode(1) [OF assms(1,4,2)]
    using not_movie_tail [of "q @ u '':'' @ ext" m n] by (simp add: foreign) (simp add: u_def)
  with parse_playable_own [OF assms(1-3,6,7)] show ?thesis by blast
qed

theorem playable_id_roundtrip_witness:
  "parse_playable_id ua_ucd (imdb_re ua_ucd) (u ''yts'') (episode_wire_id (u ''yts'') (u ''tt0903747'') 2 10)
     = Inr (Some (u ''tt0903747'', Some 2))"
proof -
  have "imdb_re ua_ucd (u ''tt0903747'')" by code_simp
  moreover have "58 \<notin> set (u ''yts'')" "58 \<notin> set (u ''ufdub'')" by (simp_all add: u_def)
  moreover have "length (dec_nat 2) \<le> max_str_digits" "length (dec_nat 10) \<le> max_str_digits"
    by code_simp+
  ultimately show ?thesis
    using playable_id_roundtrip [OF ua_ucd_ok, of "u ''tt0903747''" "u ''yts''" "u ''ufdub''" 2 10] by simp
qed

end
