(* ===== verification/Merge.thy ===== *)
theory Merge
  imports Union_Find Wire_Identity
begin

text \<open>
  The cross-provider merge core, \<^verbatim>\<open>backend/cs_uk_api/merge.py\<close>: listing items are joined when they share a
  title alias, a form and a compatible year, or a valid IMDb id; the classes become groups with a
  stateless key.  The code's state is the union-find of \<open>Union_Find\<close> and the dictionaries \<open>seen\<close>,
  \<open>imdb_seen\<close> and \<open>buckets\<close>, threaded here through the three loops.

  The specification is the relation \<open>same_title\<close>; \<open>merge_correct\<close> says that the groups are exactly the
  classes of its equivalence closure, each with its members in input order, in the order of their
  first members.
\<close>

section \<open>The code\<close>

definition item_year :: "ucd \<Rightarrow> search_result \<Rightarrow> int option" where
  "item_year U it = effective_year U (title it) (year it)"

definition years_match :: "int option \<Rightarrow> int option \<Rightarrow> bool" where
  "years_match a b \<longleftrightarrow> a = None \<or> b = None \<or> a = b"

type_synonym title_seen = "(ustr \<times> media_form, nat list) pdict"

definition look :: "('k, 'a list) pdict \<Rightarrow> 'k \<Rightarrow> 'a list" where
  "look d k = (case dget d k of Some xs \<Rightarrow> xs | None \<Rightarrow> [])"

text \<open>\<^verbatim>\<open>d.setdefault(k, []).append(x)\<close>.\<close>

definition dappend :: "'k \<Rightarrow> 'a \<Rightarrow> ('k, 'a list) pdict \<Rightarrow> ('k, 'a list) pdict" where
  "dappend k x d = dset k (look d k @ [x]) d"

text \<open>The body of the alias loop for one alias of item \<open>i\<close>.\<close>

definition link_alias ::
  "ucd \<Rightarrow> search_result list \<Rightarrow> title_seen \<times> uf_state option \<Rightarrow> nat \<times> ustr \<Rightarrow> title_seen \<times> uf_state option" where
  "link_alias U items s p =
     (let (seen, st) = s; (i, alias) = p; k = (alias, form (items ! i)) in
      (dappend k i seen,
       foldl (\<lambda>st j. if years_match (item_year U (items ! i)) (item_year U (items ! j))
                     then union_step st (i, j) else st) st (look seen k)))"

definition alias_pairs :: "ucd \<Rightarrow> search_result list \<Rightarrow> (nat \<times> ustr) list" where
  "alias_pairs U items =
     concat (map (\<lambda>i. map (Pair i) (title_aliases U (title (items ! i)))) [0..<length items])"

text \<open>The IMDb pass for item \<open>i\<close>.\<close>

definition link_imdb ::
  "ucd \<Rightarrow> search_result list \<Rightarrow> (ustr, nat) pdict \<times> uf_state option \<Rightarrow> nat \<Rightarrow> (ustr, nat) pdict \<times> uf_state option" where
  "link_imdb U items s i =
     (case valid_imdb U (items ! i) of
        None \<Rightarrow> s
      | Some t \<Rightarrow> (let (j, seen) = dsetdefault t i (fst s) in (seen, union_step (snd s) (i, j))))"

definition bucket_step ::
  "(nat list \<times> (nat, nat list) pdict) option \<Rightarrow> nat \<Rightarrow> (nat list \<times> (nat, nat list) pdict) option" where
  "bucket_step s i =
     (case s of None \<Rightarrow> None
      | Some (ps, buckets) \<Rightarrow>
          (case uf_find ps i of None \<Rightarrow> None
           | Some (ps', r) \<Rightarrow> Some (ps', dappend r i buckets)))"

text \<open>The key of a group: the smallest valid IMDb id of its members, else the smallest item key of
  the members with a known year, else of all of them.\<close>

definition merge_key :: "ucd \<Rightarrow> search_result list \<Rightarrow> ustr" where
  "merge_key U its =
     (let imdb_ids = sort (uniq (List.map_filter (valid_imdb U) its)) in
      if imdb_ids \<noteq> [] then
        (case group_key_from_imdb U (hd imdb_ids) of Inr k \<Rightarrow> k | Inl _ \<Rightarrow> [])
      else
        (let yearful = filter (\<lambda>it. item_year U it \<noteq> None) its;
             preferred = (if yearful \<noteq> [] then yearful else its)
         in min_list (map (item_group_key U) preferred)))"

definition group_of :: "ucd \<Rightarrow> search_result list \<Rightarrow> nat list \<Rightarrow> merge_group" where
  "group_of U items members =
     (let its = map ((!) items) members in \<lparr>mg_key = merge_key U its, sources = its\<rparr>)"

text \<open>The groups, and the pairs the code logs as merged.  \<open>None\<close> would be running out of fuel.\<close>

definition merge_run :: "ucd \<Rightarrow> search_result list \<Rightarrow> (nat list list \<times> (nat \<times> nat) list) option" where
  "merge_run U items =
     (let n = length items;
          st1 = snd (foldl (link_alias U items) ([], Some ([0..<n], [])) (alias_pairs U items));
          st2 = snd (foldl (link_imdb U items) ([], st1) [0..<n])
      in case st2 of None \<Rightarrow> None
         | Some (ps, lg) \<Rightarrow>
             (case foldl bucket_step (Some (ps, [])) [0..<n] of None \<Rightarrow> None
              | Some (ps', buckets) \<Rightarrow> Some (map snd buckets, lg)))"

definition merge_results :: "ucd \<Rightarrow> search_result list \<Rightarrow> (merge_group list \<times> (nat \<times> nat) list) option" where
  "merge_results U items =
     map_option (\<lambda>(bs, lg). (map (group_of U items) bs, lg)) (merge_run U items)"

text \<open>The groups alone; the empty list of the \<open>None\<close> branch is unreachable (\<open>merge_groups_run\<close>).\<close>

definition merge_groups :: "ucd \<Rightarrow> search_result list \<Rightarrow> merge_group list" where
  "merge_groups U items = (case merge_results U items of Some (gs, _) \<Rightarrow> gs | None \<Rightarrow> [])"

section \<open>The specification\<close>

definition same_title :: "ucd \<Rightarrow> search_result \<Rightarrow> search_result \<Rightarrow> bool" where
  "same_title U a b \<longleftrightarrow>
     (form a = form b \<and> years_match (item_year U a) (item_year U b) \<and>
      (\<exists>t \<in> set (title_aliases U (title a)). t \<in> set (title_aliases U (title b)))) \<or>
     (valid_imdb U a \<noteq> None \<and> valid_imdb U a = valid_imdb U b)"

definition matches :: "ucd \<Rightarrow> search_result list \<Rightarrow> (nat \<times> nat) set" where
  "matches U items =
     {(i, j). i < length items \<and> j < length items \<and> same_title U (items ! i) (items ! j)}"

section \<open>The alias pass\<close>

lemma years_match_sym: "years_match a b = years_match b a"
  by (auto simp: years_match_def)

lemma look_dappend: "look (dappend k x d) j = (if j = k then look d k @ [x] else look d j)"
  by (simp add: look_def dappend_def dget_dset)

lemma uf_good_conditional:
  assumes "uf_good n st E" and "E \<subseteq> {..<n} \<times> {..<n}" and "i < n" and "set js \<subseteq> {..<n}"
  shows "uf_good n (foldl (\<lambda>st j. if P j then union_step st (i, j) else st) st js)
    (E \<union> {(i, j) |j. j \<in> set js \<and> P j})"
proof -
  have "foldl (\<lambda>st j. if P j then union_step st (i, j) else st) st js =
      foldl union_step st (map (Pair i) (filter P js))"
    by (induction js arbitrary: st) auto
  moreover have "uf_good n (foldl union_step st (map (Pair i) (filter P js)))
      (E \<union> set (map (Pair i) (filter P js)))"
    by (rule uf_good_unions) (use assms in auto)
  moreover have "set (map (Pair i) (filter P js)) = {(i, j) |j. j \<in> set js \<and> P j}" by auto
  ultimately show ?thesis by simp
qed

text \<open>The pairs united after the alias pairs \<open>D\<close> have been processed.\<close>

definition alias_edge :: "ucd \<Rightarrow> search_result list \<Rightarrow> nat \<times> ustr \<Rightarrow> nat \<times> ustr \<Rightarrow> bool" where
  "alias_edge U items p q \<longleftrightarrow>
     snd p = snd q \<and> form (items ! fst p) = form (items ! fst q) \<and>
     years_match (item_year U (items ! fst p)) (item_year U (items ! fst q))"

definition alias_edges :: "ucd \<Rightarrow> search_result list \<Rightarrow> (nat \<times> ustr) list \<Rightarrow> (nat \<times> nat) set" where
  "alias_edges U items D =
     {(fst (D ! a), fst (D ! b)) |a b. b < a \<and> a < length D \<and> alias_edge U items (D ! a) (D ! b)}"

lemma alias_edges_snoc:
  "alias_edges U items (D @ [p]) =
   alias_edges U items D \<union> {(fst p, fst q) |q. q \<in> set D \<and> alias_edge U items p q}"
  (is "?L = ?A \<union> ?B")
proof
  show "?L \<subseteq> ?A \<union> ?B"
  proof
    fix e assume "e \<in> ?L"
    then obtain a b where ab: "b < a" "a < Suc (length D)"
      "e = (fst ((D @ [p]) ! a), fst ((D @ [p]) ! b))"
      "alias_edge U items ((D @ [p]) ! a) ((D @ [p]) ! b)"
      by (auto simp: alias_edges_def)
    show "e \<in> ?A \<union> ?B"
    proof (cases "a < length D")
      case True
      with ab have "e \<in> ?A" by (auto simp: alias_edges_def nth_append)
      then show ?thesis by simp
    next
      case False
      with ab have "a = length D" by simp
      with ab have "e = (fst p, fst (D ! b))" "D ! b \<in> set D" "alias_edge U items p (D ! b)"
        by (auto simp: nth_append)
      then show ?thesis by blast
    qed
  qed
  show "?A \<union> ?B \<subseteq> ?L"
  proof
    fix e assume "e \<in> ?A \<union> ?B"
    then consider "e \<in> ?A" | "e \<in> ?B" by blast
    then show "e \<in> ?L"
    proof cases
      case 1
      then obtain a b where "b < a" "a < length D" "e = (fst (D ! a), fst (D ! b))"
        "alias_edge U items (D ! a) (D ! b)" by (auto simp: alias_edges_def)
      then show ?thesis
        unfolding alias_edges_def by (intro CollectI exI [of _ a] exI [of _ b]) (simp add: nth_append)
    next
      case 2
      then obtain b where "b < length D" "e = (fst p, fst (D ! b))" "alias_edge U items p (D ! b)"
        by (auto simp: in_set_conv_nth)
      then show ?thesis
        unfolding alias_edges_def
        by (intro CollectI exI [of _ "length D"] exI [of _ b]) (simp add: nth_append)
    qed
  qed
qed

lemma alias_pass:
  assumes "\<forall>p \<in> set D. fst p < n"
  shows "case foldl (link_alias U items) ([], Some ([0..<n], [])) D of (seen, st) \<Rightarrow>
    (\<forall>k. look seen k = map fst (filter (\<lambda>q. (snd q, form (items ! fst q)) = k) D)) \<and>
    uf_good n st (alias_edges U items D) \<and> alias_edges U items D \<subseteq> {..<n} \<times> {..<n}"
  using assms
proof (induction D rule: rev_induct)
  case Nil
  show ?case by (simp add: uf_good_init alias_edges_def look_def)
next
  case (snoc p D)
  obtain seen st where f: "foldl (link_alias U items) ([], Some ([0..<n], [])) D = (seen, st)" by force
  have IH: "\<And>k. look seen k = map fst (filter (\<lambda>q. (snd q, form (items ! fst q)) = k) D)"
    "uf_good n st (alias_edges U items D)" "alias_edges U items D \<subseteq> {..<n} \<times> {..<n}"
    using snoc f by auto
  obtain i al where p: "p = (i, al)" by force
  let ?k = "(al, form (items ! i))"
  let ?P = "\<lambda>j. years_match (item_year U (items ! i)) (item_year U (items ! j))"
  have i: "i < n" and js: "set (look seen ?k) \<subseteq> {..<n}"
    using snoc.prems p by (auto simp: IH(1))
  have "{(i, j) |j. j \<in> set (look seen ?k) \<and> ?P j} = {(fst p, fst q) |q. q \<in> set D \<and> alias_edge U items p q}"
    unfolding IH(1) alias_edge_def by (force simp: p image_iff)
  with uf_good_conditional [OF IH(2,3) i js, of ?P]
  have good: "uf_good n (foldl (\<lambda>st j. if ?P j then union_step st (i, j) else st) st (look seen ?k))
      (alias_edges U items (D @ [p]))"
    by (simp only: alias_edges_snoc)
  have "alias_edges U items (D @ [p]) \<subseteq> {..<n} \<times> {..<n}"
    using IH(3) i snoc.prems p by (auto simp: alias_edges_snoc)
  moreover have "link_alias U items (seen, st) p =
      (dappend ?k i seen, foldl (\<lambda>st j. if ?P j then union_step st (i, j) else st) st (look seen ?k))"
    by (simp add: link_alias_def p Let_def)
  moreover have "\<forall>k. look (dappend ?k i seen) k =
      map fst (filter (\<lambda>q. (snd q, form (items ! fst q)) = k) (D @ [p]))"
    by (simp add: look_dappend IH(1) p)
  ultimately show ?case using good by (simp only: foldl_append foldl_Cons foldl_Nil f prod.case simp_thms)
qed

section \<open>The IMDb pass\<close>

lemma imdb_pass:
  assumes "uf_good n st E" and "E \<subseteq> {..<n} \<times> {..<n}" and "k \<le> n"
  shows "\<exists>seen st' F. foldl (link_imdb U items) ([], st) [0..<k] = (seen, st') \<and>
    uf_good n st' (E \<union> F) \<and> F \<subseteq> {..<n} \<times> {..<n} \<and>
    (\<forall>(i, j) \<in> F. valid_imdb U (items ! i) \<noteq> None \<and> valid_imdb U (items ! i) = valid_imdb U (items ! j)) \<and>
    (\<forall>i < k. \<forall>t. valid_imdb U (items ! i) = Some t \<longrightarrow> (\<exists>j. dget seen t = Some j \<and> (i, j) \<in> F)) \<and>
    (\<forall>t j. dget seen t = Some j \<longrightarrow> j < k \<and> valid_imdb U (items ! j) = Some t)"
  using assms(3)
proof (induction k)
  case 0
  show ?case using assms(1) by (intro exI [of _ "[]"] exI [of _ st] exI [of _ "{}"]) auto
next
  case (Suc k)
  then obtain seen st' F where
    f: "foldl (link_imdb U items) ([], st) [0..<k] = (seen, st')" and
    good: "uf_good n st' (E \<union> F)" and F: "F \<subseteq> {..<n} \<times> {..<n}" and
    sound: "\<forall>(i, j) \<in> F. valid_imdb U (items ! i) \<noteq> None \<and> valid_imdb U (items ! i) = valid_imdb U (items ! j)" and
    cover: "\<forall>i < k. \<forall>t. valid_imdb U (items ! i) = Some t \<longrightarrow> (\<exists>j. dget seen t = Some j \<and> (i, j) \<in> F)" and
    keys: "\<forall>t j. dget seen t = Some j \<longrightarrow> j < k \<and> valid_imdb U (items ! j) = Some t"
    by auto
  show ?case
  proof (cases "valid_imdb U (items ! k)")
    case None
    have "link_imdb U items (seen, st') k = (seen, st')" by (simp add: link_imdb_def None)
    moreover have "\<forall>i < Suc k. \<forall>t. valid_imdb U (items ! i) = Some t \<longrightarrow>
        (\<exists>j. dget seen t = Some j \<and> (i, j) \<in> F)"
      using cover None by (auto simp: less_Suc_eq)
    ultimately show ?thesis
      using f good F sound keys
      by (intro exI [of _ seen] exI [of _ st'] exI [of _ F]) (auto simp: less_Suc_eq)
  next
    case (Some t)
    obtain j seen' where d: "dsetdefault t k seen = (j, seen')" by force
    have j: "j \<le> k" "valid_imdb U (items ! j) = Some t" "dget seen' t = Some j"
      and old: "\<And>t' j'. dget seen t' = Some j' \<Longrightarrow> dget seen' t' = Some j'"
      and new: "\<And>t' j'. dget seen' t' = Some j' \<Longrightarrow> dget seen t' = Some j' \<or> (t' = t \<and> j' = k)"
      using d keys Some
      by (auto simp: dsetdefault_def map_add_def split: option.splits if_splits dest: less_imp_le)
    have "uf_good n (union_step st' (k, j)) (insert (k, j) (E \<union> F))"
      by (rule uf_good_union [OF good]) (use Suc.prems j(1) F assms(2) in auto)
    then have good': "uf_good n (union_step st' (k, j)) (E \<union> insert (k, j) F)" by simp
    have F': "insert (k, j) F \<subseteq> {..<n} \<times> {..<n}" using F j(1) Suc.prems by auto
    have sound': "\<forall>(i, j) \<in> insert (k, j) F. valid_imdb U (items ! i) \<noteq> None \<and>
        valid_imdb U (items ! i) = valid_imdb U (items ! j)"
      using sound Some j(2) by simp
    have cover': "\<forall>i < Suc k. \<forall>t. valid_imdb U (items ! i) = Some t \<longrightarrow>
        (\<exists>j'. dget seen' t = Some j' \<and> (i, j') \<in> insert (k, j) F)"
      using cover old j(3) Some by (fastforce simp: less_Suc_eq)
    have keys': "\<forall>t j. dget seen' t = Some j \<longrightarrow> j < Suc k \<and> valid_imdb U (items ! j) = Some t"
      using keys new Some by (fastforce simp: less_Suc_eq)
    have step: "foldl (link_imdb U items) ([], st) [0..<Suc k] = (seen', union_step st' (k, j))"
      by (simp add: f link_imdb_def Some d)
    show ?thesis
      by (intro exI [of _ seen'] exI [of _ "union_step st' (k, j)"] exI [of _ "insert (k, j) F"] conjI
          step good' F' sound' cover' keys')
  qed
qed

section \<open>The classes are those of the specification\<close>

lemma alias_pairs_set:
  "(i, t) \<in> set (alias_pairs U items) \<longleftrightarrow> i < length items \<and> t \<in> set (title_aliases U (title (items ! i)))"
  by (auto simp: alias_pairs_def)

lemma alias_edges_complete:
  assumes p: "p \<in> set D" and q: "q \<in> set D" and e: "alias_edge U items p q"
  shows "(fst p, fst q) \<in> conn (alias_edges U items D)"
proof -
  obtain a b where ab: "a < length D" "b < length D" "p = D ! a" "q = D ! b"
    using p q by (auto simp: in_set_conv_nth)
  have sym: "alias_edge U items q p" using e by (auto simp: alias_edge_def years_match_sym)
  consider "b < a" | "a < b" | "a = b" by linarith
  then show ?thesis
  proof cases
    case 1
    then have "(fst p, fst q) \<in> alias_edges U items D" using ab e by (auto simp: alias_edges_def)
    then show ?thesis by (rule conn_edge)
  next
    case 2
    then have "(fst q, fst p) \<in> alias_edges U items D" using ab sym by (auto simp: alias_edges_def)
    then show ?thesis by (rule conn_sym [OF conn_edge])
  next
    case 3
    then have "p = q" using ab(3,4) by (simp only:)
    then show ?thesis by simp
  qed
qed

lemma alias_edges_members:
  assumes "e \<in> alias_edges U items D"
  shows "\<exists>p \<in> set D. \<exists>q \<in> set D. e = (fst p, fst q) \<and> alias_edge U items p q"
proof -
  obtain a b where ab: "e = (fst (D ! a), fst (D ! b))" "b < a" "a < length D"
    "alias_edge U items (D ! a) (D ! b)"
    using assms unfolding alias_edges_def by blast
  then have "D ! a \<in> set D" "D ! b \<in> set D" by simp_all
  with ab show ?thesis by blast
qed

lemma alias_edges_sound: "alias_edges U items (alias_pairs U items) \<subseteq> matches U items"
proof
  fix e assume "e \<in> alias_edges U items (alias_pairs U items)"
  from alias_edges_members [OF this] obtain p q where e: "e = (fst p, fst q)" "alias_edge U items p q"
    and pq: "p \<in> set (alias_pairs U items)" "q \<in> set (alias_pairs U items)"
    by blast
  obtain i t where p: "p = (i, t)" by force
  obtain j t' where q: "q = (j, t')" by force
  from pq e(2) p q show "e \<in> matches U items"
    by (auto simp: e(1) alias_pairs_set alias_edge_def matches_def same_title_def)
qed

lemma classes_correct:
  "\<exists>ps lg R. snd (foldl (link_imdb U items)
        ([], snd (foldl (link_alias U items) ([], Some ([0..<length items], [])) (alias_pairs U items)))
        [0..<length items]) = Some (ps, lg) \<and>
     uf_inv (length items) ps R \<and> classes_of (length items) R (matches U items) \<and>
     set lg \<subseteq> matches U items \<and> length lg + card (R ` {..<length items}) = length items"
proof -
  let ?n = "length items" and ?D = "alias_pairs U items"
  let ?E = "alias_edges U items ?D"
  obtain seen st where a: "foldl (link_alias U items) ([], Some ([0..<?n], [])) ?D = (seen, st)" by force
  have "\<forall>p \<in> set ?D. fst p < ?n" by (auto simp: alias_pairs_def)
  from alias_pass [OF this, of items U] have good: "uf_good ?n st ?E" and E: "?E \<subseteq> {..<?n} \<times> {..<?n}"
    by (simp_all add: a)
  from imdb_pass [OF good E order_refl, of U items] obtain seen' st' F where
    f: "foldl (link_imdb U items) ([], st) [0..<?n] = (seen', st')" and
    good': "uf_good ?n st' (?E \<union> F)" and F: "F \<subseteq> {..<?n} \<times> {..<?n}" and
    sound: "\<forall>(i, j) \<in> F. valid_imdb U (items ! i) \<noteq> None \<and> valid_imdb U (items ! i) = valid_imdb U (items ! j)" and
    cover: "\<forall>i < ?n. \<forall>t. valid_imdb U (items ! i) = Some t \<longrightarrow> (\<exists>j. dget seen' t = Some j \<and> (i, j) \<in> F)"
    by blast
  have "F \<subseteq> matches U items"
  proof
    fix e assume e: "e \<in> F"
    obtain i j where ij: "e = (i, j)" by force
    then have "i < ?n" "j < ?n" using e F by auto
    moreover have "valid_imdb U (items ! i) \<noteq> None \<and> valid_imdb U (items ! i) = valid_imdb U (items ! j)"
      using sound e ij by auto
    ultimately show "e \<in> matches U items" by (auto simp: ij matches_def same_title_def)
  qed
  with alias_edges_sound have sub: "?E \<union> F \<subseteq> matches U items" by blast
  have "matches U items \<subseteq> conn (?E \<union> F)"
  proof
    fix e assume "e \<in> matches U items"
    then obtain i j where e: "e = (i, j)" "i < ?n" "j < ?n" "same_title U (items ! i) (items ! j)"
      by (auto simp: matches_def)
    from e(4) consider (al) t where "form (items ! i) = form (items ! j)"
        "years_match (item_year U (items ! i)) (item_year U (items ! j))"
        "t \<in> set (title_aliases U (title (items ! i)))" "t \<in> set (title_aliases U (title (items ! j)))"
      | (im) t where "valid_imdb U (items ! i) = Some t" "valid_imdb U (items ! j) = Some t"
      unfolding same_title_def by (metis not_None_eq)
    then show "e \<in> conn (?E \<union> F)"
    proof cases
      case al
      have "alias_edge U items (i, t) (j, t)" using al by (simp add: alias_edge_def)
      from alias_edges_complete [OF _ _ this, of ?D] have "(i, j) \<in> conn ?E"
        using al e by (simp add: alias_pairs_set)
      then show ?thesis using conn_mono [of ?E "?E \<union> F"] e by auto
    next
      case im
      obtain k where k: "dget seen' t = Some k" "(i, k) \<in> F" using cover e(2) im(1) by blast
      obtain k' where "dget seen' t = Some k'" "(j, k') \<in> F" using cover e(3) im(2) by blast
      with k have "(i, k) \<in> F" "(j, k) \<in> F" by simp_all
      then have "(i, k) \<in> conn (?E \<union> F)" "(j, k) \<in> conn (?E \<union> F)" by (auto intro: conn_edge)
      then show ?thesis unfolding e(1) by (rule conn_trans [OF _ conn_sym])
    qed
  qed
  then have "conn (matches U items) = conn (?E \<union> F)"
    using conn_least conn_mono [OF sub] by blast
  then have cl: "classes_of ?n R (?E \<union> F) = classes_of ?n R (matches U items)" for R
    by (simp add: classes_of_def)
  from good' obtain s R where "st' = Some s" "uf_inv ?n (fst s) R" "classes_of ?n R (matches U items)"
    "set (snd s) \<subseteq> matches U items" "length (snd s) + card (R ` {..<?n}) = ?n"
    using sub unfolding uf_good_def cl by blast
  then show ?thesis
    by (intro exI [of _ "fst s"] exI [of _ "snd s"] exI [of _ R]) (simp add: a f)
qed

section \<open>The buckets\<close>

lemma dset_tabulate:
  assumes "distinct ks"
  shows "dset k v (map (\<lambda>r. (r, f r)) ks) =
    map (\<lambda>r. (r, (f(k := v)) r)) (if k \<in> set ks then ks else ks @ [k])"
  using assms by (induction ks) (auto simp: fun_upd_def)

lemma look_tabulate: "look (map (\<lambda>r. (r, f r)) ks) k = (if k \<in> set ks then f k else [])"
  by (auto simp: look_def map_of_map_restrict restrict_map_def)

text \<open>Appending the next element to its bucket keeps the buckets those of a tabulated function.\<close>

lemma dappend_tabulate:
  assumes "distinct ks" and "set ks = R ` {..<k}"
  shows "dappend (R k) k (map (\<lambda>r. (r, filter (\<lambda>i. R i = r) [0..<k])) ks) =
    map (\<lambda>r. (r, filter (\<lambda>i. R i = r) [0..<Suc k])) (if R k \<in> set ks then ks else ks @ [R k])"
proof -
  have "filter (\<lambda>i. R i = R k) [0..<k] = []" if "R k \<notin> set ks"
    unfolding filter_empty_conv
  proof
    fix i assume "i \<in> set [0..<k]"
    then have "R i \<in> set ks" using assms(2) by simp
    with that show "R i \<noteq> R k" by metis
  qed
  then have "look (map (\<lambda>r. (r, filter (\<lambda>i. R i = r) [0..<k])) ks) (R k) = filter (\<lambda>i. R i = R k) [0..<k]"
    by (simp add: look_tabulate)
  then show ?thesis
    unfolding dappend_def dset_tabulate [OF assms(1)] by auto
qed

lemma bucket_pass:
  assumes "uf_inv n ps R" and "k \<le> n"
  shows "\<exists>ps' buckets. foldl bucket_step (Some (ps, [])) [0..<k] = Some (ps', buckets) \<and> uf_inv n ps' R \<and>
    buckets = map (\<lambda>r. (r, filter (\<lambda>i. R i = r) [0..<k])) (uniq (map R [0..<k]))"
  using assms(2)
proof (induction k)
  case 0
  show ?case using assms(1) by (simp add: uniq_def)
next
  case (Suc k)
  then obtain ps' where f: "foldl bucket_step (Some (ps, [])) [0..<k] =
      Some (ps', map (\<lambda>r. (r, filter (\<lambda>i. R i = r) [0..<k])) (uniq (map R [0..<k])))"
    and inv: "uf_inv n ps' R" by auto
  obtain ps'' where g: "uf_find ps' k = Some (ps'', R k)" "uf_inv n ps'' R"
    using uf_find_correct [OF inv, of k] Suc.prems by auto
  have "dappend (R k) k (map (\<lambda>r. (r, filter (\<lambda>i. R i = r) [0..<k])) (uniq (map R [0..<k]))) =
      map (\<lambda>r. (r, filter (\<lambda>i. R i = r) [0..<Suc k])) (uniq (map R [0..<Suc k]))"
    by (subst dappend_tabulate) (auto simp: uniq_snoc)
  moreover have "foldl bucket_step (Some (ps, [])) [0..<Suc k] =
      bucket_step (foldl bucket_step (Some (ps, [])) [0..<k]) k" by simp
  moreover have "bucket_step (Some (ps', B)) k = Some (ps'', dappend (R k) k B)" for B
    using g by (simp add: bucket_step_def)
  ultimately have "foldl bucket_step (Some (ps, [])) [0..<Suc k] =
      Some (ps'', map (\<lambda>r. (r, filter (\<lambda>i. R i = r) [0..<Suc k])) (uniq (map R [0..<Suc k])))"
    by (simp only: f)
  with g(2) show ?case by blast
qed

lemma first_seen_sorted:
  "sorted_wrt (\<lambda>r s. hd (filter (\<lambda>i. R i = r) [0..<k]) < hd (filter (\<lambda>i. R i = s) [0..<k]))
     (uniq (map R [0..<k]))"
proof (induction k)
  case 0
  show ?case by (simp add: uniq_def)
next
  case (Suc k)
  let ?F = "\<lambda>k r. filter (\<lambda>i. R i = r) [0..<k]"
  have ne: "?F k r \<noteq> []" if "r \<in> R ` {..<k}" for r
    using that by (auto simp: filter_empty_conv)
  have same: "hd (?F (Suc k) r) = hd (?F k r)" if "r \<in> R ` {..<k}" for r
    using ne [OF that] by simp
  have less: "hd (?F k r) < k" if "r \<in> R ` {..<k}" for r
    using hd_in_set [OF ne [OF that]] by auto
  have img: "set (uniq (map R [0..<k])) = R ` {..<k}" by auto
  have old: "sorted_wrt (\<lambda>r s. hd (?F (Suc k) r) < hd (?F (Suc k) s)) (uniq (map R [0..<k]))"
    by (rule sorted_wrt_mono_rel [OF _ Suc.IH]) (use same img in simp)
  have last: "hd (?F (Suc k) (R k)) = k" if "R k \<notin> R ` {..<k}"
  proof -
    have "?F k (R k) = []" unfolding filter_empty_conv
    proof
      fix i assume "i \<in> set [0..<k]"
      then have "R i \<in> R ` {..<k}" by simp
      with that show "R i \<noteq> R k" by metis
    qed
    then show ?thesis by simp
  qed
  have k: "map R [0..<Suc k] = map R [0..<k] @ [R k]" by simp
  show ?case
  proof (cases "R k \<in> R ` {..<k}")
    case True
    then have "uniq (map R [0..<Suc k]) = uniq (map R [0..<k])"
      unfolding k uniq_snoc by auto
    with old show ?thesis by simp
  next
    case False
    then have u: "uniq (map R [0..<Suc k]) = uniq (map R [0..<k]) @ [R k]"
      unfolding k uniq_snoc by auto
    have "hd (?F (Suc k) r) < hd (?F (Suc k) (R k))" if "r \<in> set (uniq (map R [0..<k]))" for r
      using that last [OF False] same less img by simp
    with old show ?thesis unfolding u sorted_wrt_append by simp
  qed
qed

text \<open>The member lists the code computes, against the specification.\<close>

definition good_partition :: "nat \<Rightarrow> (nat \<times> nat) set \<Rightarrow> nat list list \<Rightarrow> bool" where
  "good_partition n E bs \<longleftrightarrow>
     distinct (concat bs) \<and> set (concat bs) = {..<n} \<and>
     (\<forall>b \<in> set bs. b \<noteq> [] \<and> sorted_wrt (<) b) \<and> sorted_wrt (\<lambda>b c. hd b < hd c) bs \<and>
     (\<forall>i < n. \<forall>j < n. (\<exists>b \<in> set bs. i \<in> set b \<and> j \<in> set b) \<longleftrightarrow> (i, j) \<in> conn E)"

lemma good_partition_tabulate:
  assumes "classes_of n R E"
  shows "good_partition n E (map (\<lambda>r. filter (\<lambda>i. R i = r) [0..<n]) (uniq (map R [0..<n])))"
    (is "good_partition n E ?bs")
proof -
  have img: "set (uniq (map R [0..<n])) = R ` {..<n}" by auto
  have ne: "filter (\<lambda>i. R i = r) [0..<n] \<noteq> []" if "r \<in> R ` {..<n}" for r
    using that by (auto simp: filter_empty_conv)
  have "distinct (concat ?bs)"
  proof (rule distinct_concat)
    have "inj_on (\<lambda>r. filter (\<lambda>i. R i = r) [0..<n]) (R ` {..<n})"
    proof (rule inj_onI)
      fix r s assume r: "r \<in> R ` {..<n}" and e: "filter (\<lambda>i. R i = r) [0..<n] = filter (\<lambda>i. R i = s) [0..<n]"
      have "hd (filter (\<lambda>i. R i = r) [0..<n]) \<in> set (filter (\<lambda>i. R i = r) [0..<n])"
        using ne [OF r] by (rule hd_in_set)
      moreover have "hd (filter (\<lambda>i. R i = r) [0..<n]) \<in> set (filter (\<lambda>i. R i = s) [0..<n])"
        using calculation by (simp only: e)
      ultimately show "r = s" by simp
    qed
    then show "distinct ?bs" by (simp add: distinct_map atLeast0LessThan)
  qed auto
  moreover have "set (concat ?bs) = {..<n}" by auto
  moreover have "\<forall>b \<in> set ?bs. b \<noteq> [] \<and> sorted_wrt (<) b"
  proof
    fix b assume "b \<in> set ?bs"
    then obtain r where b: "b = filter (\<lambda>i. R i = r) [0..<n]" and r: "r \<in> R ` {..<n}" by auto
    have "sorted_wrt (<) b" unfolding b by (rule sorted_wrt_filter) simp
    with ne [OF r] show "b \<noteq> [] \<and> sorted_wrt (<) b" by (simp add: b)
  qed
  moreover have "sorted_wrt (\<lambda>b c. hd b < hd c) ?bs"
    using first_seen_sorted [of R n] by (simp add: sorted_wrt_map)
  moreover have "(\<exists>b \<in> set ?bs. i \<in> set b \<and> j \<in> set b) \<longleftrightarrow> (i, j) \<in> conn E" if "i < n" "j < n" for i j
  proof -
    have "(\<exists>b \<in> set ?bs. i \<in> set b \<and> j \<in> set b) \<longleftrightarrow> R i = R j" using that by auto
    with assms that show ?thesis by (simp add: classes_of_def)
  qed
  ultimately show ?thesis unfolding good_partition_def by blast
qed

lemma merge_run_correct:
  "\<exists>bs lg. merge_run U items = Some (bs, lg) \<and> good_partition (length items) (matches U items) bs \<and>
     set lg \<subseteq> matches U items \<and> length lg + length bs = length items"
proof -
  let ?n = "length items"
  obtain ps lg R where st: "snd (foldl (link_imdb U items)
        ([], snd (foldl (link_alias U items) ([], Some ([0..<?n], [])) (alias_pairs U items))) [0..<?n]) =
        Some (ps, lg)" and inv: "uf_inv ?n ps R" and cl: "classes_of ?n R (matches U items)"
    and lg: "set lg \<subseteq> matches U items" "length lg + card (R ` {..<?n}) = ?n"
    using classes_correct [of U items] by blast
  let ?bs = "map (\<lambda>r. filter (\<lambda>i. R i = r) [0..<?n]) (uniq (map R [0..<?n]))"
  obtain ps' where b: "foldl bucket_step (Some (ps, [])) [0..<?n] =
      Some (ps', map (\<lambda>r. (r, filter (\<lambda>i. R i = r) [0..<?n])) (uniq (map R [0..<?n])))"
    using bucket_pass [OF inv order_refl] by blast
  have "merge_run U items = Some (?bs, lg)"
    by (simp add: merge_run_def st b comp_def Let_def)
  moreover have "length ?bs = card (R ` {..<?n})"
  proof -
    have "length (uniq (map R [0..<?n])) = card (set (uniq (map R [0..<?n])))"
      by (rule distinct_card [symmetric]) simp
    then show ?thesis by (simp add: atLeast0LessThan)
  qed
  ultimately show ?thesis using good_partition_tabulate [OF cl] lg by auto
qed

text \<open>C1: Merging always returns; its groups partition the listing items into exactly the classes of
  the equivalence closure of \<open>same_title\<close>, members in input order and groups in the order of their
  first members, and the log holds one matching pair for every union, items minus groups in all.\<close>

theorem merge_correct:
  "\<exists>bs lg. merge_results U items = Some (map (group_of U items) bs, lg) \<and>
     good_partition (length items) (matches U items) bs \<and>
     set lg \<subseteq> matches U items \<and> length lg + length bs = length items"
  using merge_run_correct [of U items] by (auto simp: merge_results_def)

lemma merge_groups_run:
  "\<exists>bs. merge_groups U items = map (group_of U items) bs \<and>
     good_partition (length items) (matches U items) bs"
  using merge_run_correct [of U items] by (auto simp: merge_results_def merge_groups_def)

lemma merge_groups_sources:
  assumes "g \<in> set (merge_groups U items)"
  shows "sources g \<noteq> [] \<and> set (sources g) \<subseteq> set items"
proof -
  obtain bs where bs: "merge_groups U items = map (group_of U items) bs"
    "good_partition (length items) (matches U items) bs" using merge_groups_run by blast
  then obtain b where b: "b \<in> set bs" "g = group_of U items b" using assms by auto
  have "b \<noteq> []" using bs(2) b(1) by (simp add: good_partition_def)
  moreover have "set b \<subseteq> set (concat bs)" using b(1) by auto
  then have "set b \<subseteq> {..<length items}" using bs(2) by (simp add: good_partition_def)
  ultimately show ?thesis unfolding b(2) group_of_def by (auto simp: Let_def)
qed

lemma merge_groups_nonempty: "items \<noteq> [] \<Longrightarrow> merge_groups U items \<noteq> []"
proof -
  assume ne: "items \<noteq> []"
  obtain bs where bs: "merge_groups U items = map (group_of U items) bs"
    "good_partition (length items) (matches U items) bs" using merge_groups_run by blast
  then have "set (concat bs) = {..<length items}" by (simp add: good_partition_def)
  with ne have "bs \<noteq> []" by auto
  with bs(1) show ?thesis by simp
qed

section \<open>Group keys\<close>

lemma sort_uniq: "sort (uniq xs) = sorted_list_of_set (set xs)"
  by (rule sorted_distinct_set_unique) simp_all

lemma set_map_filter_valid: "set (List.map_filter f xs) = {y. \<exists>x \<in> set xs. f x = Some y}"
  by (induction xs) (auto simp: List.map_filter_simps split: option.splits)

text \<open>The text an item without a valid IMDb id is keyed on.\<close>

definition item_key_text :: "ucd \<Rightarrow> search_result \<Rightarrow> ustr" where
  "item_key_text U it =
     key_text (if title_aliases U (title it) \<noteq> [] then min_list (title_aliases U (title it))
               else u ''id:'' @ sr_id it) (form it) (item_year U it)"

lemma item_group_key_text:
  "valid_imdb U it = None \<Longrightarrow> item_group_key U it = group_key_prefix @ key_digest (item_key_text U it)"
  by (simp add: item_group_key_def group_key_from_def item_key_text_def group_key_def item_year_def Let_def)

lemma valid_imdb_shape: "valid_imdb U it = Some t \<Longrightarrow> imdb_id_re U t"
  by (auto simp: valid_imdb_def split: option.splits if_splits)

text \<open>The key of a group in terms of the set of its members alone.\<close>

lemma merge_key_imdb:
  assumes "it \<in> set its" and "valid_imdb U it = Some t"
  shows "merge_key U its = group_key_prefix_g3 @ Min {t. \<exists>it \<in> set its. valid_imdb U it = Some t}"
proof -
  let ?S = "{t. \<exists>it \<in> set its. valid_imdb U it = Some t}"
  have S: "set (List.map_filter (valid_imdb U) its) = ?S" by (rule set_map_filter_valid)
  have fin: "finite ?S" using finite_set [of "List.map_filter (valid_imdb U) its"] by (simp add: S)
  have ne: "?S \<noteq> {}" using assms by blast
  have l: "sort (uniq (List.map_filter (valid_imdb U) its)) = sorted_list_of_set ?S"
    by (simp add: sort_uniq S)
  have cons: "sorted_list_of_set ?S = Min ?S # sorted_list_of_set (?S - {Min ?S})"
    by (rule sorted_list_of_set_nonempty [OF fin ne])
  have "Min ?S \<in> ?S" by (rule Min_in [OF fin ne])
  then have "imdb_id_re U (Min ?S)" using valid_imdb_shape by blast
  then show ?thesis by (simp add: merge_key_def l cons group_key_from_imdb_def)
qed

lemma merge_key_plain:
  assumes "its \<noteq> []" and "\<forall>it \<in> set its. valid_imdb U it = None"
  shows "merge_key U its = Min (item_group_key U `
    (if \<exists>it \<in> set its. item_year U it \<noteq> None then {it \<in> set its. item_year U it \<noteq> None} else set its))"
proof -
  have "List.map_filter (valid_imdb U) its = []"
    using assms(2) by (induction its) (simp_all add: List.map_filter_simps)
  then have k: "merge_key U its = min_list (map (item_group_key U)
      (if filter (\<lambda>it. item_year U it \<noteq> None) its \<noteq> [] then filter (\<lambda>it. item_year U it \<noteq> None) its else its))"
    by (simp add: merge_key_def uniq_def Let_def)
  show ?thesis
  proof (cases "\<exists>it \<in> set its. item_year U it \<noteq> None")
    case True
    then have "filter (\<lambda>it. item_year U it \<noteq> None) its \<noteq> []" unfolding filter_empty_conv by blast
    then show ?thesis unfolding k using True by (simp add: min_list_Min del: not_None_eq)
  next
    case False
    then have "filter (\<lambda>it. item_year U it \<noteq> None) its = []" unfolding filter_empty_conv by blast
    then show ?thesis unfolding k using False assms(1) by (simp add: min_list_Min del: not_None_eq)
  qed
qed

lemma merge_key_member:
  assumes "its \<noteq> []"
  shows "merge_key U its \<in> item_group_key U ` set its"
proof (cases "\<forall>it \<in> set its. valid_imdb U it = None")
  case True
  let ?P = "if \<exists>it \<in> set its. item_year U it \<noteq> None then {it \<in> set its. item_year U it \<noteq> None} else set its"
  have "finite (item_group_key U ` ?P)" "item_group_key U ` ?P \<noteq> {}" using assms by auto
  then have "Min (item_group_key U ` ?P) \<in> item_group_key U ` ?P" by (rule Min_in)
  moreover have "?P \<subseteq> set its" by auto
  ultimately show ?thesis unfolding merge_key_plain [OF assms True] by blast
next
  case False
  then obtain it t where it: "it \<in> set its" "valid_imdb U it = Some t" by auto
  let ?S = "{t. \<exists>it \<in> set its. valid_imdb U it = Some t}"
  have "finite ?S" using finite_set [of "List.map_filter (valid_imdb U) its"] by (simp add: set_map_filter_valid)
  moreover have "?S \<noteq> {}" using it by blast
  ultimately have "Min ?S \<in> ?S" by (rule Min_in)
  then obtain m where "m \<in> set its" "valid_imdb U m = Some (Min ?S)" by blast
  then show ?thesis unfolding merge_key_imdb [OF it] using item_group_key_imdb by force
qed

lemma merge_key_set:
  assumes "set xs = set ys" and "xs \<noteq> []"
  shows "merge_key U xs = merge_key U ys"
proof (cases "\<forall>it \<in> set xs. valid_imdb U it = None")
  case True
  moreover have "ys \<noteq> []" using assms by auto
  ultimately show ?thesis using assms merge_key_plain [of xs U] merge_key_plain [of ys U] by simp
next
  case False
  then obtain it t where it: "it \<in> set xs" "valid_imdb U it = Some t" by auto
  then have "it \<in> set ys" using assms by simp
  from merge_key_imdb [OF it] merge_key_imdb [OF this it(2)] show ?thesis by (simp only: assms(1))
qed

text \<open>The key of every group is the item key of one of its sources, so a source recomputes it
  from its own listing data, and it depends on the set of the sources only.\<close>

theorem merge_key_recomputable:
  assumes "merge_results U items = Some (gs, lg)" and "g \<in> set gs"
  shows "mg_key g \<in> item_group_key U ` set (sources g) \<and>
    (\<forall>its. set its = set (sources g) \<longrightarrow> merge_key U its = mg_key g)"
proof -
  obtain bs where gs: "gs = map (group_of U items) bs" and p: "good_partition (length items) (matches U items) bs"
    using merge_run_correct [of U items] assms(1) by (auto simp: merge_results_def)
  then obtain b where b: "b \<in> set bs" "g = group_of U items b" using assms(2) by auto
  then have "sources g \<noteq> []" and k: "mg_key g = merge_key U (sources g)"
    using p by (auto simp: group_of_def good_partition_def Let_def)
  have "merge_key U its = mg_key g" if "set its = set (sources g)" for its
    unfolding k by (rule merge_key_set [OF that]) (use that \<open>sources g \<noteq> []\<close> in auto)
  moreover have "mg_key g \<in> item_group_key U ` set (sources g)"
    unfolding k by (rule merge_key_member [OF \<open>sources g \<noteq> []\<close>])
  ultimately show ?thesis by blast
qed

definition year_text :: "int option \<Rightarrow> ustr" where
  "year_text y = (case y of None \<Rightarrow> [] | Some i \<Rightarrow> if i = 0 then [] else dec_int i)"

lemma dec_nat_inj: "dec_nat m = dec_nat n \<Longrightarrow> m = n"
  using nat_of_dec_dec_nat [of m] by simp

lemma dec_nat_no: "c \<notin> {48..57} \<Longrightarrow> c \<notin> set (dec_nat n)"
  using dec_nat_digits [of c n] by (auto simp: ascii_digit_def)

lemma dec_nat_head: "dec_nat n \<noteq> 45 # xs"
  using dec_nat_no [of 45 n] by auto

lemma dec_int_inj: "dec_int i = dec_int j \<Longrightarrow> i = j"
  by (auto simp: dec_int_def dec_nat_head dec_nat_head [symmetric] split: if_splits dest!: dec_nat_inj)

lemma year_text_match: "year_text a = year_text b \<Longrightarrow> years_match a b"
  by (auto simp: year_text_def years_match_def dec_int_def split: option.splits if_splits
      dest: dec_int_inj dec_nat_inj
      simp: dec_nat_head dec_nat_head [symmetric] dec_nat_nonempty [symmetric])

lemma no_bar_year: "124 \<notin> set (year_text y)"
  using dec_nat_no [of 124] by (auto simp: year_text_def dec_int_def split: option.splits)

lemma no_bar_form: "124 \<notin> set (form_text f)"
  by (cases f) (simp_all add: form_text_def u_def)

lemma form_text_inj: "form_text f = form_text g \<Longrightarrow> f = g"
  by (cases f; cases g) (simp_all add: form_text_def)

lemma key_text_inj:
  assumes "key_text a f y = key_text b g z"
  shows "a = b \<and> f = g \<and> year_text y = year_text z"
proof -
  have e: "key_text c h x = (c @ 124 # form_text h) @ 124 # year_text x" for c h x
    by (simp add: key_text_def year_text_def u_def)
  have "split_last 124 (key_text c h x) = Some (c @ 124 # form_text h, year_text x)" for c h x
    unfolding e by (rule split_last_app) (rule no_bar_year)
  then have 1: "a @ 124 # form_text f = b @ 124 # form_text g" "year_text y = year_text z"
    using assms by (metis option.inject prod.inject)+
  have "split_last 124 (c @ 124 # form_text h) = Some (c, form_text h)" for c h
    by (rule split_last_app) (rule no_bar_form)
  then have "a = b \<and> form_text f = form_text g" using 1(1) by (metis option.inject prod.inject)
  with 1(2) form_text_inj show ?thesis by blast
qed

lemma min_alias: "title_aliases U t \<noteq> [] \<Longrightarrow> min_list (title_aliases U t) \<in> set (title_aliases U t)"
  by (simp add: min_list_Min)

lemma item_key_text_match:
  assumes ok: "ucd_ok U" and eq: "item_key_text U a = item_key_text U b"
    and ids: "title_aliases U (title a) = [] \<Longrightarrow> title_aliases U (title b) = [] \<Longrightarrow> sr_id a \<noteq> sr_id b"
  shows "same_title U a b"
proof -
  let ?k = "\<lambda>it. if title_aliases U (title it) \<noteq> [] then min_list (title_aliases U (title it)) else u ''id:'' @ sr_id it"
  from key_text_inj [OF eq [unfolded item_key_text_def]]
  have k: "?k a = ?k b" "form a = form b" "years_match (item_year U a) (item_year U b)"
    using year_text_match by blast+
  have no: "min_list (title_aliases U t) \<noteq> u ''id:'' @ i" if "title_aliases U t \<noteq> []" for t i
  proof
    assume "min_list (title_aliases U t) = u ''id:'' @ i"
    with alias_no_separator [OF ok min_alias [OF that], of 58] show False by (simp add: u_def)
  qed
  have "title_aliases U (title a) \<noteq> []" "title_aliases U (title b) \<noteq> []"
    using k(1) ids no no [symmetric] by (auto split: if_splits)
  with k min_alias show ?thesis unfolding same_title_def by (metis (full_types))
qed

text \<open>C13: Different groups have different keys, when the truncated digest separates the key texts of
  the items at hand and no two items without any alias share an id.\<close>

theorem merge_keys_distinct:
  assumes ok: "ucd_ok U" and run: "merge_results U items = Some (gs, lg)"
    and inj: "inj_on key_digest {item_key_text U it |it. it \<in> set items \<and> valid_imdb U it = None}"
    and ids: "inj_on (\<lambda>i. sr_id (items ! i)) {i. i < length items \<and> title_aliases U (title (items ! i)) = []}"
  shows "distinct (map mg_key gs)"
proof -
  let ?n = "length items"
  obtain bs where gs: "gs = map (group_of U items) bs" and p: "good_partition ?n (matches U items) bs"
    using merge_run_correct [of U items] run by (auto simp: merge_results_def)
  have key: "\<exists>i \<in> set b. mg_key (group_of U items b) = item_group_key U (items ! i)" if "b \<in> set bs" for b
    using merge_key_member [of "map ((!) items) b" U] that p by (auto simp: group_of_def good_partition_def Let_def)
  have sep: "same_title U (items ! i) (items ! j)"
    if ij: "i < ?n" "j < ?n" "i \<noteq> j" and eq: "item_group_key U (items ! i) = item_group_key U (items ! j)" for i j
  proof (cases "valid_imdb U (items ! i)")
    case None
    then have "valid_imdb U (items ! j) = None"
      using eq item_group_key_imdb [of U "items ! j"] item_group_key_text [OF None]
      by (cases "valid_imdb U (items ! j)") (simp_all add: group_key_prefix_def group_key_prefix_g3_def u_def)
    note eq [unfolded item_group_key_text [OF None] item_group_key_text [OF this]]
    then have "key_digest (item_key_text U (items ! i)) = key_digest (item_key_text U (items ! j))" by simp
    then have "item_key_text U (items ! i) = item_key_text U (items ! j)"
      using inj_onD [OF inj] None \<open>valid_imdb U (items ! j) = None\<close> ij nth_mem by blast
    then show ?thesis
      by (rule item_key_text_match [OF ok]) (use inj_onD [OF ids] ij in blast)
  next
    case (Some t)
    then obtain t' where t': "valid_imdb U (items ! j) = Some t'"
      using eq item_group_key_imdb [OF Some] item_group_key_text [of U "items ! j"]
      by (cases "valid_imdb U (items ! j)") (simp_all add: group_key_prefix_def group_key_prefix_g3_def u_def)
    with eq Some have "t = t'" by (simp add: item_group_key_imdb)
    with Some t' show ?thesis by (simp add: same_title_def)
  qed
  have disj: "\<And>b c. b \<in> set bs \<Longrightarrow> c \<in> set bs \<Longrightarrow> b \<noteq> c \<Longrightarrow> set b \<inter> set c = {}"
    and "distinct (filter (\<lambda>b. b \<noteq> []) bs)"
    using p by (auto simp: good_partition_def distinct_concat_iff removeAll_filter_not_eq eq_commute)
  moreover have "filter (\<lambda>b. b \<noteq> []) bs = bs" using p by (simp add: good_partition_def)
  ultimately have dist: "distinct bs" by simp
  have "inj_on (\<lambda>b. mg_key (group_of U items b)) (set bs)"
  proof (rule inj_onI, rule ccontr)
    fix b c assume bc: "b \<in> set bs" "c \<in> set bs" "b \<noteq> c"
      and eq: "mg_key (group_of U items b) = mg_key (group_of U items c)"
    obtain i j where i: "i \<in> set b" "j \<in> set c" "item_group_key U (items ! i) = item_group_key U (items ! j)"
      using key bc eq by metis
    have ij: "i < ?n" "j < ?n" "i \<noteq> j"
      using i bc p disj [OF bc] by (auto simp: good_partition_def)
    then have "(i, j) \<in> matches U items" using sep i(3) by (simp add: matches_def)
    then have "(i, j) \<in> conn (matches U items)" by (rule conn_edge)
    then have "\<exists>d \<in> set bs. i \<in> set d \<and> j \<in> set d"
      using p ij(1,2) unfolding good_partition_def by blast
    then obtain d where "d \<in> set bs" "i \<in> set d" "j \<in> set d" by blast
    then show False using disj bc i(1,2) by blast
  qed
  with dist show ?thesis by (simp add: gs distinct_map comp_def)
qed

section \<open>Samples\<close>

definition sample_item :: "string \<Rightarrow> media_form \<Rightarrow> string \<Rightarrow> int option \<Rightarrow> ustr option \<Rightarrow> search_result" where
  "sample_item i f t y im =
     \<lparr>sr_id = u i, provider = u ''p'', form = f, title = u t, year = y, poster = None, url = [],
      styles = {}, genres = [], imdb_id = im\<rparr>"

definition sample_items :: "search_result list" where
  "sample_items =
     [sample_item ''a:1'' Movie ''Dune'' (Some 2021) (Some (u ''tt1160419'')),
      sample_item ''b:1'' Movie ''Dune: Part One'' None (Some (u ''tt1160419'')),
      sample_item ''c:1'' Series ''Dune'' (Some 2000) None]"

theorem merge_correct_witness:
  "\<exists>bs lg. merge_results ua_ucd sample_items = Some (map (group_of ua_ucd sample_items) bs, lg) \<and>
     good_partition (length sample_items) (matches ua_ucd sample_items) bs \<and>
     set lg \<subseteq> matches ua_ucd sample_items \<and> length lg + length bs = length sample_items"
  by (rule merge_correct)

lemma sample_run: "merge_run ua_ucd sample_items = Some ([[0, 1], [2]], [(1, 0)])"
  by code_simp

lemma sample_valid: "map (valid_imdb ua_ucd) sample_items = [Some (u ''tt1160419''), Some (u ''tt1160419''), None]"
  by code_simp

lemma sample_aliases: "map (\<lambda>it. title_aliases ua_ucd (title it) = []) sample_items = [False, False, False]"
  by code_simp

theorem merge_key_recomputable_witness:
  "\<exists>gs lg g. merge_results ua_ucd sample_items = Some (gs, lg) \<and> g \<in> set gs \<and>
     mg_key g \<in> item_group_key ua_ucd ` set (sources g)"
proof -
  let ?gs = "map (group_of ua_ucd sample_items) [[0, 1], [2]]"
  have run: "merge_results ua_ucd sample_items = Some (?gs, [(1, 0)])"
    by (simp add: merge_results_def sample_run)
  have g: "group_of ua_ucd sample_items [2] \<in> set ?gs" by simp
  from merge_key_recomputable [OF run g] run g show ?thesis by blast
qed

theorem merge_keys_distinct_witness:
  "mg_key (group_of ua_ucd sample_items [0, 1]) \<noteq> mg_key (group_of ua_ucd sample_items [2])"
proof -
  have run: "merge_results ua_ucd sample_items = Some (map (group_of ua_ucd sample_items) [[0, 1], [2]], [(1, 0)])"
    by (simp add: merge_results_def sample_run)
  have "inj_on key_digest {item_key_text ua_ucd it |it. it \<in> set sample_items \<and> valid_imdb ua_ucd it = None}"
  proof (rule inj_on_subset [of _ "{item_key_text ua_ucd (sample_items ! 2)}"])
    show "{item_key_text ua_ucd it |it. it \<in> set sample_items \<and> valid_imdb ua_ucd it = None}
        \<subseteq> {item_key_text ua_ucd (sample_items ! 2)}"
      using sample_valid by (auto simp: sample_items_def)
  qed simp
  moreover have none: "{i. i < length sample_items \<and> title_aliases ua_ucd (title (sample_items ! i)) = []} = {}"
  proof -
    have "\<not> (title_aliases ua_ucd (title (sample_items ! i)) = [])" if "i < length sample_items" for i
      using arg_cong [OF sample_aliases, of "\<lambda>xs. xs ! i"] that
      by (auto simp: sample_items_def less_Suc_eq nth_Cons')
    then show ?thesis by auto
  qed
  ultimately have "distinct (map mg_key (map (group_of ua_ucd sample_items) [[0, 1], [2]]))"
    by (intro merge_keys_distinct [OF ua_ucd_ok run]) (simp_all only: none inj_on_empty)
  then show ?thesis by simp
qed

text \<open>A listing without a year joins two listings of the same title and different years into one
  group, although the years of those two do not match.\<close>

theorem yearless_item_bridges_years:
  "merge_run ua_ucd
     [sample_item ''a:1'' Movie ''Dune'' (Some 2021) None,
      sample_item ''b:1'' Movie ''Dune'' (Some 1984) None,
      sample_item ''c:1'' Movie ''Dune'' None None] = Some ([[0, 1, 2]], [(2, 0), (2, 1)]) \<and>
   \<not> same_title ua_ucd (sample_item ''a:1'' Movie ''Dune'' (Some 2021) None)
        (sample_item ''b:1'' Movie ''Dune'' (Some 1984) None)"
proof
  show "merge_run ua_ucd
     [sample_item ''a:1'' Movie ''Dune'' (Some 2021) None,
      sample_item ''b:1'' Movie ''Dune'' (Some 1984) None,
      sample_item ''c:1'' Movie ''Dune'' None None] = Some ([[0, 1, 2]], [(2, 0), (2, 1)])"
    by code_simp
  show "\<not> same_title ua_ucd (sample_item ''a:1'' Movie ''Dune'' (Some 2021) None)
        (sample_item ''b:1'' Movie ''Dune'' (Some 1984) None)"
    by (simp add: same_title_def sample_item_def item_year_def effective_year_def years_match_def
        valid_imdb_def)
qed

end
