(* ===== verification/Row_Kinds.thy ===== *)
theory Row_Kinds
  imports Wire_Identity
begin

text \<open>
  The table of home-row kinds, \<^verbatim>\<open>backend/cs_uk_api/row_kinds.py\<close>, and the catalog filters,
  \<^verbatim>\<open>backend/cs_uk_api/filters.py\<close>.  Labels are spelled by their code points.  A \<^verbatim>\<open>KeyError\<close> and an
  \<^verbatim>\<open>HTTPException(400)\<close> are values of the error types below.
\<close>

section \<open>Row kinds\<close>

datatype form_filter = Filter_form | Filter_any
datatype sources_selector = By_newest | By_popular | By_type | By_history | By_idea

record row_kind =
  rk_kind :: ustr
  rk_title :: ustr
  rk_filter :: form_filter
  rk_form :: "media_form option"
  rk_sources :: sources_selector
  rk_jf_type :: ustr
  rk_collection_type :: ustr
  rk_extendable :: bool

definition row_entry ::
  "string \<Rightarrow> ustr \<Rightarrow> form_filter \<Rightarrow> media_form option \<Rightarrow> sources_selector \<Rightarrow> string \<Rightarrow> string \<Rightarrow> bool \<Rightarrow> row_kind" where
  "row_entry k t f m s j c e =
     \<lparr>rk_kind = u k, rk_title = t, rk_filter = f, rk_form = m, rk_sources = s, rk_jf_type = u j,
      rk_collection_type = u c, rk_extendable = e\<rparr>"

definition title_recent_movie :: ustr where
  "title_recent_movie = [1053, 1077, 1097, 1086, 1076, 1072, 1074, 1085, 1086, 32, 1076, 1086, 1076, 1072, 1085, 1110, 58, 32, 1060, 1110, 1083, 1100, 1084, 1080]"

definition title_recent_series :: ustr where
  "title_recent_series = [1053, 1077, 1097, 1086, 1076, 1072, 1074, 1085, 1086, 32, 1076, 1086, 1076, 1072, 1085, 1110, 58, 32, 1057, 1077, 1088, 1110, 1072, 1083, 1080]"

definition title_new_episodes :: ustr where
  "title_new_episodes = [1053, 1086, 1074, 1110, 32, 1089, 1077, 1088, 1110, 1111]"

definition title_recently_watched :: ustr where
  "title_recently_watched = [1053, 1077, 1097, 1086, 1076, 1072, 1074, 1085, 1086, 32, 1087, 1077, 1088, 1077, 1075, 1083, 1103, 1085, 1091, 1090, 1086]"

definition title_popular :: ustr where
  "title_popular = [1055, 1086, 1087, 1091, 1083, 1103, 1088, 1085, 1110, 32, 1079, 1072, 1088, 1072, 1079]"

definition title_movie :: ustr where
  "title_movie = [1060, 1110, 1083, 1100, 1084, 1080]"

definition title_series :: ustr where
  "title_series = [1057, 1077, 1088, 1110, 1072, 1083, 1080]"

definition title_anime :: ustr where
  "title_anime = [1040, 1085, 1110, 1084, 1077]"

definition title_cartoon :: ustr where
  "title_cartoon = [1052, 1091, 1083, 1100, 1090, 1092, 1110, 1083, 1100, 1084, 1080]"

definition title_dorama :: ustr where
  "title_dorama = [1044, 1086, 1088, 1072, 1084, 1080]"

definition title_llm_idea_1 :: ustr where
  "title_llm_idea_1 = [1030, 1076, 1077, 1103]"

definition title_llm_idea_2 :: ustr where
  "title_llm_idea_2 = [1030, 1076, 1077, 1103]"

definition row_kinds :: "(ustr, row_kind) pdict" where
  "row_kinds =
  [(u ''recent_movie'', row_entry ''recent_movie'' title_recent_movie Filter_form (Some Movie) By_newest ''Movie'' ''movies'' True),
   (u ''recent_series'', row_entry ''recent_series'' title_recent_series Filter_form (Some Series) By_newest ''Series'' ''tvshows'' True),
   (u ''new_episodes'', row_entry ''new_episodes'' title_new_episodes Filter_form (Some Series) By_newest ''Series'' ''tvshows'' False),
   (u ''recently_watched'', row_entry ''recently_watched'' title_recently_watched Filter_any None By_history ''Series'' ''tvshows'' False),
   (u ''popular'', row_entry ''popular'' title_popular Filter_any None By_popular ''Series'' ''tvshows'' True),
   (u ''movie'', row_entry ''movie'' title_movie Filter_form (Some Movie) By_type ''Movie'' ''movies'' True),
   (u ''series'', row_entry ''series'' title_series Filter_form (Some Series) By_type ''Series'' ''tvshows'' True),
   (u ''anime'', row_entry ''anime'' title_anime Filter_any None By_type ''Series'' ''tvshows'' True),
   (u ''cartoon'', row_entry ''cartoon'' title_cartoon Filter_any None By_type ''Series'' ''tvshows'' True),
   (u ''dorama'', row_entry ''dorama'' title_dorama Filter_any None By_type ''Series'' ''tvshows'' True),
   (u ''llm_idea_1'', row_entry ''llm_idea_1'' title_llm_idea_1 Filter_any None By_idea ''Series'' ''tvshows'' False),
   (u ''llm_idea_2'', row_entry ''llm_idea_2'' title_llm_idea_2 Filter_any None By_idea ''Series'' ''tvshows'' False)]"

text \<open>
  \<^verbatim>\<open>view_id\<close>: \<^verbatim>\<open>uuid5(NAMESPACE_URL, ...)\<close> is the SHA-1 of the namespace's bytes and the name, cut to
  sixteen bytes, with the version and the variant written into bytes 6 and 8.
\<close>

definition namespace_url :: "nat list" where
  "namespace_url = [107, 167, 184, 17, 157, 173, 17, 209, 128, 180, 0, 192, 79, 212, 48, 200]"

fun hex_value :: "nat \<Rightarrow> nat" where
  "hex_value c = (if c < 58 then c - 48 else c - 87)"

definition set_uuid5_bits :: "ustr \<Rightarrow> ustr" where
  "set_uuid5_bits h = h[12 := 53, 16 := hex_digit (8 + hex_value (h ! 16) mod 4)]"

definition view_id :: "ustr \<Rightarrow> ustr" where
  "view_id kind =
     set_uuid5_bits (take 32 (sha1_hex (namespace_url @ utf8 (u ''cs-uk-api-view:'' @ kind))))"

definition view_type_by_id :: "(ustr, ustr) pdict" where
  "view_type_by_id = foldl (\<lambda>d rk. dset (view_id (rk_kind rk)) (rk_kind rk) d) [] (map snd row_kinds)"

definition kinds_by_jf_type :: "ustr \<Rightarrow> ustr set option" where
  "kinds_by_jf_type t =
     (if t \<in> rk_jf_type ` snd ` set row_kinds
      then Some (rk_kind ` set (filter (\<lambda>rk. rk_jf_type rk = t) (map snd row_kinds)))
      else None)"

definition type_kinds :: "ustr list" where
  "type_kinds = map rk_kind (filter (\<lambda>rk. rk_sources rk = By_type) (map snd row_kinds))"

datatype key_error = Key_error

definition item_matches_row :: "ustr \<Rightarrow> search_result \<Rightarrow> key_error + bool" where
  "item_matches_row kind item =
     (case dget row_kinds kind of
        None \<Rightarrow> Inl Key_error
      | Some entry \<Rightarrow>
          Inr (if rk_filter entry = Filter_form then Some (form item) = rk_form entry else True))"

lemma type_kinds_eval: "type_kinds = map u [''movie'', ''series'', ''anime'', ''cartoon'', ''dorama'']"
  by (simp add: type_kinds_def row_kinds_def row_entry_def)

lemma dkeys_row_kinds:
  "dkeys row_kinds = map u [''recent_movie'', ''recent_series'', ''new_episodes'', ''recently_watched'',
     ''popular'', ''movie'', ''series'', ''anime'', ''cartoon'', ''dorama'', ''llm_idea_1'', ''llm_idea_2'']"
  by (simp add: row_kinds_def)

lemma dwf_row_kinds: "dwf row_kinds"
  by (simp add: dwf_def dkeys_row_kinds)

text \<open>The row-kind table is consistent: keys are distinct and are the kinds of their entries,
  exactly the form-filtered rows carry a form, a form-filtered row has the wire types of its form, and
  no history or idea row can be extended.\<close>

theorem row_kinds_consistent:
  "dwf row_kinds \<and>
   list_all (\<lambda>(k, rk). rk_kind rk = k \<and>
     (rk_filter rk = Filter_form) = (rk_form rk \<noteq> None) \<and>
     rk_jf_type rk = (if rk_form rk = Some Movie then u ''Movie'' else u ''Series'') \<and>
     rk_collection_type rk = (if rk_form rk = Some Movie then u ''movies'' else u ''tvshows'') \<and>
     (if rk_sources rk \<in> {By_history, By_idea} then \<not> rk_extendable rk else True)) row_kinds"
  by (simp add: dwf_row_kinds, simp add: row_kinds_def row_entry_def)

section \<open>Filters\<close>

record browse_section =
  sec_id :: ustr
  sec_title :: ustr
  sec_form :: "media_form option"
  sec_styles :: "media_style set option"

definition section_matches :: "search_result \<Rightarrow> browse_section \<Rightarrow> bool" where
  "section_matches item s =
     (if sec_form s \<noteq> None \<and> Some (form item) \<noteq> sec_form s then False
      else case sec_styles s of
        None \<Rightarrow> True
      | Some st \<Rightarrow> if st = {} then styles item = {} else styles item \<inter> st \<noteq> {})"

datatype filter_error = Invalid_style "ustr list" | Invalid_form ustr

text \<open>A token of the closed vocabularies; the code keeps the text, which is the value's.\<close>

definition style_of_token :: "ustr \<Rightarrow> media_style option" where
  "style_of_token t =
     (if t = u ''anime'' then Some Anime else if t = u ''cartoon'' then Some Cartoon
      else if t = u ''dorama'' then Some Dorama else None)"

definition form_of_token :: "ustr \<Rightarrow> media_form option" where
  "form_of_token t =
     (if t = u ''movie'' then Some Movie else if t = u ''series'' then Some Series else None)"

text \<open>\<^verbatim>\<open>raw.split(c)\<close>.\<close>

fun split_on :: "nat \<Rightarrow> ustr \<Rightarrow> ustr list" where
  "split_on c [] = [[]]"
| "split_on c (x # xs) =
     (if x = c then [] # split_on c xs
      else (case split_on c xs of [] \<Rightarrow> [[x]] | p # ps \<Rightarrow> (x # p) # ps))"

definition parse_style_filter :: "ucd \<Rightarrow> ustr option \<Rightarrow> filter_error + media_style set option" where
  "parse_style_filter U raw =
     (case raw of None \<Rightarrow> Inr None
      | Some r \<Rightarrow>
          (let parts = filter (\<lambda>p. p \<noteq> []) (map (strip U) (split_on 44 r)) in
           if parts = [] then Inr None
           else
             (let invalid = filter (\<lambda>p. style_of_token p = None) parts in
              if invalid \<noteq> [] then Inl (Invalid_style invalid)
              else Inr (Some (set (List.map_filter style_of_token parts))))))"

definition parse_form_filter :: "ucd \<Rightarrow> ustr option \<Rightarrow> filter_error + media_form option" where
  "parse_form_filter U raw =
     (case raw of None \<Rightarrow> Inr None
      | Some r \<Rightarrow>
          (if strip U r = [] then Inr None
           else case form_of_token (strip U r) of
             None \<Rightarrow> Inl (Invalid_form (strip U r))
           | Some f \<Rightarrow> Inr (Some f)))"

text \<open>\<^verbatim>\<open>style_key\<close>: \<^verbatim>\<open>sorted\<close> of a set of styles.\<close>

definition sorted_styles :: "media_style set \<Rightarrow> media_style list" where
  "sorted_styles st = sort (filter (\<lambda>s. s \<in> st) [Anime, Cartoon, Dorama])"

definition style_key :: "media_style set option \<Rightarrow> ustr" where
  "style_key sf =
     (case sf of None \<Rightarrow> [] | Some st \<Rightarrow> join (u '','') (map style_text (sorted_styles st)))"

definition matches_axes :: "search_result \<Rightarrow> media_form option \<Rightarrow> media_style set option \<Rightarrow> bool" where
  "matches_axes item f sf \<longleftrightarrow>
     (f = None \<or> Some (form item) = f) \<and> (case sf of None \<Rightarrow> True | Some st \<Rightarrow> styles item \<inter> st \<noteq> {})"

text \<open>An explicit empty style set is the one case where a browse section and a search differ.\<close>

lemma section_matches_axes:
  "section_matches item s =
     (if sec_styles s = Some {} then (sec_form s = None \<or> Some (form item) = sec_form s) \<and> styles item = {}
      else matches_axes item (sec_form s) (sec_styles s))"
  by (cases "sec_styles s") (auto simp: section_matches_def matches_axes_def)

lemma style_of_style_text [simp]: "style_of_token (style_text s) = Some s"
  by (cases s) (simp_all add: style_of_token_def style_text_def)

lemma set_sorted_styles [simp]: "set (sorted_styles st) = st"
  by (auto simp: sorted_styles_def) (metis media_style.exhaust)+

lemma strip_no_space: "\<forall>c \<in> set s. \<not> space U c \<Longrightarrow> strip U s = s"
proof -
  have d: "dropWhile P t = t" if "\<forall>c \<in> set t. \<not> P c" for P and t :: ustr
    using that by (cases t) auto
  assume "\<forall>c \<in> set s. \<not> space U c"
  then show ?thesis by (simp add: strip_def d)
qed

lemma split_on_none: "c \<notin> set p \<Longrightarrow> split_on c p = [p]"
  by (induction p) auto

lemma split_on_app: "c \<notin> set p \<Longrightarrow> split_on c (p @ c # s) = p # split_on c s"
  by (induction p) auto

lemma split_on_join: "\<forall>p \<in> set ps. c \<notin> set p \<Longrightarrow> ps \<noteq> [] \<Longrightarrow> split_on c (join [c] ps) = ps"
proof (induction ps)
  case (Cons p ps)
  then show ?case by (cases ps) (simp_all add: split_on_none split_on_app)
qed simp

lemma style_text_letters: "c \<in> set (style_text s) \<Longrightarrow> 97 \<le> c \<and> c \<le> 122"
  by (cases s) (auto simp: style_text_def u_def)

lemma style_text_nonempty: "style_text s \<noteq> []"
  by (cases s) (simp_all add: style_text_def u_def)

text \<open>The cache-key fragment of a style filter determines it: parsing the fragment gives the
  filter back, and the empty fragment is the absent filter.\<close>

theorem style_key_roundtrip:
  assumes "\<And>c. 97 \<le> c \<Longrightarrow> c \<le> 122 \<Longrightarrow> \<not> space U c"
  shows "parse_style_filter U (Some (style_key (Some st))) = Inr (if st = {} then None else Some st)"
proof -
  let ?ps = "map style_text (sorted_styles st)"
  have no: "\<forall>p \<in> set ?ps. 44 \<notin> set p" using style_text_letters by fastforce
  have strip: "map (strip U) ?ps = ?ps"
    using assms style_text_letters by (auto intro!: map_idI strip_no_space)
  have keep: "filter (\<lambda>p. p \<noteq> []) ?ps = ?ps" by (simp add: style_text_nonempty comp_def)
  have valid: "filter (\<lambda>p. style_of_token p = None) ?ps = []" by (simp add: filter_empty_conv)
  have styles_back: "List.map_filter style_of_token ?ps = sorted_styles st"
    by (induction "sorted_styles st" arbitrary: st) (simp_all add: List.map_filter_def comp_def)
  show ?thesis
  proof (cases "st = {}")
    case True
    have "sorted_styles {} = []" by (simp add: sorted_styles_def)
    with True show ?thesis by (simp add: parse_style_filter_def style_key_def strip_def)
  next
    case False
    then have ne: "?ps \<noteq> []" by (metis empty_set list.map_disc_iff set_sorted_styles)
    have "split_on 44 (style_key (Some st)) = ?ps"
      using split_on_join [OF no ne] by (simp add: style_key_def u_def)
    with False ne show ?thesis
      by (simp add: parse_style_filter_def strip keep valid styles_back del: set_map map_map)
  qed
qed

theorem style_key_roundtrip_witness:
  "parse_style_filter ua_ucd (Some (style_key (Some {Dorama, Anime}))) = Inr (Some {Dorama, Anime})"
proof -
  have "\<not> space ua_ucd c" if "97 \<le> c" "c \<le> 122" for c
    using that by (simp add: ua_ucd_def in_ranges_def)
  from style_key_roundtrip [OF this] show ?thesis by simp
qed

end
