(* ===== verification/Home.thy ===== *)
theory Home
  imports Merge Row_Kinds
begin

text \<open>
  The cross-provider home aggregation, \<^verbatim>\<open>backend/cs_uk_api/home.py\<close>: the round-robin walk over the
  providers' listings, the projection of merged groups to home items, the second-pass fold by group
  key, the row builder and the genre rails.  A \<^verbatim>\<open>Mapping\<close> is an insertion-ordered dictionary.

  The walk is compared with \<open>interleave\<close>, which reads the listings column by column; the rows with the
  row-kind table.
\<close>

section \<open>The round-robin walk\<close>

type_synonym listings = "(ustr, search_result list) pdict"

definition walk_budget_multiplier :: int where "walk_budget_multiplier = 4"

text \<open>One turn of the \<^verbatim>\<open>for\<close> loop over the providers.  Every provider has a cursor.\<close>

definition cursor_at :: "(ustr, nat) pdict \<Rightarrow> ustr \<Rightarrow> nat" where
  "cursor_at cur p = (case dget cur p of Some c \<Rightarrow> c | None \<Rightarrow> 0)"

fun walk_round ::
  "nat \<Rightarrow> listings \<Rightarrow> search_result list \<Rightarrow> (ustr, nat) pdict \<Rightarrow> bool \<Rightarrow>
   search_result list \<times> (ustr, nat) pdict \<times> bool" where
  "walk_round budget [] col cur prog = (col, cur, prog)"
| "walk_round budget ((p, l) # ps) col cur prog =
     (let c = cursor_at cur p in
      if c \<ge> length l then walk_round budget ps col cur prog
      else
        (let col' = col @ [l ! c]; cur' = dset p (c + 1) cur in
         if length col' \<ge> budget then (col', cur', True) else walk_round budget ps col' cur' True))"

lemma walk_round_grows:
  "walk_round budget ps col cur prog = (col', cur', prog') \<Longrightarrow>
   length col \<le> length col' \<and> (prog' \<and> \<not> prog \<longrightarrow> length col < length col')"
  by (induction budget ps col cur prog arbitrary: col' cur' prog' rule: walk_round.induct)
    (fastforce simp: Let_def split: if_splits)+

text \<open>The \<^verbatim>\<open>while\<close> loop.\<close>

function walk_loop :: "nat \<Rightarrow> listings \<Rightarrow> search_result list \<Rightarrow> (ustr, nat) pdict \<Rightarrow> search_result list" where
  "walk_loop budget by_provider col cur =
     (if length col < budget then
        (case walk_round budget by_provider col cur False of
           (col', cur', prog) \<Rightarrow> if prog then walk_loop budget by_provider col' cur' else col')
      else col)"
  by pat_completeness auto
termination
  by (relation "measure (\<lambda>(budget, by_provider, col, cur). budget - length col)")
    (auto dest!: walk_round_grows [OF sym])

declare walk_loop.simps [simp del]

definition walk_budget :: "int \<Rightarrow> nat" where
  "walk_budget limit = nat (max (limit * walk_budget_multiplier) 0)"

definition collect :: "listings \<Rightarrow> int \<Rightarrow> search_result list" where
  "collect by_provider limit =
     walk_loop (walk_budget limit) by_provider [] (map (\<lambda>(p, _). (p, 0)) by_provider)"

section \<open>Home items\<close>

record home_item =
  hi_group_key :: ustr
  hi_title :: ustr
  hi_year :: "int option"
  hi_poster :: "ustr option"
  hi_form :: media_form
  hi_styles :: "media_style set"
  hi_genres :: "ustr list"
  hi_providers :: "ustr list"
  hi_member_keys :: "ustr list"

text \<open>The projection of a merged group; a merged group has a source.\<close>

definition home_item_of :: "ucd \<Rightarrow> merge_group \<Rightarrow> home_item" where
  "home_item_of U mg =
     (let sample = hd (sources mg) in
      \<lparr>hi_group_key = mg_key mg, hi_title = title sample, hi_year = year sample,
       hi_poster = poster sample, hi_form = form sample, hi_styles = styles sample,
       hi_genres = genres sample, hi_providers = uniq (map provider (sources mg)),
       hi_member_keys = uniq (map (item_group_key U) (sources mg))\<rparr>)"

definition round_robin_dedup :: "ucd \<Rightarrow> listings \<Rightarrow> int \<Rightarrow> home_item list" where
  "round_robin_dedup U by_provider limit =
     take (nat limit) (map (home_item_of U) (merge_groups U (collect by_provider limit)))"

text \<open>\<^verbatim>\<open>aggregate_by_group_key\<close>: the dictionary and the order list.\<close>

definition add_providers :: "ustr list \<Rightarrow> home_item \<Rightarrow> home_item" where
  "add_providers ps it =
     it\<lparr>hi_providers := foldl (\<lambda>acc p. if p \<notin> set acc then acc @ [p] else acc) (hi_providers it) ps\<rparr>"

definition aggregate_step ::
  "(ustr, home_item) pdict \<times> ustr list \<Rightarrow> home_item \<Rightarrow> (ustr, home_item) pdict \<times> ustr list" where
  "aggregate_step s it =
     (case dget (fst s) (hi_group_key it) of
        None \<Rightarrow> (dset (hi_group_key it) it (fst s), snd s @ [hi_group_key it])
      | Some e \<Rightarrow> (dset (hi_group_key it) (add_providers (hi_providers it) e) (fst s), snd s))"

definition aggregate_by_group_key :: "home_item list \<Rightarrow> home_item list" where
  "aggregate_by_group_key its =
     (let (by_key, order) = foldl aggregate_step ([], []) its
      in List.map_filter (dget by_key) order)"

definition section_row_type :: "browse_section \<Rightarrow> ustr option" where
  "section_row_type s =
     (case sec_styles s of
        Some st \<Rightarrow>
          (case sorted_styles st of
             x # _ \<Rightarrow> Some (style_text x)
           | [] \<Rightarrow> map_option form_text (sec_form s))
      | None \<Rightarrow> map_option form_text (sec_form s))"

section \<open>The row builder\<close>

record home_row =
  hr_title :: ustr
  hr_type :: ustr
  hr_items :: "home_item list"

definition recent_rows :: "(media_form \<times> ustr \<times> ustr) list" where
  "recent_rows = [(Movie, title_recent_movie, u ''recent_movie''), (Series, title_recent_series, u ''recent_series'')]"

text \<open>The comprehensions that filter every provider's listings.\<close>

definition filter_listings :: "(search_result \<Rightarrow> bool) \<Rightarrow> listings \<Rightarrow> listings" where
  "filter_listings P by_provider = map (\<lambda>(p, l). (p, filter P l)) by_provider"

text \<open>\<^verbatim>\<open>item_matches_row\<close> at the kinds of the table, where it cannot raise (\<open>admits_known\<close>).\<close>

definition admits :: "ustr \<Rightarrow> search_result \<Rightarrow> bool" where
  "admits kind it \<longleftrightarrow> item_matches_row kind it = Inr True"

fun top_up :: "int \<Rightarrow> home_item list \<Rightarrow> ustr set \<Rightarrow> home_item list \<Rightarrow> home_item list" where
  "top_up limit row existing [] = row"
| "top_up limit row existing (it # rest) =
     (if hi_group_key it \<in> existing then top_up limit row existing rest
      else
        (let row' = row @ [it] in
         if int (length row') \<ge> limit then row'
         else top_up limit row' (insert (hi_group_key it) existing) rest))"

type_synonym typed_listings = "(ustr, listings) pdict"

definition row_unless_empty :: "ustr \<Rightarrow> ustr \<Rightarrow> home_item list \<Rightarrow> home_row list" where
  "row_unless_empty t ty its =
     (if its = [] then [] else [\<lparr>hr_title = t, hr_type = ty, hr_items = aggregate_by_group_key its\<rparr>])"

definition recent_row ::
  "ucd \<Rightarrow> listings \<Rightarrow> typed_listings \<Rightarrow> int \<Rightarrow> media_form \<times> ustr \<times> ustr \<Rightarrow> home_row list" where
  "recent_row U newest by_type limit =
     (\<lambda>(f, label, ty).
        let row = round_robin_dedup U (filter_listings (\<lambda>it. form it = f) newest) limit;
            row' = (if int (length row) < limit then
                      (let section = (case dget by_type (form_text f) of Some s \<Rightarrow> s | None \<Rightarrow> []);
                           extra = round_robin_dedup U (filter_listings (admits (form_text f)) section) limit
                       in top_up limit row (hi_group_key ` set row) extra)
                    else row)
        in row_unless_empty label ty row')"

definition new_episodes_row :: "ucd \<Rightarrow> listings \<Rightarrow> int \<Rightarrow> ustr set option \<Rightarrow> home_row list" where
  "new_episodes_row U newest limit watched =
     (case watched of
        None \<Rightarrow> []
      | Some w \<Rightarrow>
          row_unless_empty title_new_episodes (u ''new_episodes'')
            (round_robin_dedup U
               (filter_listings (\<lambda>it. form it = Series \<and> item_group_key U it \<in> w) newest) limit))"

definition known_items :: "ucd \<Rightarrow> search_result list \<Rightarrow> (ustr, search_result) pdict" where
  "known_items U its = foldl (\<lambda>d it. snd (dsetdefault (item_group_key U it) it d)) [] its"

definition history_item :: "ucd \<Rightarrow> search_result \<Rightarrow> home_item" where
  "history_item U it =
     \<lparr>hi_group_key = item_group_key U it, hi_title = title it, hi_year = year it, hi_poster = poster it,
      hi_form = form it, hi_styles = styles it, hi_genres = genres it, hi_providers = [provider it],
      hi_member_keys = [item_group_key U it]\<rparr>"

text \<open>\<^verbatim>\<open>xs[:limit]\<close>, where a negative bound cuts from the end.\<close>

definition py_take :: "int \<Rightarrow> 'a list \<Rightarrow> 'a list" where
  "py_take limit xs = (if 0 \<le> limit then take (nat limit) xs else take (length xs - nat (- limit)) xs)"

definition recently_watched_row ::
  "ucd \<Rightarrow> listings \<Rightarrow> typed_listings \<Rightarrow> int \<Rightarrow> ustr list option \<Rightarrow> home_row list" where
  "recently_watched_row U newest by_type limit history =
     (case history of
        None \<Rightarrow> []
      | Some groups \<Rightarrow>
          (let all_listings = map snd newest @ concat (map (\<lambda>(_, per_type). map snd per_type) by_type);
               known = known_items U (concat all_listings);
               picked = py_take limit (List.map_filter (dget known) groups)
           in row_unless_empty title_recently_watched (u ''recently_watched'') (map (history_item U) picked)))"

definition any_listing :: "listings \<Rightarrow> bool" where
  "any_listing by_provider = list_ex (\<lambda>(_, l). l \<noteq> []) by_provider"

definition popular_row :: "ucd \<Rightarrow> listings \<Rightarrow> int \<Rightarrow> home_row list" where
  "popular_row U popular limit =
     (if any_listing popular then
        [\<lparr>hr_title = title_popular, hr_type = u ''popular'',
          hr_items = aggregate_by_group_key (round_robin_dedup U popular limit)\<rparr>]
      else [])"

definition row_title :: "ustr \<Rightarrow> ustr" where
  "row_title kind = (case dget row_kinds kind of Some rk \<Rightarrow> rk_title rk | None \<Rightarrow> [])"

definition type_row :: "ucd \<Rightarrow> typed_listings \<Rightarrow> int \<Rightarrow> ustr \<Rightarrow> home_row list" where
  "type_row U by_type limit kind =
     (let per_pid = (case dget by_type kind of Some s \<Rightarrow> s | None \<Rightarrow> []) in
      if \<not> any_listing per_pid then []
      else row_unless_empty (row_title kind) kind
             (round_robin_dedup U (filter_listings (admits kind) per_pid) limit))"

definition build_home_rows ::
  "ucd \<Rightarrow> listings \<Rightarrow> listings \<Rightarrow> typed_listings \<Rightarrow> int \<Rightarrow> ustr set option \<Rightarrow> ustr list option \<Rightarrow>
   ustr set \<Rightarrow> home_row list" where
  "build_home_rows U newest popular by_type limit watched history excluded =
     filter (\<lambda>row. hr_type row \<notin> excluded)
       (concat (map (recent_row U newest by_type limit) recent_rows) @
        new_episodes_row U newest limit watched @
        recently_watched_row U newest by_type limit history @
        popular_row U popular limit @
        concat (map (type_row U by_type limit) type_kinds))"

section \<open>Genre rails\<close>

text \<open>\<^verbatim>\<open>str.isalnum\<close> of a character: a word character other than the underscore.\<close>

definition alnum :: "ucd \<Rightarrow> nat \<Rightarrow> bool" where
  "alnum U c \<longleftrightarrow> word_char U c \<and> c \<noteq> 95"

definition genre_slug :: "ucd \<Rightarrow> ustr \<Rightarrow> ustr" where
  "genre_slug U genre =
     (let out = map (\<lambda>c. if alnum U c then c else 45) (lower U (strip U genre))
      in join (u ''-'') (filter (\<lambda>part. part \<noteq> []) (split_on 45 out)))"

text \<open>The genres of a group's profile, as a list without repetition; \<open>None\<close> is a group without one.\<close>

type_synonym genre_profiles = "ustr \<Rightarrow> ustr list option"

definition count_genres ::
  "ucd \<Rightarrow> genre_profiles \<Rightarrow> (ustr, nat) pdict \<times> (ustr, ustr) pdict \<Rightarrow> home_item \<Rightarrow>
   (ustr, nat) pdict \<times> (ustr, ustr) pdict" where
  "count_genres U profiles s it =
     (case profiles (hi_group_key it) of
        None \<Rightarrow> s
      | Some gs \<Rightarrow>
          (let s1 = foldl (\<lambda>(cov, lab) g.
                      (dset g ((case dget cov g of Some n \<Rightarrow> n | None \<Rightarrow> 0) + 1) cov,
                       snd (dsetdefault g g lab))) s gs
           in foldl (\<lambda>(cov, lab) raw.
                (let norm = lower U (strip U raw) in
                 if norm \<noteq> [] \<and> norm \<in> fst ` set cov then (cov, dset norm (strip U raw) lab)
                 else (cov, lab))) s1 (hi_genres it)))"

fun genre_members ::
  "nat \<Rightarrow> genre_profiles \<Rightarrow> (ustr, home_item) pdict \<Rightarrow> ustr \<Rightarrow> ustr set \<Rightarrow> home_item list \<Rightarrow> home_item list \<Rightarrow>
   home_item list" where
  "genre_members limit profiles by_key g seen members [] = members"
| "genre_members limit profiles by_key g seen members (it # rest) =
     (if length members \<ge> limit then members
      else case profiles (hi_group_key it) of
        None \<Rightarrow> genre_members limit profiles by_key g seen members rest
      | Some gs \<Rightarrow>
          if g \<notin> set gs \<or> hi_group_key it \<in> seen
          then genre_members limit profiles by_key g seen members rest
          else genre_members limit profiles by_key g (insert (hi_group_key it) seen)
                 (members @ (case dget by_key (hi_group_key it) of Some m \<Rightarrow> [m] | None \<Rightarrow> [])) rest)"

text \<open>\<^verbatim>\<open>sorted(coverage.items(), key=lambda kv: (-kv[1], kv[0]))\<close>.\<close>

definition rank_genres :: "(ustr, nat) pdict \<Rightarrow> (ustr \<times> nat) list" where
  "rank_genres cov = sort_key (\<lambda>gn. - int (snd gn)) (sort_key fst cov)"

definition build_genre_rows ::
  "ucd \<Rightarrow> home_item list \<Rightarrow> genre_profiles \<Rightarrow> nat \<Rightarrow> nat \<Rightarrow> nat \<Rightarrow> home_row list" where
  "build_genre_rows U its profiles top_n min_items limit =
     (let by_key = foldl (\<lambda>d it. dset (hi_group_key it) it d) [] its;
          (cov, lab) = foldl (count_genres U profiles) ([], []) its;
          top = take top_n (rank_genres cov)
      in map (\<lambda>(g, n).
           \<lparr>hr_title = (case dget lab g of Some t \<Rightarrow> t | None \<Rightarrow> g),
            hr_type = u ''genre:'' @ genre_slug U g,
            hr_items = genre_members limit profiles by_key g {} [] its\<rparr>)
           (filter (\<lambda>(g, n). n \<ge> min_items) top))"

section \<open>The walk reads the listings column by column\<close>

definition column :: "nat \<Rightarrow> search_result list list \<Rightarrow> search_result list" where
  "column k ls = map (\<lambda>l. l ! k) (filter (\<lambda>l. k < length l) ls)"

definition columns :: "nat \<Rightarrow> search_result list list \<Rightarrow> search_result list" where
  "columns n ls = concat (map (\<lambda>k. column k ls) [0..<n])"

definition longest :: "search_result list list \<Rightarrow> nat" where
  "longest ls = foldr (\<lambda>l n. max (length l) n) ls 0"

definition interleave :: "search_result list list \<Rightarrow> search_result list" where
  "interleave ls = columns (longest ls) ls"

lemma longest_less: "k < longest ls \<longleftrightarrow> (\<exists>l \<in> set ls. k < length l)"
  by (induction ls) (auto simp: longest_def less_max_iff_disj)

lemma column_Nil: "column k ls = [] \<longleftrightarrow> longest ls \<le> k"
  using longest_less [of k ls] by (auto simp: column_def filter_empty_conv not_less [symmetric])

lemma columns_Suc: "columns (Suc n) ls = columns n ls @ column n ls"
  by (simp add: columns_def)

lemma columns_le: "m \<le> n \<Longrightarrow> \<exists>r. columns n ls = columns m ls @ r"
  by (induction n) (auto simp: columns_Suc le_Suc_eq)

definition cursors_at :: "nat \<Rightarrow> listings \<Rightarrow> (ustr, nat) pdict \<Rightarrow> bool" where
  "cursors_at k ps cur \<longleftrightarrow> (\<forall>(p, l) \<in> set ps. cursor_at cur p = min k (length l))"

lemma cursor_at_dset: "cursor_at (dset p c cur) q = (if q = p then c else cursor_at cur q)"
  by (simp add: cursor_at_def dget_dset)

lemma walk_round_column:
  assumes "cursors_at k ps cur" and "dwf ps" and "length col < budget"
  shows "case walk_round budget ps col cur prog of (col', cur', prog') \<Rightarrow>
    col' = take budget (col @ column k (map snd ps)) \<and> prog' = (prog \<or> column k (map snd ps) \<noteq> []) \<and>
    (length (col @ column k (map snd ps)) < budget \<longrightarrow>
      cursors_at (Suc k) ps cur' \<and> (\<forall>q. q \<notin> fst ` set ps \<longrightarrow> cursor_at cur' q = cursor_at cur q))"
  using assms
proof (induction ps arbitrary: col cur prog)
  case Nil
  then show ?case by (simp add: column_def cursors_at_def)
next
  case (Cons pl ps)
  obtain p l where pl: "pl = (p, l)" by force
  have cur: "cursor_at cur p = min k (length l)" and rest: "cursors_at k ps cur"
    and wf: "dwf ps" and fresh: "p \<notin> fst ` set ps"
    using Cons.prems by (auto simp: pl cursors_at_def dwf_def)
  show ?case
  proof (cases "k < length l")
    case False
    then have col: "column k (map snd (pl # ps)) = column k (map snd ps)" by (simp add: column_def pl)
    have "walk_round budget (pl # ps) col cur prog = walk_round budget ps col cur prog"
      using False cur by (simp add: pl)
    with Cons.IH [OF rest wf Cons.prems(3), of prog] fresh cur False show ?thesis
      unfolding col by (auto simp: pl cursors_at_def split: prod.splits)
  next
    case True
    let ?cur = "dset p (Suc k) cur"
    have col: "column k (map snd (pl # ps)) = l ! k # column k (map snd ps)"
      using True by (simp add: column_def pl)
    have rest': "cursors_at k ps ?cur" using rest fresh by (force simp: cursors_at_def cursor_at_dset)
    show ?thesis
    proof (cases "Suc (length col) \<ge> budget")
      case full: True
      then have "budget = Suc (length col)" using Cons.prems(3) by simp
      with True cur show ?thesis by (simp add: pl column_def Let_def)
    next
      case False
      then have step: "walk_round budget (pl # ps) col cur prog = walk_round budget ps (col @ [l ! k]) ?cur True"
        using True cur by (simp add: pl Let_def)
      have "length (col @ [l ! k]) < budget" using False by simp
      from Cons.IH [OF rest' wf this, of True] fresh True show ?thesis
        unfolding step col by (auto simp: pl cursors_at_def cursor_at_dset split: prod.splits)
    qed
  qed
qed

lemma walk_loop_columns:
  assumes "cursors_at k ps cur" and "dwf ps" and "k \<le> longest (map snd ps)"
    and "col = columns k (map snd ps)" and "length col < budget"
  shows "walk_loop budget ps col cur = take budget (interleave (map snd ps))"
  using assms
proof (induction "longest (map snd ps) - k" arbitrary: k col cur)
  case 0
  then have k: "k = longest (map snd ps)" by simp
  then have e: "column k (map snd ps) = []" by (simp add: column_Nil)
  obtain col' cur' prog where r: "walk_round budget ps col cur False = (col', cur', prog)"
    by (cases "walk_round budget ps col cur False") auto
  have "col' = col" "\<not> prog"
    using walk_round_column [OF 0(2,3) 0(6), of False] e 0(6) by (auto simp: r)
  then have "walk_loop budget ps col cur = col" using 0(6) by (subst walk_loop.simps) (simp add: r)
  then show ?case using 0(5,6) k by (simp add: interleave_def)
next
  case (Suc n)
  then have lt: "k < longest (map snd ps)" by simp
  let ?col = "columns (Suc k) (map snd ps)"
  obtain col' cur' prog where r: "walk_round budget ps col cur False = (col', cur', prog)"
    by (cases "walk_round budget ps col cur False") auto
  note R = walk_round_column [OF Suc(3,4) Suc(7), of False, unfolded r prod.case]
  have p: prog using R lt by (simp add: column_Nil)
  have c: "col' = take budget ?col" using R Suc(6) by (simp add: columns_Suc)
  have step: "walk_loop budget ps col cur = walk_loop budget ps col' cur'"
    using Suc(7) p by (subst walk_loop.simps) (simp add: r)
  show ?case
  proof (cases "length ?col < budget")
    case True
    then have "cursors_at (Suc k) ps cur'" using R Suc(6) by (simp add: columns_Suc)
    moreover have "col' = ?col" using c True by simp
    ultimately show ?thesis
      unfolding step using Suc(1) [of "Suc k" cur' col'] Suc(2,4) lt True by simp
  next
    case False
    obtain t where "interleave (map snd ps) = ?col @ t"
      using columns_le [of "Suc k" "longest (map snd ps)" "map snd ps"] lt by (auto simp: interleave_def)
    with False have "take budget (interleave (map snd ps)) = col'" by (simp add: c)
    moreover have "\<not> length col' < budget" using False c by simp
    then have "walk_loop budget ps col' cur' = col'" by (subst walk_loop.simps) simp
    ultimately show ?thesis by (simp add: step)
  qed
qed

lemma collect_columns:
  assumes "dwf by_provider"
  shows "collect by_provider limit = take (walk_budget limit) (interleave (map snd by_provider))"
proof (cases "walk_budget limit = 0")
  case True
  then show ?thesis unfolding collect_def by (subst walk_loop.simps) simp
next
  case False
  have "cursor_at (map (\<lambda>(p, _). (p, 0)) by_provider) q = 0" for q
    by (induction by_provider) (auto simp: cursor_at_def split: option.splits)
  then have "cursors_at 0 by_provider (map (\<lambda>(p, _). (p, 0)) by_provider)"
    by (auto simp: cursors_at_def)
  from walk_loop_columns [OF this assms] False show ?thesis
    by (simp add: collect_def columns_def)
qed

text \<open>The round-robin walk collects the first items of the column-by-column reading of the
  providers' listings, four per place of the row: the first item of every provider, then the second
  ones, and so on, providers in their order.\<close>

theorem collect_interleaves:
  assumes "dwf by_provider"
  shows "collect by_provider limit = take (walk_budget limit) (interleave (map snd by_provider))"
  using assms by (rule collect_columns)

theorem collect_interleaves_witness:
  "collect [(u ''a'', [sample_items ! 0, sample_items ! 1]), (u ''b'', [sample_items ! 2])] 20 =
     [sample_items ! 0, sample_items ! 2, sample_items ! 1]"
proof -
  have "dwf [(u ''a'', [sample_items ! 0, sample_items ! 1]), (u ''b'', [sample_items ! 2])]"
    by (simp add: dwf_def)
  from collect_interleaves [OF this, of 20] show ?thesis
    by (simp add: interleave_def columns_def longest_def column_def walk_budget_def
        walk_budget_multiplier_def upt_rec)
qed

section \<open>The fold by group key\<close>

definition merged_item :: "home_item list \<Rightarrow> ustr \<Rightarrow> home_item" where
  "merged_item its k =
     (let same = filter (\<lambda>it. hi_group_key it = k) its
      in add_providers (concat (map hi_providers (tl same))) (hd same))"

lemma add_providers_Nil [simp]: "add_providers [] it = it"
  by (simp add: add_providers_def)

lemma add_providers_append: "add_providers (ps @ qs) it = add_providers qs (add_providers ps it)"
  by (simp add: add_providers_def)

lemma add_providers_same [simp]:
  "hi_group_key (add_providers ps it) = hi_group_key it" "hi_form (add_providers ps it) = hi_form it"
  by (simp_all add: add_providers_def)

lemma merged_item_snoc_other: "hi_group_key it \<noteq> k \<Longrightarrow> merged_item (its @ [it]) k = merged_item its k"
  by (simp add: merged_item_def)

lemma merged_item_snoc_new:
  "k \<notin> hi_group_key ` set its \<Longrightarrow> hi_group_key it = k \<Longrightarrow> merged_item (its @ [it]) k = it"
proof -
  assume "k \<notin> hi_group_key ` set its" and k: "hi_group_key it = k"
  then have "filter (\<lambda>it. hi_group_key it = k) its = []" unfolding filter_empty_conv by blast
  with k show ?thesis by (simp add: merged_item_def)
qed

lemma merged_item_snoc_old:
  "k \<in> hi_group_key ` set its \<Longrightarrow> hi_group_key it = k \<Longrightarrow>
   merged_item (its @ [it]) k = add_providers (hi_providers it) (merged_item its k)"
proof -
  assume "k \<in> hi_group_key ` set its" and k: "hi_group_key it = k"
  then have "filter (\<lambda>it. hi_group_key it = k) its \<noteq> []" by (auto simp: filter_empty_conv)
  with k show ?thesis by (simp add: merged_item_def add_providers_append Let_def)
qed

lemma map_of_tabulate: "map_of (map (\<lambda>r. (r, f r)) ks) k = (if k \<in> set ks then Some (f k) else None)"
  by (auto simp: map_of_map_restrict restrict_map_def)

lemma aggregate_fold:
  "foldl aggregate_step ([], []) its =
     (map (\<lambda>k. (k, merged_item its k)) (uniq (map hi_group_key its)), uniq (map hi_group_key its))"
proof (induction its rule: rev_induct)
  case Nil
  show ?case by (simp add: uniq_def)
next
  case (snoc it its)
  let ?k = "hi_group_key it" and ?ks = "uniq (map hi_group_key its)"
  let ?d = "map (\<lambda>k. (k, merged_item its k)) ?ks"
  have d: "foldl aggregate_step ([], []) (its @ [it]) = aggregate_step (?d, ?ks) it"
    using snoc by simp
  have dist: "distinct ?ks" by simp
  show ?case
  proof (cases "?k \<in> hi_group_key ` set its")
    case True
    then have g: "dget ?d ?k = Some (merged_item its ?k)" by (simp add: map_of_tabulate)
    have u: "uniq (map hi_group_key (its @ [it])) = ?ks" using True by (simp add: uniq_snoc)
    have "dset ?k (add_providers (hi_providers it) (merged_item its ?k)) ?d =
        map (\<lambda>k. (k, merged_item (its @ [it]) k)) ?ks"
      unfolding dset_tabulate [OF dist]
      using True by (auto simp: merged_item_snoc_other merged_item_snoc_old)
    then show ?thesis unfolding d u by (simp add: aggregate_step_def g)
  next
    case False
    then have g: "dget ?d ?k = None" by (simp add: map_of_tabulate)
    have u: "uniq (map hi_group_key (its @ [it])) = ?ks @ [?k]" using False by (simp add: uniq_snoc)
    have "merged_item its k = merged_item (its @ [it]) k" if "k \<in> set ?ks" for k
      using that False by (subst merged_item_snoc_other) auto
    then have "dset ?k it ?d = map (\<lambda>k. (k, merged_item (its @ [it]) k)) (?ks @ [?k])"
      unfolding dset_tabulate [OF dist]
      using False by (auto simp: merged_item_snoc_new)
    then show ?thesis unfolding d u by (simp add: aggregate_step_def g)
  qed
qed

lemma map_filter_tabulate: "List.map_filter (dget (map (\<lambda>r. (r, f r)) ks)) ks = map f ks"
proof -
  have "List.map_filter (dget (map (\<lambda>r. (r, f r)) ks)) js = map f js" if "set js \<subseteq> set ks" for js
    using that by (induction js) (simp_all add: List.map_filter_simps map_of_tabulate)
  then show ?thesis by simp
qed

text \<open>Folding by group key keeps, for every key in first-seen order, the first item with that key,
  with the providers of all the others appended once each; on items with distinct keys it is the
  identity.\<close>

theorem aggregate_by_group_key_spec:
  "aggregate_by_group_key its = map (merged_item its) (uniq (map hi_group_key its)) \<and>
   (distinct (map hi_group_key its) \<longrightarrow> aggregate_by_group_key its = its)"
proof -
  have eq: "aggregate_by_group_key its = map (merged_item its) (uniq (map hi_group_key its))"
    by (simp add: aggregate_by_group_key_def aggregate_fold map_filter_tabulate)
  have "map (merged_item its) (map hi_group_key its) = its" if "distinct (map hi_group_key its)"
    using that
  proof (induction its rule: rev_induct)
    case (snoc it its)
    then have fresh: "hi_group_key it \<notin> hi_group_key ` set its" by simp
    have "map (merged_item (its @ [it])) (map hi_group_key its) = map (merged_item its) (map hi_group_key its)"
      using fresh by (auto intro!: merged_item_snoc_other)
    with snoc fresh show ?case by (simp add: merged_item_snoc_new del: map_map)
  qed simp
  with eq show ?thesis by (simp add: uniq_id del: map_map)
qed

theorem aggregate_by_group_key_spec_witness:
  "aggregate_by_group_key [history_item ua_ucd (sample_items ! 0), history_item ua_ucd (sample_items ! 2)] =
     [history_item ua_ucd (sample_items ! 0), history_item ua_ucd (sample_items ! 2)]"
proof -
  have v: "valid_imdb ua_ucd (sample_items ! 0) = Some (u ''tt1160419'')" "valid_imdb ua_ucd (sample_items ! 2) = None"
    using sample_valid by (simp_all add: sample_items_def)
  have "item_group_key ua_ucd (sample_items ! 0) \<noteq> item_group_key ua_ucd (sample_items ! 2)"
    by (simp add: item_group_key_imdb [OF v(1)] item_group_key_text [OF v(2)] group_key_prefix_def
        group_key_prefix_g3_def u_def)
  then show ?thesis
    by (intro aggregate_by_group_key_spec [THEN conjunct2, rule_format]) (simp add: history_item_def)
qed

lemma merged_item_first:
  assumes "k \<in> hi_group_key ` set its"
  shows "hi_group_key (merged_item its k) = k \<and> (\<exists>it \<in> set its. hi_form (merged_item its k) = hi_form it)"
proof -
  let ?same = "filter (\<lambda>it. hi_group_key it = k) its"
  have "?same \<noteq> []" using assms by (auto simp: filter_empty_conv)
  then have "hd ?same \<in> set ?same" by (rule hd_in_set)
  then have "hi_group_key (hd ?same) = k" "hd ?same \<in> set its" by auto
  then show ?thesis by (auto simp: merged_item_def Let_def)
qed

lemma aggregate_eq: "aggregate_by_group_key its = map (merged_item its) (uniq (map hi_group_key its))"
  by (simp add: aggregate_by_group_key_def aggregate_fold map_filter_tabulate)

lemma aggregate_keys: "map hi_group_key (aggregate_by_group_key its) = uniq (map hi_group_key its)"
  unfolding aggregate_eq by (auto simp: merged_item_first intro!: map_idI)

lemma length_uniq: "length (uniq xs) \<le> length xs"
  using card_length [of xs] distinct_card [of "uniq xs"] by simp

lemma aggregate_props:
  "length (aggregate_by_group_key its) \<le> length its"
  "distinct (map hi_group_key (aggregate_by_group_key its))"
  "its \<noteq> [] \<Longrightarrow> aggregate_by_group_key its \<noteq> []"
  "x \<in> set (aggregate_by_group_key its) \<Longrightarrow> \<exists>it \<in> set its. hi_form x = hi_form it"
proof -
  show "length (aggregate_by_group_key its) \<le> length its"
    unfolding aggregate_eq using length_uniq [of "map hi_group_key its"] by simp
  show "distinct (map hi_group_key (aggregate_by_group_key its))" by (simp add: aggregate_keys)
  show "aggregate_by_group_key its \<noteq> []" if "its \<noteq> []"
    using that by (simp add: aggregate_eq)
  show "\<exists>it \<in> set its. hi_form x = hi_form it" if "x \<in> set (aggregate_by_group_key its)"
    using that merged_item_first [of _ its] by (auto simp: aggregate_eq)
qed

section \<open>The rows\<close>

lemma dwf_filter_listings [simp]: "dwf (filter_listings P d) = dwf d"
  by (simp add: filter_listings_def dwf_def comp_def case_prod_beta)

lemma columns_members: "set (columns n ls) \<subseteq> \<Union> (set ` set ls)"
  by (auto simp: columns_def column_def)

lemma collect_members: "dwf d \<Longrightarrow> it \<in> set (collect d limit) \<Longrightarrow> \<exists>(p, l) \<in> set d. it \<in> set l"
  using columns_members [of "longest (map snd d)" "map snd d"]
  by (fastforce simp: collect_columns interleave_def dest: in_set_takeD)

lemma collect_nonempty:
  assumes "dwf d" and "0 < limit" and "any_listing d"
  shows "collect d limit \<noteq> []"
proof -
  obtain p l where l: "(p, l) \<in> set d" "l \<noteq> []" using assms(3) by (auto simp: any_listing_def list_ex_iff)
  then have "0 < longest (map snd d)" by (force simp: longest_less)
  then obtain t where "interleave (map snd d) = column 0 (map snd d) @ t"
    using columns_le [of 1 "longest (map snd d)" "map snd d"] by (auto simp: interleave_def columns_def)
  moreover have "column 0 (map snd d) \<noteq> []" using \<open>0 < longest (map snd d)\<close> by (simp add: column_Nil)
  ultimately show ?thesis using assms(1,2)
    by (simp add: collect_columns walk_budget_def walk_budget_multiplier_def)
qed

lemma round_robin_length: "length (round_robin_dedup U d limit) \<le> nat limit"
  by (simp add: round_robin_dedup_def)

lemma round_robin_form:
  assumes "dwf d" and "x \<in> set (round_robin_dedup U d limit)"
  shows "\<exists>(p, l) \<in> set d. \<exists>it \<in> set l. hi_form x = form it"
proof -
  obtain g where g: "g \<in> set (merge_groups U (collect d limit))" "x = home_item_of U g"
    using in_set_takeD [OF assms(2) [unfolded round_robin_dedup_def]] by auto
  from merge_groups_sources [OF g(1)] have "hd (sources g) \<in> set (collect d limit)"
    using hd_in_set by blast
  from collect_members [OF assms(1) this] show ?thesis
    by (auto simp: g(2) home_item_of_def Let_def)
qed

lemma round_robin_filter_form:
  assumes "dwf d" and "x \<in> set (round_robin_dedup U (filter_listings P d) limit)"
    and "\<And>it. P it \<Longrightarrow> Q (form it)"
  shows "Q (hi_form x)"
proof -
  have "dwf (filter_listings P d)" using assms(1) by simp
  from round_robin_form [OF this assms(2)] obtain p l it
    where "(p, l) \<in> set (filter_listings P d)" "it \<in> set l" "hi_form x = form it" by blast
  then show ?thesis using assms(3) by (auto simp: filter_listings_def)
qed

lemma round_robin_nonempty:
  "dwf d \<Longrightarrow> 0 < limit \<Longrightarrow> any_listing d \<Longrightarrow> round_robin_dedup U d limit \<noteq> []"
  by (simp add: round_robin_dedup_def merge_groups_nonempty collect_nonempty)

lemma top_up_props:
  assumes "int (length row) < limit"
  shows "int (length (top_up limit row existing its)) \<le> limit \<and>
    set (top_up limit row existing its) \<subseteq> set row \<union> set its"
  using assms
proof (induction limit row existing its rule: top_up.induct)
  case (2 limit row existing it rest)
  then show ?case by (auto simp: Let_def not_le)
qed simp

definition row_ok :: "int \<Rightarrow> home_row \<Rightarrow> bool" where
  "row_ok limit row \<longleftrightarrow>
     hr_items row \<noteq> [] \<and> int (length (hr_items row)) \<le> limit \<and>
     distinct (map hi_group_key (hr_items row)) \<and>
     (case dget row_kinds (hr_type row) of
        None \<Rightarrow> False
      | Some rk \<Rightarrow> rk_filter rk = Filter_form \<longrightarrow> (\<forall>it \<in> set (hr_items row). rk_form rk = Some (hi_form it)))"

text \<open>The form a row admits, as the table says.\<close>

definition row_form :: "ustr \<Rightarrow> media_form option" where
  "row_form kind = (case dget row_kinds kind of Some rk \<Rightarrow> rk_form rk | None \<Rightarrow> None)"

lemma row_form_filter: "dget row_kinds k = Some rk \<Longrightarrow> (rk_filter rk = Filter_form) = (rk_form rk \<noteq> None)"
  by (auto simp: row_kinds_def row_entry_def split: if_splits)

lemma row_ok_row:
  assumes "k \<in> set (dkeys row_kinds)" and "its \<noteq> []" and "int (length its) \<le> limit"
    and "\<And>f it. row_form k = Some f \<Longrightarrow> it \<in> set its \<Longrightarrow> hi_form it = f"
  shows "row_ok limit \<lparr>hr_title = t, hr_type = k, hr_items = aggregate_by_group_key its\<rparr>"
proof -
  obtain rk where rk: "dget row_kinds k = Some rk"
    using assms(1) by (cases "dget row_kinds k") (auto simp: map_of_eq_None_iff)
  have "rk_form rk = Some (hi_form x)" if flt: "rk_filter rk = Filter_form" and x: "x \<in> set (aggregate_by_group_key its)" for x
  proof -
    have "rk_form rk \<noteq> None" using row_form_filter [OF rk] flt by blast
    then obtain f where f: "rk_form rk = Some f" by blast
    obtain it where "it \<in> set its" "hi_form x = hi_form it" using aggregate_props(4) [OF x] by blast
    with assms(4) [of f it] f show ?thesis by (simp add: row_form_def rk)
  qed
  moreover have "int (length (aggregate_by_group_key its)) \<le> limit"
    using aggregate_props(1) [of its] assms(3) by linarith
  ultimately show ?thesis using assms(2) by (simp add: row_ok_def aggregate_props rk)
qed

lemma row_ok_unless_empty:
  assumes "k \<in> set (dkeys row_kinds)" and "int (length its) \<le> limit"
    and "\<And>f it. row_form k = Some f \<Longrightarrow> it \<in> set its \<Longrightarrow> hi_form it = f"
    and "row \<in> set (row_unless_empty t k its)"
  shows "row_ok limit row"
  using assms row_ok_row [of k its limit t] by (auto simp: row_unless_empty_def split: if_splits)

lemma row_form_eval:
  "row_form (u ''recent_movie'') = Some Movie" "row_form (u ''recent_series'') = Some Series"
  "row_form (u ''new_episodes'') = Some Series" "row_form (u ''recently_watched'') = None"
  "row_form (u ''popular'') = None" "row_form (form_text f) = Some f"
  by (simp_all add: row_form_def row_kinds_def row_entry_def) (cases f; simp add: form_text_def)

lemma admits_form: "row_form k = Some f \<Longrightarrow> admits k it \<Longrightarrow> form it = f"
  using row_form_filter [of k]
  by (auto simp: row_form_def admits_def item_matches_row_def split: option.splits if_splits)

lemma recent_row_ok:
  assumes wf: "dwf newest" "\<forall>(k, d) \<in> set by_type. dwf d" and lim: "0 < limit"
    and x: "x \<in> set recent_rows" and row: "row \<in> set (recent_row U newest by_type limit x)"
  shows "row_ok limit row"
proof -
  obtain f label k where fk: "x = (f, label, k)" "row_form k = Some f" "k \<in> set (dkeys row_kinds)"
    using x by (auto simp: recent_rows_def row_form_eval row_kinds_def)
  define sec where "sec = (case dget by_type (form_text f) of Some s \<Rightarrow> s | None \<Rightarrow> [])"
  define row0 where "row0 = round_robin_dedup U (filter_listings (\<lambda>it. form it = f) newest) limit"
  define extra where "extra = round_robin_dedup U (filter_listings (admits (form_text f)) sec) limit"
  define row1 where "row1 = (if int (length row0) < limit
    then top_up limit row0 (hi_group_key ` set row0) extra else row0)"
  have sec: "dwf sec" using wf(2) by (auto simp: sec_def split: option.splits dest: map_of_SomeD)
  have f0: "hi_form it = f" if "it \<in> set row0" for it
    using round_robin_filter_form [OF wf(1), of it U _ limit "\<lambda>g. g = f"] that by (simp add: row0_def)
  have f1: "hi_form it = f" if "it \<in> set extra" for it
    using round_robin_filter_form [OF sec, of it U _ limit "\<lambda>g. g = f"] that
      admits_form [OF row_form_eval(6)] by (simp add: extra_def)
  have "int (length row0) \<le> limit" using round_robin_length lim unfolding row0_def by (metis int_nat_eq less_imp_le nat_le_iff of_nat_le_iff)
  then have len: "int (length row1) \<le> limit" using top_up_props by (auto simp: row1_def)
  have form: "hi_form it = f" if "it \<in> set row1" for it
    using that f0 f1 top_up_props [of row0 limit "hi_group_key ` set row0" extra]
    by (auto simp: row1_def split: if_splits)
  have "recent_row U newest by_type limit x = row_unless_empty label k row1"
    by (simp add: recent_row_def fk(1) Let_def row0_def row1_def extra_def sec_def)
  with row show ?thesis
    using row_ok_unless_empty [OF fk(3) len] form fk(2) by auto
qed

lemma nat_limit: "0 < limit \<Longrightarrow> n \<le> nat limit \<Longrightarrow> int n \<le> limit"
  by linarith

lemma new_episodes_row_ok:
  assumes "dwf newest" and "0 < limit" and "row \<in> set (new_episodes_row U newest limit watched)"
  shows "row_ok limit row"
proof -
  obtain w where w: "watched = Some w" using assms(3) by (cases watched) (auto simp: new_episodes_row_def)
  let ?its = "round_robin_dedup U
    (filter_listings (\<lambda>it. form it = Series \<and> item_group_key U it \<in> w) newest) limit"
  have form: "hi_form it = Series" if "it \<in> set ?its" for it
    by (rule round_robin_filter_form [OF assms(1) that]) simp
  have "row \<in> set (row_unless_empty title_new_episodes (u ''new_episodes'') ?its)"
    using assms(3) by (simp add: new_episodes_row_def w)
  then show ?thesis
  proof (rule row_ok_unless_empty [rotated 3])
    show "u ''new_episodes'' \<in> set (dkeys row_kinds)" unfolding dkeys_row_kinds by simp
    show "int (length ?its) \<le> limit" by (rule nat_limit [OF assms(2) round_robin_length])
    show "\<And>f it. row_form (u ''new_episodes'') = Some f \<Longrightarrow> it \<in> set ?its \<Longrightarrow> hi_form it = f"
      using form by (auto simp: row_form_eval)
  qed
qed

lemma recently_watched_row_ok:
  assumes "0 < limit" and "row \<in> set (recently_watched_row U newest by_type limit history)"
  shows "row_ok limit row"
proof -
  obtain its where row: "row \<in> set (row_unless_empty title_recently_watched (u ''recently_watched'')
      (map (history_item U) (py_take limit its)))"
    using assms(2) by (cases history) (auto simp: recently_watched_row_def Let_def)
  then show ?thesis
  proof (rule row_ok_unless_empty [rotated 3])
    show "u ''recently_watched'' \<in> set (dkeys row_kinds)" unfolding dkeys_row_kinds by simp
    show "int (length (map (history_item U) (py_take limit its))) \<le> limit"
      using assms(1) by (simp add: py_take_def)
  qed (simp add: row_form_eval)
qed

lemma popular_row_ok:
  assumes "dwf popular" and "0 < limit" and "row \<in> set (popular_row U popular limit)"
  shows "row_ok limit row"
proof -
  have any: "any_listing popular" and
    row: "row = \<lparr>hr_title = title_popular, hr_type = u ''popular'',
      hr_items = aggregate_by_group_key (round_robin_dedup U popular limit)\<rparr>"
    using assms(3) by (auto simp: popular_row_def split: if_splits)
  show ?thesis unfolding row
  proof (rule row_ok_row)
    show "u ''popular'' \<in> set (dkeys row_kinds)" unfolding dkeys_row_kinds by simp
    show "round_robin_dedup U popular limit \<noteq> []" by (rule round_robin_nonempty [OF assms(1,2) any])
    show "int (length (round_robin_dedup U popular limit)) \<le> limit"
      by (rule nat_limit [OF assms(2) round_robin_length])
  qed (simp add: row_form_eval)
qed

lemma type_row_ok:
  assumes wf: "\<forall>(k, d) \<in> set by_type. dwf d" and lim: "0 < limit" and k: "k \<in> set type_kinds"
    and row: "row \<in> set (type_row U by_type limit k)"
  shows "row_ok limit row"
proof -
  define sec where "sec = (case dget by_type k of Some s \<Rightarrow> s | None \<Rightarrow> [])"
  have sec: "dwf sec" using wf by (auto simp: sec_def split: option.splits dest: map_of_SomeD)
  let ?its = "round_robin_dedup U (filter_listings (admits k) sec) limit"
  have form: "hi_form it = f" if "row_form k = Some f" "it \<in> set ?its" for f it
    by (rule round_robin_filter_form [OF sec that(2)]) (rule admits_form [OF that(1)])
  have "row \<in> set (row_unless_empty (row_title k) k ?its)"
    using row by (auto simp: type_row_def sec_def Let_def split: if_splits)
  then show ?thesis
  proof (rule row_ok_unless_empty [rotated 3])
    show "k \<in> set (dkeys row_kinds)" using k unfolding dkeys_row_kinds type_kinds_eval by auto
    show "int (length ?its) \<le> limit" by (rule nat_limit [OF lim round_robin_length])
  qed (rule form)
qed

text \<open>C26: For a positive row cap, every home row is one of the table's kinds and not an excluded one,
  is not empty, has at most as many items as the cap, no two with the same group key, and only items
  of the row's form when the kind filters by form.\<close>

theorem home_rows_ok:
  assumes "dwf newest" and "dwf popular" and "\<forall>(k, d) \<in> set by_type. dwf d" and "0 < limit"
    and "row \<in> set (build_home_rows U newest popular by_type limit watched history excluded)"
  shows "row_ok limit row \<and> hr_type row \<notin> excluded"
proof -
  have "row \<in> set (concat (map (recent_row U newest by_type limit) recent_rows)) \<or>
      row \<in> set (new_episodes_row U newest limit watched) \<or>
      row \<in> set (recently_watched_row U newest by_type limit history) \<or>
      row \<in> set (popular_row U popular limit) \<or>
      row \<in> set (concat (map (type_row U by_type limit) type_kinds))"
    and ex: "hr_type row \<notin> excluded"
    using assms(5) by (auto simp: build_home_rows_def)
  then have "row_ok limit row"
    using recent_row_ok [OF assms(1,3,4)] new_episodes_row_ok [OF assms(1,4)]
      recently_watched_row_ok [OF assms(4)] popular_row_ok [OF assms(2,4)] type_row_ok [OF assms(3,4)]
    by (auto simp del: Un_iff)
  with ex show ?thesis by simp
qed

theorem home_rows_ok_witness:
  "\<exists>row. row \<in> set (build_home_rows ua_ucd [] [(u ''animeon'', [sample_items ! 2])] [] 20 None None {u ''anime''}) \<and>
     row_ok 20 row \<and> hr_type row \<notin> {u ''anime''}"
proof -
  let ?rows = "build_home_rows ua_ucd [] [(u ''animeon'', [sample_items ! 2])] [] 20 None None {u ''anime''}"
  have "popular_row ua_ucd [(u ''animeon'', [sample_items ! 2])] 20 \<noteq> []"
    by (simp add: popular_row_def any_listing_def)
  then obtain row where row: "row \<in> set (popular_row ua_ucd [(u ''animeon'', [sample_items ! 2])] 20)"
    by (cases "popular_row ua_ucd [(u ''animeon'', [sample_items ! 2])] 20") auto
  then have "hr_type row = u ''popular''" by (auto simp: popular_row_def split: if_splits)
  with row have m: "row \<in> set ?rows" by (simp add: build_home_rows_def)
  have "dwf [(u ''animeon'', [sample_items ! 2])]" by (simp add: dwf_def)
  from home_rows_ok [OF _ this _ _ m] m show ?thesis by auto
qed

lemma subseq_row: "length rows \<le> 1 \<Longrightarrow> \<forall>row \<in> set rows. hr_type row = k \<Longrightarrow> subseq (map hr_type rows) [k]"
  by (cases rows) auto

lemma subseq_rows:
  assumes "\<And>x. x \<in> set xs \<Longrightarrow> subseq (map hr_type (f x)) [g x]"
  shows "subseq (map hr_type (concat (map f xs))) (map g xs)"
  using assms
proof (induction xs)
  case (Cons x xs)
  then have "subseq (map hr_type (f x) @ map hr_type (concat (map f xs))) ([g x] @ map g xs)"
    by (intro list_emb_append_mono) auto
  then show ?case by simp
qed simp

lemma subseq_unless_empty: "subseq (map hr_type (row_unless_empty t k its)) [k]"
  by (simp add: row_unless_empty_def)

text \<open>The rows come in the order of the row-kind table, no kind twice, whatever the data.\<close>

theorem home_rows_in_table_order:
  "subseq (map hr_type (build_home_rows U newest popular by_type limit watched history excluded)) (dkeys row_kinds)"
proof -
  let ?a = "concat (map (recent_row U newest by_type limit) recent_rows)"
    and ?b = "new_episodes_row U newest limit watched"
    and ?c = "recently_watched_row U newest by_type limit history"
    and ?d = "popular_row U popular limit"
    and ?e = "concat (map (type_row U by_type limit) type_kinds)"
  have a: "subseq (map hr_type ?a) (map (\<lambda>(_, _, k). k) recent_rows)"
    by (rule subseq_rows) (auto simp: recent_row_def Let_def subseq_unless_empty)
  have b: "subseq (map hr_type ?b) [u ''new_episodes'']"
    by (cases watched) (simp_all add: new_episodes_row_def subseq_unless_empty)
  have c: "subseq (map hr_type ?c) [u ''recently_watched'']"
    by (cases history) (simp_all add: recently_watched_row_def Let_def subseq_unless_empty)
  have d: "subseq (map hr_type ?d) [u ''popular'']" by (simp add: popular_row_def)
  have "subseq (map hr_type ?e) (map (\<lambda>k. k) type_kinds)"
    by (rule subseq_rows) (simp add: type_row_def Let_def subseq_unless_empty)
  then have "subseq (map hr_type ?a @ map hr_type ?b @ map hr_type ?c @ map hr_type ?d @ map hr_type ?e)
      (map (\<lambda>(_, _, k). k) recent_rows @ [u ''new_episodes''] @ [u ''recently_watched''] @ [u ''popular''] @ type_kinds)"
    by (intro list_emb_append_mono a b c d) simp
  moreover have "subseq (map (\<lambda>(_, _, k). k) recent_rows @ [u ''new_episodes''] @ [u ''recently_watched''] @
      [u ''popular''] @ type_kinds) (dkeys row_kinds)"
    by (simp add: recent_rows_def type_kinds_eval dkeys_row_kinds)
  ultimately have "subseq (map hr_type (?a @ ?b @ ?c @ ?d @ ?e)) (dkeys row_kinds)"
    by (simp only: map_append subseq_order.trans)
  moreover have "subseq (map hr_type (build_home_rows U newest popular by_type limit watched history excluded))
      (map hr_type (?a @ ?b @ ?c @ ?d @ ?e))"
    unfolding build_home_rows_def by (rule subseq_map) (rule subseq_filter_left)
  ultimately show ?thesis using subseq_order.trans by blast
qed

section \<open>The genre rails\<close>

definition has_genre :: "genre_profiles \<Rightarrow> ustr \<Rightarrow> home_item \<Rightarrow> bool" where
  "has_genre profiles g it = (case profiles (hi_group_key it) of None \<Rightarrow> False | Some gs \<Rightarrow> g \<in> set gs)"

definition genre_count :: "genre_profiles \<Rightarrow> home_item list \<Rightarrow> ustr \<Rightarrow> nat" where
  "genre_count profiles its g = length (filter (has_genre profiles g) its)"

text \<open>\<open>cov_ok cov f\<close>: the dictionary counts \<open>f\<close>, without entries for zero.\<close>

definition cov_ok :: "(ustr, nat) pdict \<Rightarrow> (ustr \<Rightarrow> nat) \<Rightarrow> bool" where
  "cov_ok cov f \<longleftrightarrow> dwf cov \<and> (\<forall>g. dget cov g = (if f g = 0 then None else Some (f g)))"

lemma cov_ok_bump:
  assumes "cov_ok cov f"
  shows "cov_ok (dset g ((case dget cov g of Some n \<Rightarrow> n | None \<Rightarrow> 0) + 1) cov) (f(g := f g + 1))"
  using assms by (auto simp: cov_ok_def dget_dset)

definition count_one :: "(ustr, nat) pdict \<times> (ustr, ustr) pdict \<Rightarrow> ustr \<Rightarrow> (ustr, nat) pdict \<times> (ustr, ustr) pdict" where
  "count_one = (\<lambda>(cov, lab) g.
     (dset g ((case dget cov g of Some n \<Rightarrow> n | None \<Rightarrow> 0) + 1) cov, snd (dsetdefault g g lab)))"

lemma cov_ok_bumps:
  assumes "cov_ok (fst s) f" and "distinct gs"
  shows "cov_ok (fst (foldl count_one s gs)) (\<lambda>g. f g + (if g \<in> set gs then 1 else 0))"
  using assms
proof (induction gs arbitrary: s f)
  case (Cons g gs)
  have "cov_ok (fst (count_one s g)) (f(g := f g + 1))"
    using cov_ok_bump [OF Cons.prems(1), of g] by (simp add: count_one_def case_prod_beta)
  from Cons.IH [OF this] Cons.prems(2)
  have "cov_ok (fst (foldl count_one s (g # gs))) (\<lambda>h. (f(g := f g + 1)) h + (if h \<in> set gs then 1 else 0))"
    by simp
  moreover have "(\<lambda>h. (f(g := f g + 1)) h + (if h \<in> set gs then 1 else 0)) =
      (\<lambda>h. f h + (if h \<in> set (g # gs) then 1 else 0))"
    using Cons.prems(2) by (auto simp: fun_eq_iff)
  ultimately show ?case by simp
qed simp

lemma foldl_fst_same: "(\<And>s x. fst (F s x) = fst s) \<Longrightarrow> fst (foldl F s xs) = fst s"
  by (induction xs arbitrary: s) simp_all

lemma fst_count_genres:
  "fst (count_genres U profiles s it) =
     (case profiles (hi_group_key it) of None \<Rightarrow> fst s | Some gs \<Rightarrow> fst (foldl count_one s gs))"
proof (cases "profiles (hi_group_key it)")
  case (Some gs)
  then show ?thesis unfolding count_genres_def count_one_def [symmetric]
    by (simp add: Let_def, subst foldl_fst_same) (auto split: prod.splits)
qed (simp add: count_genres_def)

lemma coverage_counts:
  assumes "\<And>k gs. profiles k = Some gs \<Longrightarrow> distinct gs"
  shows "cov_ok (fst (foldl (count_genres U profiles) ([], []) its)) (genre_count profiles its)"
proof (induction its rule: rev_induct)
  case Nil
  show ?case by (simp add: cov_ok_def genre_count_def)
next
  case (snoc it its)
  let ?s = "foldl (count_genres U profiles) ([], []) its"
  have g: "genre_count profiles (its @ [it]) = (\<lambda>g. genre_count profiles its g + (if has_genre profiles g it then 1 else 0))"
    by (auto simp: genre_count_def fun_eq_iff)
  show ?case
  proof (cases "profiles (hi_group_key it)")
    case None
    then show ?thesis using snoc unfolding g by (simp add: fst_count_genres has_genre_def)
  next
    case (Some gs)
    from cov_ok_bumps [OF snoc assms [OF Some]] show ?thesis
      unfolding g by (simp add: fst_count_genres Some has_genre_def)
  qed
qed

lemma sorted_wrt_stable:
  assumes "sorted (map f ys)" and "\<And>k. sorted_wrt Q (filter (\<lambda>y. f y = k) ys)"
  shows "sorted_wrt (\<lambda>x y. f x < f y \<or> f x = f y \<and> Q x y) ys"
  using assms
proof (induction ys)
  case (Cons x ys)
  have "sorted_wrt Q (filter (\<lambda>y. f y = k) ys)" for k
    using Cons.prems(2) [of k] by (cases "f x = k") auto
  moreover have "f x < f y \<or> f x = f y \<and> Q x y" if "y \<in> set ys" for y
    using Cons.prems(1) Cons.prems(2) [of "f x"] that by (auto simp: less_le)
  ultimately show ?case using Cons by simp
qed simp

lemma rank_genres_sorted:
  assumes "dwf cov"
  shows "sorted_wrt (\<lambda>(g, m) (h, n). n < m \<or> m = n \<and> g < h) (rank_genres cov)"
proof -
  have st: "sorted_wrt (\<lambda>x y. fst x < fst y) (sort_key fst cov)"
  proof -
    have "sorted (map fst (sort_key fst cov))" by simp
    moreover have "distinct (map fst (sort_key fst cov))"
      using assms by (simp add: dwf_def distinct_map)
    ultimately have "sorted_wrt (<) (map fst (sort_key fst cov))" by (simp add: strict_sorted_iff)
    then show ?thesis by (simp add: sorted_wrt_map)
  qed
  have "sorted_wrt (\<lambda>x y. fst x < fst y) (filter (\<lambda>y. - int (snd y) = k) (rank_genres cov))" for k
    unfolding rank_genres_def sort_key_stable [of "\<lambda>gn. - int (snd gn)"]
    by (rule sorted_wrt_filter [OF st])
  then have "sorted_wrt (\<lambda>x y. - int (snd x) < - int (snd y) \<or> - int (snd x) = - int (snd y) \<and> fst x < fst y)
      (rank_genres cov)"
    by (intro sorted_wrt_stable) (simp_all add: rank_genres_def)
  then show ?thesis by (rule sorted_wrt_mono_rel [rotated]) auto
qed

lemma genre_members_spec:
  assumes "\<And>it. it \<in> set its \<Longrightarrow> dget by_key (hi_group_key it) = Some (m (hi_group_key it))"
    and "length members \<le> limit"
  shows "genre_members limit profiles by_key g (set seen) members its =
    take limit (members @ map m (uniq_from seen (map hi_group_key (filter (has_genre profiles g) its))))"
  using assms
proof (induction its arbitrary: seen members)
  case (Cons it its)
  let ?k = "hi_group_key it"
  show ?case
  proof (cases "length members \<ge> limit")
    case True
    then show ?thesis using Cons.prems(2) by simp
  next
    case False
    show ?thesis
    proof (cases "has_genre profiles g it \<and> ?k \<notin> set seen")
      case True
      then have "genre_members limit profiles by_key g (set seen) members (it # its) =
          genre_members limit profiles by_key g (set (?k # seen)) (members @ [m ?k]) its"
        using False Cons.prems(1) by (auto simp: has_genre_def split: option.splits)
      with Cons.IH [of "members @ [m ?k]" "?k # seen"] Cons.prems False True show ?thesis by simp
    next
      case no: False
      then have "genre_members limit profiles by_key g (set seen) members (it # its) =
          genre_members limit profiles by_key g (set seen) members its"
        using False by (auto simp: has_genre_def split: option.splits)
      with Cons.IH [of members seen] Cons.prems no show ?thesis by auto
    qed
  qed
qed simp

lemma by_key_total:
  "it \<in> set its \<Longrightarrow> \<exists>x. dget (foldl (\<lambda>d it. dset (hi_group_key it) it d) [] its) (hi_group_key it) = Some x \<and>
     hi_group_key x = hi_group_key it"
  by (induction its rule: rev_induct) (auto simp: dget_dset)

text \<open>The genre rails are the at most \<open>top_n\<close> genres of highest coverage with at least \<open>min_items\<close>
  members, by falling coverage and then by name; each rail lists the groups that carry the genre, in
  snapshot order, once each, cut at the limit.\<close>

theorem genre_rails_spec:
  assumes "\<And>k gs. profiles k = Some gs \<Longrightarrow> distinct gs"
  shows "\<exists>gs. length gs \<le> top_n \<and>
    sorted_wrt (\<lambda>g h. genre_count profiles its h < genre_count profiles its g \<or>
      genre_count profiles its g = genre_count profiles its h \<and> g < h) gs \<and>
    (\<forall>g \<in> set gs. min_items \<le> genre_count profiles its g) \<and>
    list_all2 (\<lambda>row g. hr_type row = u ''genre:'' @ genre_slug U g \<and>
      map hi_group_key (hr_items row) =
        take limit (uniq (map hi_group_key (filter (has_genre profiles g) its))))
      (build_genre_rows U its profiles top_n min_items limit) gs"
proof -
  let ?by = "foldl (\<lambda>d it. dset (hi_group_key it) it d) [] its"
  obtain cov lab where cl: "foldl (count_genres U profiles) ([], []) its = (cov, lab)" by force
  have "cov_ok (fst (foldl (count_genres U profiles) ([], []) its)) (genre_count profiles its)"
    by (rule coverage_counts) (rule assms)
  then have cov: "cov_ok cov (genre_count profiles its)" by (simp add: cl)
  let ?top = "filter (\<lambda>(g, n). n \<ge> min_items) (take top_n (rank_genres cov))"
  have val: "n = genre_count profiles its g" if "(g, n) \<in> set ?top" for g n
  proof -
    have "(g, n) \<in> set cov" using that by (auto simp: rank_genres_def dest!: in_set_takeD)
    moreover have "dwf cov" using cov by (simp add: cov_ok_def)
    ultimately have "dget cov g = Some n" by (simp only: dget_Some_in)
    with cov show ?thesis by (auto simp: cov_ok_def split: if_splits)
  qed
  have "sorted_wrt (\<lambda>(g, m) (h, n). n < m \<or> m = n \<and> g < h) (rank_genres cov)"
    using cov by (simp add: cov_ok_def rank_genres_sorted)
  then have "sorted_wrt (\<lambda>(g, m) (h, n). n < m \<or> m = n \<and> g < h) ?top"
    by (intro sorted_wrt_filter sorted_wrt_take)
  then have sorted: "sorted_wrt (\<lambda>g h. genre_count profiles its h < genre_count profiles its g \<or>
      genre_count profiles its g = genre_count profiles its h \<and> g < h) (map fst ?top)"
    unfolding sorted_wrt_map by (rule sorted_wrt_mono_rel [rotated]) (use val in fastforce)
  have key: "hi_group_key (the (dget ?by k)) = k" if "k \<in> hi_group_key ` set its" for k
    using that by_key_total [of _ its] by fastforce
  have rows: "map hi_group_key (genre_members limit profiles ?by g {} [] its) =
      take limit (uniq (map hi_group_key (filter (has_genre profiles g) its)))" for g
  proof -
    let ?ks = "uniq (map hi_group_key (filter (has_genre profiles g) its))"
    have "dget ?by (hi_group_key it) = Some (the (dget ?by (hi_group_key it)))" if "it \<in> set its" for it
      using by_key_total [OF that] by auto
    from genre_members_spec [OF this, of its "[]" limit profiles g "[]"]
    have "genre_members limit profiles ?by g {} [] its = take limit (map (\<lambda>k. the (dget ?by k)) ?ks)"
      by (simp add: uniq_def)
    moreover have "map (\<lambda>k. hi_group_key (the (dget ?by k))) (take limit ?ks) = take limit ?ks"
      by (rule map_idI) (use key in \<open>auto dest!: in_set_takeD\<close>)
    ultimately show ?thesis by (simp add: take_map comp_def)
  qed
  have "list_all2 (\<lambda>row g. hr_type row = u ''genre:'' @ genre_slug U g \<and>
      map hi_group_key (hr_items row) = take limit (uniq (map hi_group_key (filter (has_genre profiles g) its))))
      (build_genre_rows U its profiles top_n min_items limit) (map fst ?top)"
    unfolding build_genre_rows_def Let_def cl prod.case list_all2_map1 list_all2_map2
    by (rule list.rel_refl_strong) (auto simp: rows)
  moreover have "length (map fst ?top) \<le> top_n"
    using length_filter_le [of "\<lambda>(g, n). n \<ge> min_items" "take top_n (rank_genres cov)"] by simp
  moreover have "\<forall>g \<in> set (map fst ?top). min_items \<le> genre_count profiles its g"
    using val by auto
  ultimately show ?thesis using sorted by blast
qed

definition sample_home_item :: "string \<Rightarrow> string \<Rightarrow> home_item" where
  "sample_home_item k t =
     \<lparr>hi_group_key = u k, hi_title = u t, hi_year = None, hi_poster = None, hi_form = Movie, hi_styles = {},
      hi_genres = [], hi_providers = [u ''p''], hi_member_keys = [u k]\<rparr>"

definition sample_profiles :: genre_profiles where
  "sample_profiles k = (if k = u ''a'' then Some [u ''drama'', u ''war''] else if k = u ''b'' then Some [u ''war''] else None)"

theorem genre_rails_spec_witness:
  "\<exists>gs. length gs \<le> 6 \<and>
    (\<forall>g \<in> set gs. 2 \<le> genre_count sample_profiles [sample_home_item ''a'' ''A'', sample_home_item ''b'' ''B''] g) \<and>
    list_all2 (\<lambda>row g. hr_type row = u ''genre:'' @ genre_slug ua_ucd g)
      (build_genre_rows ua_ucd [sample_home_item ''a'' ''A'', sample_home_item ''b'' ''B''] sample_profiles 6 2 20) gs"
proof -
  have d: "\<And>k gs. sample_profiles k = Some gs \<Longrightarrow> distinct gs"
    by (auto simp: sample_profiles_def split: if_splits)
  show ?thesis
    using genre_rails_spec [where profiles = sample_profiles and top_n = 6 and min_items = 2 and U = ua_ucd
        and limit = 20 and its = "[sample_home_item ''a'' ''A'', sample_home_item ''b'' ''B'']"] d
    by (fastforce elim: list_all2_mono)
qed

end
