(* ===== verification/Py_Float.thy ===== *)
theory Py_Float
  imports Py_Prelude Complex_Main
begin

text \<open>
  Python's floating-point arithmetic on the values the backend computes with.  A finite double is
  the rational it denotes; every operation computes the exact result and rounds it to 53
  significant bits, ties to even, as IEEE 754 prescribes.  Overflow and subnormal results are
  outside the model: the backend's ratios, fractions and products of seconds and ticks are far
  from both ends of the exponent range.
\<close>

text \<open>The largest \<open>e\<close> with \<open>2 ^ e \<le> n\<close>, for a positive \<open>n\<close>.\<close>

fun ilog2 :: "nat \<Rightarrow> nat" where
  "ilog2 n = (if n < 2 then 0 else Suc (ilog2 (n div 2)))"

declare ilog2.simps [simp del]

definition pow2 :: "int \<Rightarrow> rat" where
  "pow2 e = (if 0 \<le> e then 2 ^ nat e else 1 / 2 ^ nat (- e))"

text \<open>The binary exponent of a positive rational: \<open>pow2 e \<le> x < pow2 (e + 1)\<close>.\<close>

definition expo :: "rat \<Rightarrow> int" where
  "expo x =
     (let (p, q) = quotient_of x;
          k = int (ilog2 (nat p)) - int (ilog2 (nat q))
      in if pow2 k \<le> x then k else k - 1)"

definition round_even :: "rat \<Rightarrow> int" where
  "round_even m =
     (let f = \<lfloor>m\<rfloor>; r = m - of_int f
      in if r < 1 / 2 then f else if r > 1 / 2 then f + 1 else if even f then f else f + 1)"

definition fl_pos :: "rat \<Rightarrow> rat" where
  "fl_pos x = (let e = expo x - 52 in of_int (round_even (x / pow2 e)) * pow2 e)"

definition fl :: "rat \<Rightarrow> rat" where
  "fl x = (if x = 0 then 0 else if 0 < x then fl_pos x else - fl_pos (- x))"

text \<open>The four operations on doubles, and the conversion of an integer to a double.\<close>

definition f_add :: "rat \<Rightarrow> rat \<Rightarrow> rat" where "f_add a b = fl (a + b)"
definition f_sub :: "rat \<Rightarrow> rat \<Rightarrow> rat" where "f_sub a b = fl (a - b)"
definition f_mul :: "rat \<Rightarrow> rat \<Rightarrow> rat" where "f_mul a b = fl (a * b)"
definition f_div :: "rat \<Rightarrow> rat \<Rightarrow> rat" where "f_div a b = fl (a / b)"
definition f_of_int :: "int \<Rightarrow> rat" where "f_of_int i = fl (of_int i)"

lemma pow2_powi: "pow2 e = 2 powi e"
  by (simp add: pow2_def power_int_def power_one_over inverse_eq_divide)

lemma pow2_pos [simp]: "0 < pow2 e"
  by (simp add: pow2_def)

lemma pow2_neq0 [simp]: "pow2 e \<noteq> 0"
  using pow2_pos [of e] by linarith

lemma pow2_add: "pow2 (a + b) = pow2 a * pow2 b"
  by (simp add: pow2_powi power_int_add)

lemma pow2_suc: "pow2 (e + 1) = 2 * pow2 e"
  by (simp add: pow2_add) (simp add: pow2_def)

lemma pow2_diff: "pow2 (a - b) = pow2 a / pow2 b"
  by (simp add: pow2_powi power_int_diff)

lemma pow2_mono: "a \<le> b \<Longrightarrow> pow2 a \<le> pow2 b"
  by (simp add: pow2_powi power_int_increasing)

lemma pow2_nat: "pow2 (int n) = 2 ^ n"
  by (simp add: pow2_def)

lemma ilog2_bounds: "0 < n \<Longrightarrow> 2 ^ ilog2 n \<le> n \<and> n < 2 ^ Suc (ilog2 n)"
proof (induction n rule: ilog2.induct)
  case (1 n)
  show ?case
  proof (cases "n < 2")
    case True
    with "1.prems" show ?thesis by (simp add: ilog2.simps [of n])
  next
    case False
    with "1.IH" have "2 ^ ilog2 (n div 2) \<le> n div 2" "n div 2 < 2 ^ Suc (ilog2 (n div 2))"
      by simp_all
    with False show ?thesis by (auto simp: ilog2.simps [of n])
  qed
qed

lemma frac_between:
  fixes p q :: nat
  assumes "0 < p" "0 < q"
  shows "pow2 (int (ilog2 p) - int (ilog2 q) - 1) \<le> of_nat p / of_nat q"
    and "of_nat p / of_nat q < pow2 (int (ilog2 p) - int (ilog2 q) + 1)"
proof -
  have P: "2 ^ ilog2 p \<le> (of_nat p :: rat)" "(of_nat p :: rat) < 2 * 2 ^ ilog2 p"
    using ilog2_bounds [OF assms(1)]
    by (metis of_nat_le_iff of_nat_numeral of_nat_power,
        metis of_nat_less_iff of_nat_numeral of_nat_power power_Suc)
  have Q: "2 ^ ilog2 q \<le> (of_nat q :: rat)" "(of_nat q :: rat) < 2 * 2 ^ ilog2 q"
    using ilog2_bounds [OF assms(2)]
    by (metis of_nat_le_iff of_nat_numeral of_nat_power,
        metis of_nat_less_iff of_nat_numeral of_nat_power power_Suc)
  have q0: "0 < (of_nat q :: rat)" using assms(2) by simp
  have l: "pow2 (int (ilog2 p) - int (ilog2 q) - 1) = 2 ^ ilog2 p / (2 * 2 ^ ilog2 q)"
    by (simp add: pow2_diff pow2_nat) (simp add: pow2_def)
  have h: "pow2 (int (ilog2 p) - int (ilog2 q) + 1) = 2 * 2 ^ ilog2 p / 2 ^ ilog2 q"
    by (simp add: pow2_suc pow2_diff pow2_nat)
  show "pow2 (int (ilog2 p) - int (ilog2 q) - 1) \<le> of_nat p / of_nat q"
    unfolding l by (rule frac_le) (use P Q q0 in auto)
  show "of_nat p / of_nat q < pow2 (int (ilog2 p) - int (ilog2 q) + 1)"
    unfolding h by (rule frac_less) (use P Q q0 in auto)
qed

lemma expo_bounds:
  assumes "0 < x"
  shows "pow2 (expo x) \<le> x" and "x < pow2 (expo x + 1)"
proof -
  obtain p q where pq: "quotient_of x = (p, q)" by force
  have q: "0 < q" using quotient_of_denom_pos [OF pq] .
  have x: "x = of_int p / of_int q" using quotient_of_div [OF pq] .
  have p: "0 < p" using assms q unfolding x by (simp add: zero_less_divide_iff)
  define m n where "m = nat p" and "n = nat q"
  have mn: "x = of_nat m / of_nat n" "0 < m" "0 < n"
    using p q x by (simp_all add: m_def n_def)
  let ?k = "int (ilog2 m) - int (ilog2 n)"
  have e: "expo x = (if pow2 ?k \<le> x then ?k else ?k - 1)"
    by (simp add: expo_def pq m_def n_def Let_def)
  have b: "pow2 (?k - 1) \<le> x" "x < pow2 (?k + 1)"
    using frac_between [OF mn(2,3)] by (simp_all add: mn(1))
  show "pow2 (expo x) \<le> x" using b(1) by (simp add: e)
  show "x < pow2 (expo x + 1)" using b(2) by (simp add: e)
qed

lemma expo_unique:
  assumes "pow2 e \<le> x" and "x < pow2 (e + 1)"
  shows "expo x = e"
proof -
  have "0 < x" using assms(1) pow2_pos [of e] by linarith
  note b = expo_bounds [OF this]
  have "e < expo x + 1"
    using pow2_mono [of "expo x + 1" e] assms(1) b(2) by (meson leI le_less_trans less_irrefl order_trans)
  moreover have "expo x < e + 1"
    using pow2_mono [of "e + 1" "expo x"] assms(2) b(1) by (meson leI le_less_trans less_irrefl order_trans)
  ultimately show ?thesis by linarith
qed

lemma round_even_near: "\<bar>of_int (round_even m) - m\<bar> \<le> 1 / 2"
proof -
  have "of_int \<lfloor>m\<rfloor> \<le> m" "m < of_int \<lfloor>m\<rfloor> + 1" by linarith+
  then show ?thesis by (auto simp: round_even_def Let_def abs_le_iff)
qed

lemma round_even_int [simp]: "round_even (of_int i) = i"
  by (simp add: round_even_def)

lemma round_even_eq:
  assumes "\<bar>m - of_int i\<bar> < 1 / 2"
  shows "round_even m = i"
proof -
  have "\<bar>of_int (round_even m) - (of_int i :: rat)\<bar> < 1"
    using round_even_near [of m] assms by linarith
  then have "of_int \<bar>round_even m - i\<bar> < (of_int 1 :: rat)" by simp
  then have "\<bar>round_even m - i\<bar> < 1" by (simp only: of_int_less_iff)
  then show ?thesis by simp
qed

lemma round_even_tie:
  assumes "\<bar>m - of_int i\<bar> = 1 / 2" and "even i"
  shows "round_even m = i"
proof (cases "of_int i < m")
  case True
  then have "m = of_int i + 1 / 2" using assms(1) by linarith
  moreover from this have "\<lfloor>m\<rfloor> = i" by linarith
  ultimately show ?thesis using assms(2) by (simp add: round_even_def Let_def)
next
  case False
  then have "m = of_int i - 1 / 2" using assms(1) by linarith
  moreover from this have "\<lfloor>m\<rfloor> = i - 1" by linarith
  ultimately show ?thesis using assms(2) by (simp add: round_even_def Let_def)
qed

text \<open>Evaluation of one rounding, given its exponent and its significand.\<close>

lemma fl_eval:
  assumes "pow2 e \<le> x" and "x < pow2 (e + 1)" and "round_even (x / pow2 (e - 52)) = m"
  shows "fl x = of_int m * pow2 (e - 52)"
proof -
  have "0 < x" using assms(1) pow2_pos [of e] by linarith
  then show ?thesis
    using assms(3) by (simp add: fl_def fl_pos_def expo_unique [OF assms(1,2)])
qed

text \<open>The relative error of one rounding is at most \<open>2 ^ - 53\<close>.\<close>

lemma fl_pos_error:
  assumes "0 < x"
  shows "\<bar>fl x - x\<bar> \<le> x / 2 ^ 53"
proof -
  let ?e = "expo x - 52"
  have p: "0 < pow2 ?e" by simp
  have "\<bar>of_int (round_even (x / pow2 ?e)) - x / pow2 ?e\<bar> * pow2 ?e \<le> 1 / 2 * pow2 ?e"
    using round_even_near by (rule mult_right_mono) (simp add: less_imp_le)
  also have "\<bar>of_int (round_even (x / pow2 ?e)) - x / pow2 ?e\<bar> * pow2 ?e
      = \<bar>of_int (round_even (x / pow2 ?e)) * pow2 ?e - x\<bar>"
  proof -
    have "\<bar>of_int (round_even (x / pow2 ?e)) - x / pow2 ?e\<bar> * pow2 ?e
        = \<bar>(of_int (round_even (x / pow2 ?e)) - x / pow2 ?e) * pow2 ?e\<bar>"
      by (simp only: abs_mult abs_of_pos [OF p])
    then show ?thesis by (simp add: left_diff_distrib)
  qed
  finally have "\<bar>fl x - x\<bar> \<le> pow2 ?e / 2"
    using assms by (simp add: fl_def fl_pos_def Let_def)
  also have "\<dots> = pow2 (expo x) / 2 ^ 53"
    by (simp add: pow2_diff) (simp add: pow2_def)
  also have "\<dots> \<le> x / 2 ^ 53"
    using expo_bounds(1) [OF assms] by simp
  finally show ?thesis .
qed

lemma fl_0 [simp]: "fl 0 = 0"
  by (simp add: fl_def)

lemma fl_error: "\<bar>fl x - x\<bar> \<le> \<bar>x\<bar> / 2 ^ 53"
proof (cases "x < 0")
  case True
  then have "fl x = - fl (- x)" by (simp add: fl_def)
  with fl_pos_error [of "- x"] True show ?thesis by (simp add: abs_if split: if_splits)
next
  case False
  then show ?thesis using fl_pos_error [of x] by (cases "x = 0") auto
qed

lemma fl_nonneg: "0 \<le> x \<Longrightarrow> 0 \<le> fl x"
proof -
  assume "0 \<le> x"
  then have "x - x / 2 ^ 53 \<le> fl x"
    using fl_error [of x] unfolding abs_le_iff by simp
  moreover have "0 \<le> x - x / 2 ^ 53" using \<open>0 \<le> x\<close> by simp
  ultimately show ?thesis by linarith
qed

text \<open>An integer of at most 53 bits is a double.\<close>

lemma fl_of_int:
  assumes "\<bar>i\<bar> < 2 ^ 53"
  shows "fl (of_int i) = of_int i"
proof -
  have main: "fl (of_int j) = of_int j" if j: "0 < j" "j < 2 ^ 53" for j :: int
  proof -
    let ?x = "of_int j :: rat"
    have x: "0 < ?x" using j by simp
    have "pow2 (expo ?x) < pow2 53"
      using expo_bounds(1) [OF x] j(2) by (simp add: pow2_def)
    then have le: "expo ?x \<le> 52"
      using pow2_mono [of 53 "expo ?x"] by linarith
    have "?x / pow2 (expo ?x - 52) = of_int (j * 2 ^ nat (52 - expo ?x))"
      using le by (simp add: pow2_diff pow2_powi power_int_def power_diff field_simps)
    then have "round_even (?x / pow2 (expo ?x - 52)) = j * 2 ^ nat (52 - expo ?x)"
      by (simp only: round_even_int)
    moreover have "of_int (j * 2 ^ nat (52 - expo ?x)) * pow2 (expo ?x - 52) = ?x"
      using \<open>?x / pow2 (expo ?x - 52) = of_int (j * 2 ^ nat (52 - expo ?x))\<close>
      by (metis nonzero_eq_divide_eq pow2_neq0)
    ultimately show ?thesis using x by (simp add: fl_def fl_pos_def Let_def)
  qed
  consider "i = 0" | "0 < i" | "i < 0" by linarith
  then show ?thesis
  proof cases
    case 3
    then have "fl (of_int i) = - fl (of_int (- i))" by (simp add: fl_def)
    with main [of "- i"] assms 3 show ?thesis by simp
  qed (use main [of i] assms in simp_all)
qed

lemma f_of_int_exact: "\<bar>i\<bar> < 2 ^ 53 \<Longrightarrow> f_of_int i = of_int i"
  by (simp add: f_of_int_def fl_of_int)

section \<open>Rounding is monotonic\<close>

lemma round_even_mono:
  assumes "m \<le> n"
  shows "round_even m \<le> round_even n"
proof (cases "\<lfloor>m\<rfloor> = \<lfloor>n\<rfloor>")
  case True
  then show ?thesis using assms by (auto simp: round_even_def Let_def)
next
  case False
  then have "\<lfloor>m\<rfloor> + 1 \<le> \<lfloor>n\<rfloor>" using floor_mono [OF assms] by linarith
  moreover have "round_even m \<le> \<lfloor>m\<rfloor> + 1" "\<lfloor>n\<rfloor> \<le> round_even n" by (auto simp: round_even_def Let_def)
  ultimately show ?thesis by linarith
qed

lemma fl_pos_bounds:
  assumes "0 < x"
  shows "pow2 (expo x) \<le> fl_pos x" and "fl_pos x \<le> pow2 (expo x + 1)"
proof -
  let ?e = "expo x - 52"
  have p: "pow2 (expo x) = of_int (2 ^ 52) * pow2 ?e" "pow2 (expo x + 1) = of_int (2 ^ 53) * pow2 ?e"
    using pow2_add [of 52 ?e] pow2_add [of 53 ?e] pow2_nat [of 52] pow2_nat [of 53] by (simp_all add: algebra_simps)
  have "of_int (2 ^ 52) \<le> x / pow2 ?e" "x / pow2 ?e \<le> of_int (2 ^ 53)"
    using expo_bounds [OF assms] unfolding p by (simp_all add: field_simps)
  then have "2 ^ 52 \<le> round_even (x / pow2 ?e)" "round_even (x / pow2 ?e) \<le> 2 ^ 53"
    by (metis round_even_int round_even_mono)+
  then have "of_int (2 ^ 52) \<le> (of_int (round_even (x / pow2 ?e)) :: rat)"
    "(of_int (round_even (x / pow2 ?e)) :: rat) \<le> of_int (2 ^ 53)"
    by (simp_all only: of_int_le_iff)
  then show "pow2 (expo x) \<le> fl_pos x" "fl_pos x \<le> pow2 (expo x + 1)"
    unfolding p fl_pos_def Let_def by (simp_all add: mult_right_mono less_imp_le)
qed

lemma fl_pos_mono:
  assumes "0 < x" and "x \<le> y"
  shows "fl_pos x \<le> fl_pos y"
proof -
  have y: "0 < y" using assms by linarith
  consider "expo x = expo y" | "expo x < expo y" | "expo y < expo x" by linarith
  then show ?thesis
  proof cases
    case 1
    have "round_even (x / pow2 (expo y - 52)) \<le> round_even (y / pow2 (expo y - 52))"
      using assms(2) by (intro round_even_mono divide_right_mono less_imp_le [OF pow2_pos])
    then show ?thesis by (simp add: fl_pos_def Let_def 1 mult_right_mono less_imp_le)
  next
    case 2
    have "fl_pos x \<le> pow2 (expo x + 1)" by (rule fl_pos_bounds(2) [OF assms(1)])
    also have "\<dots> \<le> pow2 (expo y)" using 2 by (intro pow2_mono) simp
    also have "\<dots> \<le> fl_pos y" by (rule fl_pos_bounds(1) [OF y])
    finally show ?thesis .
  next
    case 3
    have "y < pow2 (expo y + 1)" by (rule expo_bounds(2) [OF y])
    also have "\<dots> \<le> pow2 (expo x)" using 3 by (intro pow2_mono) simp
    also have "\<dots> \<le> x" by (rule expo_bounds(1) [OF assms(1)])
    finally show ?thesis using assms(2) by linarith
  qed
qed

lemma fl_mono:
  assumes "x \<le> y"
  shows "fl x \<le> fl y"
proof -
  consider "0 < x" | "x \<le> 0" "0 \<le> y" | "y < 0" by linarith
  then show ?thesis
  proof cases
    case 1
    then show ?thesis using fl_pos_mono [OF 1 assms] assms by (simp add: fl_def)
  next
    case 2
    have "fl x \<le> 0" using 2(1) fl_nonneg [of "- x"] by (cases "x = 0") (simp_all add: fl_def)
    with fl_nonneg [OF 2(2)] show ?thesis by linarith
  next
    case 3
    then have "fl_pos (- y) \<le> fl_pos (- x)" using assms by (intro fl_pos_mono) simp_all
    then show ?thesis using 3 assms by (simp add: fl_def)
  qed
qed

lemma f_add_mono: "a \<le> b \<Longrightarrow> f_add a c \<le> f_add b c"
  by (simp add: f_add_def fl_mono)

end
