(* ===== verification/Health.thy ===== *)
theory Health
  imports Py_Float
begin

text \<open>
  Provider health: \<^verbatim>\<open>backend/cs_uk_api/health.py\<close>.  A tracker holds, per provider, the window of the
  last outcomes, the time of the last error and an optional startup marker; \<open>status\<close> is the verdict
  \<^verbatim>\<open>/api/providers\<close>, the fan-outs and the watchdog read.  Error rates are computed in doubles
  (\<open>Py_Float\<close>); \<open>status_exact\<close> shows that rounding never changes a verdict of the default
  thresholds.  The time of an error is a parameter of \<open>record_outcome\<close> of any type \<open>'t\<close>, and
  \<open>last_error_at\<close> gives it back without rendering it as ISO text.
\<close>

datatype health_status = Status_ok | Status_degraded | Status_down

text \<open>The order of severity, and with it a linear order of the type.\<close>

fun severity :: "health_status \<Rightarrow> nat" where
  "severity Status_ok = 0"
| "severity Status_degraded = 1"
| "severity Status_down = 2"

instantiation health_status :: linorder
begin

definition less_eq_health_status :: "health_status \<Rightarrow> health_status \<Rightarrow> bool" where
  "less_eq_health_status a b \<longleftrightarrow> severity a \<le> severity b"

definition less_health_status :: "health_status \<Rightarrow> health_status \<Rightarrow> bool" where
  "less_health_status a b \<longleftrightarrow> severity a < severity b"

instance
proof
  fix a b c :: health_status
  show "a < b \<longleftrightarrow> a \<le> b \<and> \<not> b \<le> a"
    by (auto simp: less_eq_health_status_def less_health_status_def)
  show "a \<le> a" by (simp add: less_eq_health_status_def)
  show "a \<le> b \<Longrightarrow> b \<le> c \<Longrightarrow> a \<le> c" by (simp add: less_eq_health_status_def)
  show "a \<le> b \<Longrightarrow> b \<le> a \<Longrightarrow> a = b"
    by (cases a; cases b) (simp_all add: less_eq_health_status_def)
  show "a \<le> b \<or> b \<le> a" by (auto simp: less_eq_health_status_def)
qed

end

section \<open>The tracker\<close>

text \<open>\<^verbatim>\<open>HealthTracker\<close>: its four settings and its three dictionaries.\<close>

record 't tracker =
  window :: nat
  min_samples :: nat
  degraded_at :: rat
  down_at :: rat
  samples :: "(ustr, bool list) pdict"
  errors :: "(ustr, 't) pdict"
  markers :: "(ustr, ustr) pdict"

text \<open>\<^verbatim>\<open>HealthTracker()\<close>; the literals \<^verbatim>\<open>0.4\<close> and \<^verbatim>\<open>0.8\<close> are the doubles next to them.\<close>

definition new_tracker :: "'t tracker" where
  "new_tracker = \<lparr>window = 20, min_samples = 5, degraded_at = fl (2 / 5), down_at = fl (4 / 5),
                  samples = [], errors = [], markers = []\<rparr>"

text \<open>\<^verbatim>\<open>append\<close> on a \<^verbatim>\<open>deque(maxlen=w)\<close>: what overflows falls off the left end.\<close>

definition deque_append :: "nat \<Rightarrow> 'a list \<Rightarrow> 'a \<Rightarrow> 'a list" where
  "deque_append w xs x = drop (Suc (length xs) - w) (xs @ [x])"

definition record_outcome :: "'t \<Rightarrow> ustr \<Rightarrow> bool \<Rightarrow> 't tracker \<Rightarrow> 't tracker" where
  "record_outcome now p ok t =
     (let (xs, d) = dsetdefault p [] (samples t);
          t' = t\<lparr>samples := dset p (deque_append (window t) xs ok) d\<rparr>
      in if ok then t' else t'\<lparr>errors := dset p now (errors t')\<rparr>)"

definition mark_startup :: "ustr \<Rightarrow> ustr \<Rightarrow> 't tracker \<Rightarrow> 't tracker" where
  "mark_startup p reason t = t\<lparr>markers := dset p reason (markers t)\<rparr>"

definition startup_marker :: "'t tracker \<Rightarrow> ustr \<Rightarrow> ustr option" where
  "startup_marker t p = dget (markers t) p"

text \<open>\<^verbatim>\<open>1.0 - (sum(samples) / len(samples))\<close>, in doubles.\<close>

definition error_rate :: "bool list \<Rightarrow> rat" where
  "error_rate xs = f_sub 1 (f_div (of_nat (count_list xs True)) (of_nat (length xs)))"

definition status :: "'t tracker \<Rightarrow> ustr \<Rightarrow> health_status" where
  "status t p =
     (if p \<in> set (dkeys (markers t)) then Status_down
      else case dget (samples t) p of
        None \<Rightarrow> Status_ok
      | Some xs \<Rightarrow>
          if xs = [] \<or> length xs < min_samples t then Status_ok
          else if down_at t \<le> error_rate xs then Status_down
          else if degraded_at t \<le> error_rate xs then Status_degraded
          else Status_ok)"

definition last_error_at :: "'t tracker \<Rightarrow> ustr \<Rightarrow> 't option" where
  "last_error_at t p = dget (errors t) p"

definition reset_tracker :: "'t tracker \<Rightarrow> 't tracker" where
  "reset_tracker t = t\<lparr>samples := [], errors := [], markers := []\<rparr>"

section \<open>Verdict codes\<close>

definition item_verdict_codes :: "ustr list" where
  "item_verdict_codes = [u ''gated'', u ''not_found'', u ''invalid_translation'', u ''translation_missing'']"

definition lane_verdict_codes :: "ustr list" where
  "lane_verdict_codes =
     [u ''unreachable'', u ''upstream_unreachable'', u ''parse_failed'', u ''timeout'', u ''internal'']"

definition is_classified :: "ustr \<Rightarrow> bool" where
  "is_classified code \<longleftrightarrow> code \<in> set item_verdict_codes \<or> code \<in> set lane_verdict_codes"

text \<open>\<^verbatim>\<open>record_verdict\<close>; \<open>None\<close> is a failure that carries no code.\<close>

definition record_verdict :: "'t \<Rightarrow> ustr \<Rightarrow> ustr option \<Rightarrow> 't tracker \<Rightarrow> 't tracker" where
  "record_verdict now p code t =
     (if (case code of None \<Rightarrow> False | Some c \<Rightarrow> c \<in> set item_verdict_codes) then t
      else record_outcome now p False t)"

section \<open>The window\<close>

definition lastn :: "nat \<Rightarrow> 'a list \<Rightarrow> 'a list" where
  "lastn n xs = drop (length xs - n) xs"

lemma lastn_snoc: "deque_append w (lastn w xs) x = lastn w (xs @ [x])"
  by (cases "w \<le> length xs") (auto simp: deque_append_def lastn_def Suc_diff_le)

lemma length_lastn [simp]: "length (lastn n xs) = min n (length xs)"
  by (auto simp: lastn_def)

lemma lastn_0 [simp]: "lastn n [] = []"
  by (simp add: lastn_def)

lemma lastn_replicate: "n \<le> k \<Longrightarrow> lastn n (xs @ replicate k x) = replicate n x"
  by (auto simp: lastn_def)

text \<open>A run of outcomes, each with its time and its provider.\<close>

fun record_all :: "('t \<times> ustr \<times> bool) list \<Rightarrow> 't tracker \<Rightarrow> 't tracker" where
  "record_all [] t = t"
| "record_all ((now, p, ok) # es) t = record_all es (record_outcome now p ok t)"

definition outcomes_of :: "ustr \<Rightarrow> ('t \<times> ustr \<times> bool) list \<Rightarrow> bool list" where
  "outcomes_of p es = map (snd \<circ> snd) (filter (\<lambda>e. fst (snd e) = p) es)"

definition samples_of :: "'t tracker \<Rightarrow> ustr \<Rightarrow> bool list" where
  "samples_of t p = (case dget (samples t) p of None \<Rightarrow> [] | Some xs \<Rightarrow> xs)"

lemma samples_record:
  "samples_of (record_outcome now p ok t) q =
     (if q = p then deque_append (window t) (samples_of t p) ok else samples_of t q)"
  by (auto simp: record_outcome_def samples_of_def dsetdefault_def Let_def dget_dset map_add_def
      split: option.splits)

lemma record_frame [simp]:
  "window (record_outcome now p ok t) = window t"
  "min_samples (record_outcome now p ok t) = min_samples t"
  "degraded_at (record_outcome now p ok t) = degraded_at t"
  "down_at (record_outcome now p ok t) = down_at t"
  "markers (record_outcome now p ok t) = markers t"
  by (auto simp: record_outcome_def Let_def split: prod.splits)

lemma record_all_frame [simp]:
  "window (record_all es t) = window t"
  "min_samples (record_all es t) = min_samples t"
  "degraded_at (record_all es t) = degraded_at t"
  "down_at (record_all es t) = down_at t"
  "markers (record_all es t) = markers t"
  by (induction es t rule: record_all.induct) simp_all

lemma samples_record_all:
  "samples_of t p = lastn (window t) pre \<Longrightarrow>
   samples_of (record_all es t) p = lastn (window t) (pre @ outcomes_of p es)"
proof (induction es t arbitrary: pre rule: record_all.induct)
  case (1 t)
  then show ?case by (simp add: outcomes_of_def)
next
  case (2 now q ok es t)
  let ?t = "record_outcome now q ok t"
  let ?pre = "if q = p then pre @ [ok] else pre"
  have "samples_of ?t p = lastn (window ?t) ?pre"
    using "2.prems" by (auto simp: samples_record lastn_snoc)
  from "2.IH" [OF this] show ?case
    by (simp add: outcomes_of_def)
qed

lemma status_samples:
  "status t p =
     (if p \<in> set (dkeys (markers t)) then Status_down
      else if samples_of t p = [] \<or> length (samples_of t p) < min_samples t then Status_ok
      else if down_at t \<le> error_rate (samples_of t p) then Status_down
      else if degraded_at t \<le> error_rate (samples_of t p) then Status_degraded
      else Status_ok)"
  by (simp add: status_def samples_of_def split: option.splits)

section \<open>Rounding never changes a verdict\<close>

lemma fl_fifths:
  "fl (1 / 5) = 3602879701896397 / 18014398509481984"
  "fl (2 / 5) = 3602879701896397 / 9007199254740992"
  "fl (3 / 5) = 5404319552844595 / 9007199254740992"
  "fl (4 / 5) = 3602879701896397 / 4503599627370496"
proof -
  have "fl (1 / 5) = of_int 7205759403792794 * pow2 (- 3 - 52)"
    by (rule fl_eval [OF _ _ round_even_eq]) (simp_all add: pow2_def)
  then show "fl (1 / 5) = 3602879701896397 / 18014398509481984" by (simp add: pow2_def)
  have "fl (2 / 5) = of_int 7205759403792794 * pow2 (- 2 - 52)"
    by (rule fl_eval [OF _ _ round_even_eq]) (simp_all add: pow2_def)
  then show "fl (2 / 5) = 3602879701896397 / 9007199254740992" by (simp add: pow2_def)
  have "fl (3 / 5) = of_int 5404319552844595 * pow2 (- 1 - 52)"
    by (rule fl_eval [OF _ _ round_even_eq]) (simp_all add: pow2_def)
  then show "fl (3 / 5) = 5404319552844595 / 9007199254740992" by (simp add: pow2_def)
  have "fl (4 / 5) = of_int 7205759403792794 * pow2 (- 1 - 52)"
    by (rule fl_eval [OF _ _ round_even_eq]) (simp_all add: pow2_def)
  then show "fl (4 / 5) = 3602879701896397 / 4503599627370496" by (simp add: pow2_def)
qed

text \<open>At the two thresholds the rounded subtraction meets the rounded literal exactly.\<close>

lemma fl_one_minus_fifth: "fl (1 - fl (1 / 5)) = fl (4 / 5)"
proof -
  have "fl (14411518807585587 / 18014398509481984) = of_int 7205759403792794 * pow2 (- 1 - 52)"
    by (rule fl_eval [OF _ _ round_even_tie]) (simp_all add: pow2_def)
  then show ?thesis by (simp add: fl_fifths pow2_def)
qed

lemma fl_one_minus_three_fifths: "fl (1 - fl (3 / 5)) = fl (2 / 5)"
proof -
  have "fl (3602879701896397 / 9007199254740992) = of_int 7205759403792794 * pow2 (- 2 - 52)"
    by (rule fl_eval [OF _ _ round_even_eq]) (simp_all add: pow2_def)
  then show ?thesis by (simp add: fl_fifths pow2_def)
qed

lemma fl_unit_error:
  assumes "\<bar>x\<bar> \<le> 2"
  shows "\<bar>fl x - x\<bar> \<le> 2 / 2 ^ 53"
  using fl_error [of x] assms by (meson divide_right_mono order_trans zero_le_numeral zero_le_power)

text \<open>The float error rate is within \<open>2 ^ - 50\<close> of the exact one.\<close>

lemma error_rate_near:
  assumes "s \<le> n" and "0 < n"
  shows "\<bar>f_sub 1 (f_div (of_nat s) (of_nat n)) - (1 - of_nat s / of_nat n)\<bar> \<le> 1 / 2 ^ 50"
proof -
  define q :: rat where "q = of_nat s / of_nat n"
  have q: "0 \<le> q" "q \<le> 1" using assms by (simp_all add: q_def divide_le_eq)
  have a: "\<bar>fl q - q\<bar> \<le> 2 / 2 ^ 53" using fl_unit_error [of q] q by simp
  then have "\<bar>fl q - q\<bar> \<le> 1" by simp
  then have "\<bar>1 - fl q\<bar> \<le> 2" using q by linarith
  from fl_unit_error [OF this] a have "\<bar>fl (1 - fl q) - (1 - q)\<bar> \<le> 4 / 2 ^ 53"
    by linarith
  then show ?thesis by (simp add: f_sub_def f_div_def q_def)
qed

text \<open>
  Two fractions with small denominators that differ at all differ by far more than the rounding
  errors, so a comparison against a rounded threshold \<open>a / 5\<close> is decided by the exact numbers.
\<close>

lemma far_apart:
  fixes r x t y g :: rat
  assumes "\<bar>r - x\<bar> \<le> 1 / 2 ^ 50" "\<bar>t - y\<bar> \<le> 1 / 2 ^ 50" "1 / 2 ^ 48 < g"
  shows "g \<le> x - y \<Longrightarrow> t \<le> r" and "x - y \<le> - g \<Longrightarrow> r < t"
proof -
  define e :: rat where "e = 1 / 2 ^ 50"
  have "\<bar>r - x\<bar> \<le> e" "\<bar>t - y\<bar> \<le> e" "4 * e < g" "0 < e"
    using assms by (simp_all add: e_def)
  then show "g \<le> x - y \<Longrightarrow> t \<le> r" and "x - y \<le> - g \<Longrightarrow> r < t"
    by linarith+
qed

lemma rate_threshold:
  assumes sn: "s \<le> n" "0 < n" "n \<le> 2 ^ 40" and a: "a \<in> {2, 4 :: nat}"
    and tie: "fl (1 - fl (of_nat (5 - a) / 5)) = fl (of_nat a / 5)"
  shows "fl (of_nat a / 5) \<le> f_sub 1 (f_div (of_nat s) (of_nat n)) \<longleftrightarrow> a * n \<le> 5 * (n - s)"
proof -
  define r where "r = f_sub 1 (f_div (of_nat s) (of_nat n))"
  define d :: int where "d = 5 * (int n - int s) - int a * int n"
  have N: "0 < (of_nat n :: rat)" using sn by simp
  have r: "\<bar>r - (1 - of_nat s / of_nat n)\<bar> \<le> 1 / 2 ^ 50"
    using error_rate_near [OF sn(1,2)] by (simp add: r_def)
  have t: "\<bar>fl (of_nat a / 5) - of_nat a / 5\<bar> \<le> 1 / 2 ^ 50"
    using fl_unit_error [of "of_nat a / 5"] a by auto
  have gap: "(1 - of_nat s / of_nat n) - of_nat a / 5 = (of_int d / (5 * of_nat n) :: rat)"
    using N by (simp add: d_def field_simps)
  have small: "1 / 2 ^ 48 < (1 :: rat) / (5 * of_nat n)"
  proof -
    have "of_nat n \<le> (of_nat (2 ^ 40) :: rat)" using sn(3) by (simp only: of_nat_le_iff)
    then have "5 * of_nat n < (2 ^ 48 :: rat)" by simp
    then show ?thesis using N by (intro divide_strict_left_mono) simp_all
  qed
  have iff: "a * n \<le> 5 * (n - s) \<longleftrightarrow> 0 \<le> d"
  proof -
    have "a * n \<le> 5 * (n - s) \<longleftrightarrow> int (a * n) \<le> int (5 * (n - s))"
      by (simp only: of_nat_le_iff)
    also have "int (5 * (n - s)) = 5 * (int n - int s)" using sn(1) by simp
    finally show ?thesis by (simp add: d_def)
  qed
  consider "d = 0" | "0 < d" | "d < 0" by linarith
  then show ?thesis
  proof cases
    case 1
    then have "(of_nat s :: rat) / of_nat n = 1 - of_nat a / 5" using gap by (simp add: algebra_simps)
    then have "r = fl (1 - fl (of_nat (5 - a) / 5))"
      using a by (auto simp: r_def f_sub_def f_div_def)
    then show ?thesis using tie 1 by (simp add: iff r_def [symmetric])
  next
    case 2
    then have "1 / (5 * of_nat n) \<le> (of_int d :: rat) / (5 * of_nat n)"
      using N by (intro divide_right_mono) simp_all
    then have "fl (of_nat a / 5) \<le> r"
      by (intro far_apart(1) [OF r t small]) (simp only: gap)
    then show ?thesis using 2 by (simp add: iff r_def [symmetric])
  next
    case 3
    then have "(of_int d :: rat) / (5 * of_nat n) \<le> - 1 / (5 * of_nat n)"
      using N by (intro divide_right_mono) simp_all
    then have "r < fl (of_nat a / 5)"
      by (intro far_apart(2) [OF r t small]) (simp only: gap minus_divide_left)
    then show ?thesis using 3 by (simp add: iff r_def [symmetric])
  qed
qed

text \<open>The verdict in exact arithmetic, over the number of failures in the window.\<close>

definition exact_status :: "nat \<Rightarrow> bool list \<Rightarrow> health_status" where
  "exact_status m xs =
     (let n = length xs; f = count_list xs False in
      if n = 0 \<or> n < m then Status_ok
      else if 4 * n \<le> 5 * f then Status_down
      else if 2 * n \<le> 5 * f then Status_degraded
      else Status_ok)"

lemma count_list_bool: "count_list xs False = length xs - count_list xs True"
  by (induction xs) (auto simp: Suc_diff_le count_le_length)

lemma status_exact_aux:
  assumes "xs \<noteq> []" and "length xs \<le> 2 ^ 40"
  shows "fl (4 / 5) \<le> error_rate xs \<longleftrightarrow> 4 * length xs \<le> 5 * count_list xs False"
    and "fl (2 / 5) \<le> error_rate xs \<longleftrightarrow> 2 * length xs \<le> 5 * count_list xs False"
  using rate_threshold [of "count_list xs True" "length xs" 4] assms
    rate_threshold [of "count_list xs True" "length xs" 2]
  by (simp_all add: error_rate_def count_list_bool count_le_length fl_one_minus_fifth
      fl_one_minus_three_fifths)


section \<open>Verdicts of a run\<close>

definition mark_all :: "(ustr \<times> ustr) list \<Rightarrow> 't tracker \<Rightarrow> 't tracker" where
  "mark_all ms t = fold (\<lambda>(p, r). mark_startup p r) ms t"

lemma mark_all_frame [simp]:
  "samples (mark_all ms t) = samples t" "window (mark_all ms t) = window t"
  "min_samples (mark_all ms t) = min_samples t" "degraded_at (mark_all ms t) = degraded_at t"
  "down_at (mark_all ms t) = down_at t"
  unfolding mark_all_def by (induction ms arbitrary: t) (auto simp: mark_startup_def)

lemma keys_mark_all: "fst ` set (markers (mark_all ms t)) = fst ` set (markers t) \<union> fst ` set ms"
  unfolding mark_all_def
proof (induction ms arbitrary: t)
  case (Cons m ms)
  then show ?case by (cases m) (auto simp: mark_startup_def)
qed simp

lemma samples_of_run:
  "samples_of (record_all es (mark_all ms new_tracker)) p = lastn 20 (outcomes_of p es)"
  using samples_record_all [of "mark_all ms new_tracker" p "[]" es]
  by (simp add: samples_of_def new_tracker_def)

lemma status_after:
  "status (record_all es (mark_all ms new_tracker)) p =
     (if p \<in> fst ` set ms then Status_down else exact_status 5 (lastn 20 (outcomes_of p es)))"
proof -
  let ?t = "record_all es (mark_all ms (new_tracker :: 'a tracker))"
  let ?xs = "lastn 20 (outcomes_of p es)"
  have "?xs \<noteq> [] \<Longrightarrow> fl (4 / 5) \<le> error_rate ?xs \<longleftrightarrow> 4 * length ?xs \<le> 5 * count_list ?xs False"
    and "?xs \<noteq> [] \<Longrightarrow> fl (2 / 5) \<le> error_rate ?xs \<longleftrightarrow> 2 * length ?xs \<le> 5 * count_list ?xs False"
    by (rule status_exact_aux; simp)+
  moreover have "set (dkeys (markers ?t)) = fst ` set ms"
    using keys_mark_all [of ms "new_tracker :: 'a tracker"] by (simp add: new_tracker_def)
  moreover have "min_samples ?t = 5" "down_at ?t = fl (4 / 5)" "degraded_at ?t = fl (2 / 5)"
    by (simp_all add: new_tracker_def)
  ultimately show ?thesis
    unfolding status_samples samples_of_run
    by (simp only: exact_status_def Let_def length_0_conv if_True if_False split: if_splits) auto
qed

text \<open>C6: After any sequence of startup markers and recorded outcomes, a provider's status is
  down exactly when it carries a marker, and otherwise the verdict, computed in exact integer
  arithmetic, of its own last twenty outcomes: ok below five samples, down from 80% failures on,
  degraded from 40% on.  The floating-point division and subtraction of the code never move a
  verdict.\<close>

theorem status_of_run:
  "status (record_all es (mark_all ms new_tracker)) p =
     (if p \<in> fst ` set ms then Status_down else exact_status 5 (lastn 20 (outcomes_of p es)))"
  by (rule status_after)

lemma mark_all_Nil [simp]: "mark_all [] t = t"
  by (simp add: mark_all_def)

lemma lastn_append: "lastn n (xs @ ys) = lastn (n - length ys) xs @ lastn n ys"
proof -
  have t: "length xs + length ys - n - length xs = length ys - n" by arith
  have "drop (length xs + length ys - n) xs = drop (length xs - (n - length ys)) xs"
  proof (cases "length ys \<le> n")
    case True
    then have "length xs + length ys - n = length xs - (n - length ys)" by arith
    then show ?thesis by (simp only:)
  next
    case False
    then have "length xs \<le> length xs + length ys - n" "length xs \<le> length xs - (n - length ys)"
      by arith+
    then show ?thesis by (simp only: drop_all)
  qed
  then show ?thesis by (simp only: lastn_def length_append drop_append t)
qed

lemma outcomes_of_append: "outcomes_of p (es @ es') = outcomes_of p es @ outcomes_of p es'"
  by (simp add: outcomes_of_def)

lemma outcomes_of_replicate: "outcomes_of p (replicate k (now, p, ok)) = replicate k ok"
  by (induction k) (simp_all add: outcomes_of_def)

lemma lastn_replicate_min: "lastn n (replicate k x) = replicate (min n k) x"
  by (simp add: lastn_def)

lemma count_list_replicate: "count_list (replicate k x) y = (if x = y then k else 0)"
  by (induction k) auto

lemma count_le_len: "count_list xs x \<le> length xs"
  by (simp add: count_le_length)

text \<open>Thirteen successes in a row bring an unmarked provider back to ok, whatever its history,
  and sixteen failures in a row take it down.\<close>

theorem recovery_and_wedge:
  "status (record_all (es @ replicate (13 + k) (now, p, True)) new_tracker) p = Status_ok \<and>
   status (record_all (es @ replicate (16 + k) (now, p, False)) new_tracker) p = Status_down"
proof -
  let ?pre = "\<lambda>j. lastn (20 - (j + k)) (outcomes_of p es)"
  have run: "status (record_all (es @ replicate (j + k) (now, p, b)) new_tracker) p =
      exact_status 5 (?pre j @ replicate (min 20 (j + k)) b)" for j b
    using status_after [of "es @ replicate (j + k) (now, p, b)" "[]" p]
    by (simp add: outcomes_of_append outcomes_of_replicate lastn_append lastn_replicate_min)
  have len: "length (?pre j) \<le> 20 - (j + k)" for j by simp
  have "exact_status 5 (?pre 13 @ replicate (min 20 (13 + k)) True) = Status_ok"
  proof -
    have "c \<le> l \<Longrightarrow> l \<le> 20 - (13 + k) \<Longrightarrow> \<not> 2 * (l + min 20 (13 + k)) \<le> 5 * c" for c l :: nat
      by (auto simp: min_def split: if_splits)
    from this [OF count_le_len len] have "\<not> 2 * (length (?pre 13) + min 20 (13 + k))
        \<le> 5 * count_list (?pre 13) False" .
    then show ?thesis
      by (simp add: exact_status_def Let_def count_list_replicate del: length_lastn)
  qed
  moreover have "exact_status 5 (?pre 16 @ replicate (min 20 (16 + k)) False) = Status_down"
  proof -
    have "l \<le> 20 - (16 + k) \<Longrightarrow> 5 \<le> l + min 20 (16 + k) \<and>
        4 * (l + min 20 (16 + k)) \<le> 5 * (c + min 20 (16 + k))" for c l :: nat
      by (auto simp: min_def split: if_splits)
    from this [OF len] have "5 \<le> length (?pre 16) + min 20 (16 + k)"
      and "4 * (length (?pre 16) + min 20 (16 + k)) \<le> 5 * (count_list (?pre 16) False + min 20 (16 + k))"
      by blast+
    then show ?thesis
      by (simp add: exact_status_def Let_def count_list_replicate del: length_lastn)
  qed
  ultimately show ?thesis by (simp only: run)
qed

end
