(* ===== verification/Watchdog.thy ===== *)
theory Watchdog
  imports Health
begin

text \<open>
  The all-providers-down watchdog: \<^verbatim>\<open>backend/cs_uk_api/watchdog.py\<close> and the loop that ticks it
  (\<^verbatim>\<open>_watchdog_loop\<close> of \<^verbatim>\<open>lifecycle.py\<close>).  The tracker it reads is the interface \<open>health_source\<close>
  (the class \<^verbatim>\<open>HealthSource\<close>), interpreted on \<open>Health\<close>.  The monotonic clock is a rational number
  of seconds; closing the shared HTTP client is an event that succeeds or raises.
\<close>

section \<open>The wedge signal\<close>

text \<open>\<^verbatim>\<open>all_relevant_down\<close>, over a tracker's two readings and the registered providers.\<close>

definition all_relevant_down :: "(ustr \<Rightarrow> health_status) \<Rightarrow> (ustr \<Rightarrow> ustr option) \<Rightarrow> ustr list \<Rightarrow> bool" where
  "all_relevant_down st marker providers =
     (let relevant = filter (\<lambda>p. marker p = None) providers
      in if relevant = [] then False else list_all (\<lambda>p. st p = Status_down) relevant)"

locale health_source =
  fixes status_of :: "'s \<Rightarrow> ustr \<Rightarrow> health_status"
    and marker_of :: "'s \<Rightarrow> ustr \<Rightarrow> ustr option"
  assumes marker_down: "marker_of s p \<noteq> None \<Longrightarrow> status_of s p = Status_down"
begin

lemma wedge_means_down:
  assumes "all_relevant_down (status_of s) (marker_of s) ps" and "p \<in> set ps"
  shows "status_of s p = Status_down"
  using assms marker_down [of s p]
  by (cases "marker_of s p")
    (auto simp: all_relevant_down_def Let_def list_all_iff split: if_splits)

lemma one_ok_vetoes:
  assumes "p \<in> set ps" and "status_of s p < Status_down"
  shows "\<not> all_relevant_down (status_of s) (marker_of s) ps"
  using wedge_means_down [OF _ assms(1)] assms(2) by auto

lemma wedge_iff:
  "all_relevant_down (status_of s) (marker_of s) ps \<longleftrightarrow>
   (\<forall>p \<in> set ps. status_of s p = Status_down) \<and> (\<exists>p \<in> set ps. marker_of s p = None)"
  (is "?wedge \<longleftrightarrow> ?all \<and> ?some")
proof
  assume w: ?wedge
  then have ?some by (auto simp: all_relevant_down_def Let_def filter_empty_conv split: if_splits)
  with wedge_means_down [OF w] show "?all \<and> ?some" by blast
next
  assume "?all \<and> ?some"
  then show ?wedge by (auto simp: all_relevant_down_def Let_def list_all_iff filter_empty_conv)
qed

end

interpretation tracker_source: health_source status startup_marker
  by unfold_locales (auto simp: status_def startup_marker_def map_of_eq_None_iff)

section \<open>The cooldown\<close>

record watchdog =
  cooldown_s :: rat
  last_reset_at :: "rat option"
  reset_count :: nat

definition new_watchdog :: "rat \<Rightarrow> watchdog" where
  "new_watchdog c = \<lparr>cooldown_s = c, last_reset_at = None, reset_count = 0\<rparr>"

definition should_reset :: "bool \<Rightarrow> rat \<Rightarrow> watchdog \<Rightarrow> bool" where
  "should_reset down now w =
     (if \<not> down then False
      else case last_reset_at w of
        None \<Rightarrow> True
      | Some l \<Rightarrow> \<not> now - l < cooldown_s w)"

text \<open>
  \<^verbatim>\<open>check_and_reset\<close>: the clock is read at the guard and again once the client is closed.  \<open>Inl ()\<close>
  is the exception of a failed close, which leaves the watchdog as it was.
\<close>

record tick =
  tick_down :: bool
  tick_now :: rat
  tick_closed :: bool
  tick_after :: rat

definition check_and_reset :: "tick \<Rightarrow> watchdog \<Rightarrow> unit + bool \<times> watchdog" where
  "check_and_reset t w =
     (if \<not> should_reset (tick_down t) (tick_now t) w then Inr (False, w)
      else if \<not> tick_closed t then Inl ()
      else Inr (True, w\<lparr>last_reset_at := Some (tick_after t), reset_count := Suc (reset_count w)\<rparr>))"

definition reset_watchdog :: "watchdog \<Rightarrow> watchdog" where
  "reset_watchdog w = w\<lparr>last_reset_at := None, reset_count := 0\<rparr>"

text \<open>
  The background loop: a tick that raises is logged and the loop goes on.  The result is the times
  of the resets and the final state.
\<close>

fun watchdog_loop :: "tick list \<Rightarrow> watchdog \<Rightarrow> rat list \<times> watchdog" where
  "watchdog_loop [] w = ([], w)"
| "watchdog_loop (t # ts) w =
     (case check_and_reset t w of
        Inl _ \<Rightarrow> watchdog_loop ts w
      | Inr (False, w') \<Rightarrow> watchdog_loop ts w'
      | Inr (True, w') \<Rightarrow>
          (let (rs, w'') = watchdog_loop ts w' in (tick_after t # rs, w'')))"

text \<open>A monotone clock: within a tick and from one tick to the next.\<close>

fun clock_ok :: "rat \<Rightarrow> tick list \<Rightarrow> bool" where
  "clock_ok now [] = True"
| "clock_ok now (t # ts) \<longleftrightarrow> now \<le> tick_now t \<and> tick_now t \<le> tick_after t \<and> clock_ok (tick_after t) ts"

lemma check_and_reset_cases:
  obtains (idle) "check_and_reset t w = Inr (False, w)" "\<not> should_reset (tick_down t) (tick_now t) w"
  | (failed) "check_and_reset t w = Inl ()"
  | (fired) "should_reset (tick_down t) (tick_now t) w" "tick_closed t"
      "check_and_reset t w =
         Inr (True, w\<lparr>last_reset_at := Some (tick_after t), reset_count := Suc (reset_count w)\<rparr>)"
  by (cases "should_reset (tick_down t) (tick_now t) w"; cases "tick_closed t")
    (auto simp: check_and_reset_def)

lemma resets_after_cooldown:
  assumes "clock_ok now ts" and "\<And>l. last_reset_at w = Some l \<Longrightarrow> l \<le> now"
    and "0 \<le> cooldown_s w" and "last_reset_at w = Some l" and "r \<in> set (fst (watchdog_loop ts w))"
  shows "l + cooldown_s w \<le> r"
  using assms
proof (induction ts arbitrary: now w l)
  case (Cons t ts)
  show ?case
  proof (cases rule: check_and_reset_cases [of t w])
    case idle
    with Cons.prems Cons.IH [of "tick_after t" w l] show ?thesis by force
  next
    case failed
    with Cons.prems Cons.IH [of "tick_after t" w l] show ?thesis by force
  next
    case fired
    let ?w = "w\<lparr>last_reset_at := Some (tick_after t), reset_count := Suc (reset_count w)\<rparr>"
    have first: "l + cooldown_s w \<le> tick_after t"
      using fired(1) Cons.prems(1,4) by (auto simp: should_reset_def split: if_splits)
    from fired(3) Cons.prems(5) have "r = tick_after t \<or> r \<in> set (fst (watchdog_loop ts ?w))"
      by (auto simp: case_prod_beta Let_def)
    moreover have "r \<in> set (fst (watchdog_loop ts ?w)) \<Longrightarrow> tick_after t + cooldown_s w \<le> r"
      using Cons.IH [of "tick_after t" ?w "tick_after t"] Cons.prems(1,3) by simp
    ultimately show ?thesis using first Cons.prems(3) by auto
  qed
qed simp

lemma resets_spaced:
  assumes "clock_ok now ts" and "\<And>l. last_reset_at w = Some l \<Longrightarrow> l \<le> now" and "0 \<le> cooldown_s w"
  shows "sorted_wrt (\<lambda>a b. a + cooldown_s w \<le> b) (fst (watchdog_loop ts w))"
  using assms
proof (induction ts arbitrary: now w)
  case (Cons t ts)
  have mono: "\<And>l. last_reset_at w = Some l \<Longrightarrow> l \<le> tick_after t" and clock: "clock_ok (tick_after t) ts"
    using Cons.prems(1,2) by force+
  show ?case
  proof (cases rule: check_and_reset_cases [of t w])
    case idle
    with Cons.IH [OF clock mono Cons.prems(3)] show ?thesis by simp
  next
    case failed
    with Cons.IH [OF clock mono Cons.prems(3)] show ?thesis by simp
  next
    case fired
    let ?w = "w\<lparr>last_reset_at := Some (tick_after t), reset_count := Suc (reset_count w)\<rparr>"
    have "sorted_wrt (\<lambda>a b. a + cooldown_s w \<le> b) (fst (watchdog_loop ts ?w))"
      using Cons.IH [OF clock, of ?w] Cons.prems(3) by simp
    moreover have "tick_after t + cooldown_s w \<le> r" if "r \<in> set (fst (watchdog_loop ts ?w))" for r
      using resets_after_cooldown [OF clock, of ?w "tick_after t" r] Cons.prems(3) that by simp
    ultimately show ?thesis using fired(3) by (auto simp: case_prod_beta Let_def)
  qed
qed simp

lemma resets_counted:
  "reset_count (snd (watchdog_loop ts w)) = reset_count w + length (fst (watchdog_loop ts w)) \<and>
   cooldown_s (snd (watchdog_loop ts w)) = cooldown_s w"
proof (induction ts arbitrary: w)
  case (Cons t ts)
  show ?case
    by (cases rule: check_and_reset_cases [of t w])
      (use Cons.IH in \<open>auto simp: case_prod_beta Let_def\<close>)
qed simp

text \<open>C30: Over any run of ticks on a monotone clock, two resets of the shared client are never
  closer together than the cooldown, and the reset counter counts exactly the resets.\<close>

theorem watchdog_rate_limited:
  assumes "0 \<le> c" and "clock_ok now ts"
  shows "sorted_wrt (\<lambda>a b. a + c \<le> b) (fst (watchdog_loop ts (new_watchdog c))) \<and>
    reset_count (snd (watchdog_loop ts (new_watchdog c))) =
      length (fst (watchdog_loop ts (new_watchdog c)))"
  using resets_spaced [OF assms(2), of "new_watchdog c"] assms(1)
    resets_counted [of ts "new_watchdog c"]
  by (simp add: new_watchdog_def)

theorem watchdog_rate_limited_witness:
  "fst (watchdog_loop [\<lparr>tick_down = True, tick_now = 10, tick_closed = True, tick_after = 11\<rparr>,
      \<lparr>tick_down = True, tick_now = 60, tick_closed = True, tick_after = 61\<rparr>,
      \<lparr>tick_down = True, tick_now = 400, tick_closed = True, tick_after = 401\<rparr>] (new_watchdog 300))
    = [11, 401] \<and> sorted_wrt (\<lambda>a b. a + 300 \<le> b) [11, 401 :: rat]"
proof -
  let ?ts = "[\<lparr>tick_down = True, tick_now = 10, tick_closed = True, tick_after = 11\<rparr>,
      \<lparr>tick_down = True, tick_now = 60, tick_closed = True, tick_after = 61\<rparr>,
      \<lparr>tick_down = True, tick_now = 400, tick_closed = True, tick_after = 401\<rparr>]"
  have "fst (watchdog_loop ?ts (new_watchdog 300)) = [11, 401]"
    by (simp add: check_and_reset_def should_reset_def new_watchdog_def)
  with watchdog_rate_limited [of 300 0 ?ts] show ?thesis by simp
qed

text \<open>A tick resets the client exactly when at least one provider carries no startup marker,
  every provider, marked or not, reports down, and the cooldown since the last reset has elapsed:
  one provider that is not down vetoes it.\<close>

theorem watchdog_fires_iff:
  "should_reset (all_relevant_down (status tr) (startup_marker tr) ps) now w \<longleftrightarrow>
   list_all (\<lambda>p. status tr p = Status_down) ps \<and> (\<exists>p \<in> set ps. startup_marker tr p = None) \<and>
   (last_reset_at w = None \<or> cooldown_s w \<le> now - the (last_reset_at w))"
  by (auto simp: list_all_iff should_reset_def tracker_source.wedge_iff split: option.splits)

end
