(* ===== verification/Play_Attestation.thy ===== *)
theory Play_Attestation
  imports Health
begin

text \<open>
  What the server did with every play request: \<^verbatim>\<open>backend/cs_uk_api/play_attestation.py\<close> and the
  model classes \<^verbatim>\<open>PlayFault\<close>, \<^verbatim>\<open>PlayProviderAttestation\<close> and \<^verbatim>\<open>PlayAttestation\<close> of \<^verbatim>\<open>models.py\<close>.
  The timestamp of a fault is a parameter of any type \<open>'t\<close>.
\<close>

datatype play_surface = S_playbackinfo | S_stream | S_segment | S_download | S_native | S_teleport
datatype play_outcome = Refused | No_progress

record 't play_fault =
  fault_at :: 't
  outcome :: play_outcome
  fault_provider :: ustr
  item_id :: ustr
  fault_code :: "ustr option"
  surface :: "play_surface option"

record bucket =
  b_served :: nat
  b_refused :: nat
  b_refused_codes :: "(ustr, nat) pdict"
  b_no_progress :: nat

definition new_bucket :: bucket where
  "new_bucket = \<lparr>b_served = 0, b_refused = 0, b_refused_codes = [], b_no_progress = 0\<rparr>"

record 't attestation =
  recent_max :: nat
  recent :: "'t play_fault list"
  buckets :: "(ustr, bucket) pdict"

definition new_attestation :: "nat \<Rightarrow> 't attestation" where
  "new_attestation m = \<lparr>recent_max = m, recent = [], buckets = []\<rparr>"

definition unknown_provider :: ustr where
  "unknown_provider = u ''unknown''"

text \<open>\<^verbatim>\<open>bucket_key\<close>: \<^verbatim>\<open>provider_id or UNKNOWN_PROVIDER\<close>; the empty string is falsy too.\<close>

definition bucket_key :: "ustr option \<Rightarrow> ustr" where
  "bucket_key p = (case p of None \<Rightarrow> unknown_provider | Some s \<Rightarrow> if s = [] then unknown_provider else s)"

text \<open>\<^verbatim>\<open>self._bucket(p)\<close> followed by an update of the bucket in place.\<close>

definition bump_bucket :: "ustr option \<Rightarrow> (bucket \<Rightarrow> bucket) \<Rightarrow> 't attestation \<Rightarrow> 't attestation" where
  "bump_bucket p f a =
     (let (b, d) = dsetdefault (bucket_key p) new_bucket (buckets a)
      in a\<lparr>buckets := dset (bucket_key p) (f b) d\<rparr>)"

definition push_fault :: "'t play_fault \<Rightarrow> 't attestation \<Rightarrow> 't attestation" where
  "push_fault x a = a\<lparr>recent := deque_append (recent_max a) (recent a) x\<rparr>"

definition att_served :: "ustr option \<Rightarrow> 't attestation \<Rightarrow> 't attestation" where
  "att_served p = bump_bucket p (\<lambda>b. b\<lparr>b_served := Suc (b_served b)\<rparr>)"

definition refusal_key :: "ustr option \<Rightarrow> ustr" where
  "refusal_key code = (case code of None \<Rightarrow> u ''unknown'' | Some c \<Rightarrow> if c = [] then u ''unknown'' else c)"

definition count_code :: "ustr \<Rightarrow> (ustr, nat) pdict \<Rightarrow> (ustr, nat) pdict" where
  "count_code k d = dset k ((case dget d k of None \<Rightarrow> 0 | Some n \<Rightarrow> n) + 1) d"

definition att_refused ::
  "'t \<Rightarrow> ustr option \<Rightarrow> ustr \<Rightarrow> ustr option \<Rightarrow> play_surface \<Rightarrow> 't attestation \<Rightarrow> 't attestation" where
  "att_refused now p item code sf a =
     push_fault \<lparr>fault_at = now, outcome = Refused, fault_provider = bucket_key p, item_id = item,
                 fault_code = code, surface = Some sf\<rparr>
       (bump_bucket p
          (\<lambda>b. b\<lparr>b_refused := Suc (b_refused b),
                 b_refused_codes := count_code (refusal_key code) (b_refused_codes b)\<rparr>) a)"

definition att_no_progress :: "'t \<Rightarrow> ustr option \<Rightarrow> ustr \<Rightarrow> 't attestation \<Rightarrow> 't attestation" where
  "att_no_progress now p item a =
     push_fault \<lparr>fault_at = now, outcome = No_progress, fault_provider = bucket_key p, item_id = item,
                 fault_code = None, surface = None\<rparr>
       (bump_bucket p (\<lambda>b. b\<lparr>b_no_progress := Suc (b_no_progress b)\<rparr>) a)"

text \<open>\<^verbatim>\<open>snapshot\<close>: the buckets sorted by provider, and the tail, oldest first.\<close>

definition att_snapshot :: "'t attestation \<Rightarrow> (ustr, bucket) pdict \<times> 't play_fault list" where
  "att_snapshot a = (sort_key fst (buckets a), recent a)"

definition att_reset :: "'t attestation \<Rightarrow> 't attestation" where
  "att_reset a = a\<lparr>recent := [], buckets := []\<rparr>"

section \<open>Runs of recorded events\<close>

datatype 't play_event =
    Ev_served "ustr option"
  | Ev_refused 't "ustr option" ustr "ustr option" play_surface
  | Ev_no_progress 't "ustr option" ustr

fun record_event :: "'t play_event \<Rightarrow> 't attestation \<Rightarrow> 't attestation" where
  "record_event (Ev_served p) a = att_served p a"
| "record_event (Ev_refused now p i c s) a = att_refused now p i c s a"
| "record_event (Ev_no_progress now p i) a = att_no_progress now p i a"

definition record_events :: "'t play_event list \<Rightarrow> 't attestation \<Rightarrow> 't attestation" where
  "record_events es a = fold record_event es a"

fun event_bucket :: "'t play_event \<Rightarrow> ustr" where
  "event_bucket (Ev_served p) = bucket_key p"
| "event_bucket (Ev_refused now p i c s) = bucket_key p"
| "event_bucket (Ev_no_progress now p i) = bucket_key p"

fun is_served :: "'t play_event \<Rightarrow> bool" where
  "is_served (Ev_served p) = True" | "is_served e = False"

fun is_no_progress :: "'t play_event \<Rightarrow> bool" where
  "is_no_progress (Ev_no_progress now p i) = True" | "is_no_progress e = False"

fun event_code :: "'t play_event \<Rightarrow> ustr option" where
  "event_code (Ev_refused now p i c s) = Some (refusal_key c)" | "event_code e = None"

fun event_fault :: "'t play_event \<Rightarrow> 't play_fault list" where
  "event_fault (Ev_served p) = []"
| "event_fault (Ev_refused now p i c s) =
     [\<lparr>fault_at = now, outcome = Refused, fault_provider = bucket_key p, item_id = i, fault_code = c,
       surface = Some s\<rparr>]"
| "event_fault (Ev_no_progress now p i) =
     [\<lparr>fault_at = now, outcome = No_progress, fault_provider = bucket_key p, item_id = i, fault_code = None,
       surface = None\<rparr>]"

definition bucket_of :: "'t attestation \<Rightarrow> ustr \<Rightarrow> bucket" where
  "bucket_of a k = (case dget (buckets a) k of None \<Rightarrow> new_bucket | Some b \<Rightarrow> b)"

definition code_count :: "bucket \<Rightarrow> ustr \<Rightarrow> nat" where
  "code_count b c = (case dget (b_refused_codes b) c of None \<Rightarrow> 0 | Some n \<Rightarrow> n)"

lemma bucket_of_bump:
  "bucket_of (bump_bucket p f a) k = (if k = bucket_key p then f (bucket_of a k) else bucket_of a k)"
  by (auto simp: bump_bucket_def bucket_of_def dsetdefault_def Let_def dget_dset map_add_def
      split: option.splits)

lemma bump_frame [simp]:
  "recent (bump_bucket p f a) = recent a" "recent_max (bump_bucket p f a) = recent_max a"
  by (auto simp: bump_bucket_def Let_def split: prod.splits)

lemma push_frame [simp]:
  "buckets (push_fault x a) = buckets a" "recent_max (push_fault x a) = recent_max a"
  "bucket_of (push_fault x a) k = bucket_of a k"
  by (simp_all add: push_fault_def bucket_of_def)

lemma code_count_count [simp]:
  "(case dget (count_code k d) c of None \<Rightarrow> 0 | Some n \<Rightarrow> n) =
     (case dget d c of None \<Rightarrow> 0 | Some n \<Rightarrow> n) + (if c = k then 1 else 0)"
  by (auto simp: count_code_def dget_dset)

lemmas event_defs = att_served_def att_refused_def att_no_progress_def

lemma event_buckets:
  "b_served (bucket_of (record_event e a) k) =
     b_served (bucket_of a k) + (if event_bucket e = k \<and> is_served e then 1 else 0)"
  "b_refused (bucket_of (record_event e a) k) =
     b_refused (bucket_of a k) + (if event_bucket e = k \<and> event_code e \<noteq> None then 1 else 0)"
  "b_no_progress (bucket_of (record_event e a) k) =
     b_no_progress (bucket_of a k) + (if event_bucket e = k \<and> is_no_progress e then 1 else 0)"
  "code_count (bucket_of (record_event e a) k) c =
     code_count (bucket_of a k) c + (if event_bucket e = k \<and> event_code e = Some c then 1 else 0)"
  by (cases e; auto simp: event_defs bucket_of_bump code_count_def)+

lemma event_recent: "recent_max (record_event e a) = recent_max a"
  by (cases e) (simp_all add: event_defs)

lemma event_tail:
  assumes "recent a = lastn (recent_max a) fs"
  shows "recent (record_event e a) = lastn (recent_max a) (fs @ event_fault e)"
  using assms by (cases e) (simp_all add: event_defs push_fault_def lastn_snoc)

lemma record_events_Nil [simp]: "record_events [] a = a"
  and record_events_Cons [simp]: "record_events (e # es) a = record_events es (record_event e a)"
  by (simp_all add: record_events_def)

lemma events_counts:
  "b_served (bucket_of (record_events es a) k) =
     b_served (bucket_of a k) + length (filter (\<lambda>e. event_bucket e = k \<and> is_served e) es)"
  "b_refused (bucket_of (record_events es a) k) =
     b_refused (bucket_of a k) + length (filter (\<lambda>e. event_bucket e = k \<and> event_code e \<noteq> None) es)"
  "b_no_progress (bucket_of (record_events es a) k) =
     b_no_progress (bucket_of a k) + length (filter (\<lambda>e. event_bucket e = k \<and> is_no_progress e) es)"
  "code_count (bucket_of (record_events es a) k) c =
     code_count (bucket_of a k) c + length (filter (\<lambda>e. event_bucket e = k \<and> event_code e = Some c) es)"
  by (induction es arbitrary: a) (auto simp: event_buckets)

lemma events_tail:
  "recent a = lastn (recent_max a) fs \<Longrightarrow>
   recent (record_events es a) = lastn (recent_max a) (fs @ concat (map event_fault es))"
proof (induction es arbitrary: a fs)
  case (Cons e es)
  from Cons.IH [OF event_tail [OF Cons.prems, of e, folded event_recent [of e a]]]
  show ?case by (simp add: event_recent)
qed simp

text \<open>After any sequence of recorded play outcomes, the snapshot's counters of a provider are
  the exact numbers of its served, refused and no-progress events, the breakdown counts each refusal
  code exactly, and the tail is the last \<open>recent_max\<close> faults in the order they happened.\<close>

theorem attestation_counts_events:
  "let a = record_events es (new_attestation m) in
     b_served (bucket_of a k) = length (filter (\<lambda>e. event_bucket e = k \<and> is_served e) es) \<and>
     b_refused (bucket_of a k) = length (filter (\<lambda>e. event_bucket e = k \<and> event_code e \<noteq> None) es) \<and>
     b_no_progress (bucket_of a k) = length (filter (\<lambda>e. event_bucket e = k \<and> is_no_progress e) es) \<and>
     code_count (bucket_of a k) c =
       length (filter (\<lambda>e. event_bucket e = k \<and> event_code e = Some c) es) \<and>
     recent a = lastn m (concat (map event_fault es))"
proof -
  have z: "bucket_of (new_attestation m) k = new_bucket"
    by (simp add: bucket_of_def new_attestation_def)
  have "recent (record_events es (new_attestation m)) = lastn m (concat (map event_fault es))"
    using events_tail [of "new_attestation m" "[]" es] by (simp add: new_attestation_def)
  then show ?thesis
    unfolding Let_def events_counts z by (simp add: new_bucket_def code_count_def)
qed

end
