(* ===== verification/Play_Request.thy ===== *)
theory Play_Request
  imports Play_Attestation Wire_Identity
begin

text \<open>
  The play-request seam, \<^verbatim>\<open>backend/cs_uk_api/play_request.py\<close>: one provider attempt, and what it leaves in
  the health tracker (\<open>Health\<close>) and in the play attestation (\<open>Play_Attestation\<close>).  The registered
  providers are a parameter: the answers of their two coroutines.  \<open>calls\<close> is the sequence of
  \<^verbatim>\<open>provider.stream\<close> calls made, so that the order of the translation gate and the call shows.
\<close>

section \<open>Providers and requests\<close>

datatype translations_answer = Hook_raises | Not_applicable | Allowed "ustr list"

text \<open>\<open>Provider_error c e\<close> is \<^verbatim>\<open>ProviderError\<close> with code \<open>c\<close> and \<^verbatim>\<open>engine_path\<close> flag \<open>e\<close>.\<close>

datatype 's stream_answer = Streamed 's | Provider_error ustr bool | Crashed

record 's provider_ops =
  episode_translations :: "ustr \<Rightarrow> translations_answer"
  stream_of :: "ustr \<Rightarrow> ustr option \<Rightarrow> 's stream_answer"

type_synonym 's registry = "ustr \<Rightarrow> 's provider_ops option"

record 't play_request =
  rq_provider :: ustr
  rq_external :: ustr
  rq_translation :: "ustr option"
  rq_item :: ustr
  rq_surface :: "play_surface option"
  rq_tracker_time :: 't
  rq_fault_time :: 't

record 's play_attempt =
  pa_stream :: "'s option"
  pa_provider :: "ustr option"
  pa_code :: "ustr option"

record 't play_state =
  health :: "'t tracker"
  attest :: "'t attestation"
  calls :: "(ustr \<times> ustr \<times> ustr option) list"

definition engine_tracker_id :: ustr where "engine_tracker_id = u ''yts:engine''"

definition served :: "'s play_attempt \<Rightarrow> bool" where
  "served a \<longleftrightarrow> pa_stream a \<noteq> None"

definition playable_target :: "'s registry \<Rightarrow> ustr \<Rightarrow> (ustr \<times> ustr) option" where
  "playable_target reg i =
     (let (p, e) = split_wire_id i in if reg p \<noteq> None \<and> e \<noteq> [] then Some (p, e) else None)"

section \<open>One attempt\<close>

definition attest_refusal ::
  "'t \<Rightarrow> ustr option \<Rightarrow> ustr \<Rightarrow> ustr option \<Rightarrow> play_surface option \<Rightarrow> 't play_state \<Rightarrow> 't play_state" where
  "attest_refusal now p i code sf st =
     (case sf of None \<Rightarrow> st | Some s \<Rightarrow> st\<lparr>attest := att_refused now p i code s (attest st)\<rparr>)"

text \<open>The code of the \<^verbatim>\<open>ProviderError\<close> that \<^verbatim>\<open>_translation_error\<close> answers.\<close>

definition translation_error :: "'s provider_ops \<Rightarrow> ustr \<Rightarrow> ustr option \<Rightarrow> ustr option" where
  "translation_error pv e translation =
     (case translation of
        None \<Rightarrow> None
      | Some t \<Rightarrow>
          (case episode_translations pv e of
             Hook_raises \<Rightarrow> None
           | Not_applicable \<Rightarrow> None
           | Allowed ts \<Rightarrow> if t \<notin> set ts then Some (u ''invalid_translation'') else None))"

definition attempt_play ::
  "'s registry \<Rightarrow> (ustr option \<Rightarrow> ustr option) \<Rightarrow> 't play_request \<Rightarrow> 't play_state \<Rightarrow>
   's play_attempt \<times> 't play_state" where
  "attempt_play reg refusal_code rq st =
     (let p = rq_provider rq; e = rq_external rq; refuse = attest_refusal (rq_fault_time rq) in
      case reg p of
        None \<Rightarrow>
          (\<lparr>pa_stream = None, pa_provider = None, pa_code = Some (u ''not_found'')\<rparr>,
           refuse None (rq_item rq) (refusal_code (Some (u ''not_found''))) (rq_surface rq) st)
      | Some pv \<Rightarrow>
          (case translation_error pv e (rq_translation rq) of
             Some code \<Rightarrow>
               (\<lparr>pa_stream = None, pa_provider = Some p, pa_code = Some code\<rparr>,
                refuse (Some p) (rq_item rq) (refusal_code (Some code)) (rq_surface rq) st)
           | None \<Rightarrow>
               (let st1 = st\<lparr>calls := calls st @ [(p, e, rq_translation rq)]\<rparr> in
                case stream_of pv e (rq_translation rq) of
                  Provider_error code engine \<Rightarrow>
                    (let attributed = (if engine then engine_tracker_id else p);
                         st2 = (if code \<in> set item_verdict_codes then st1
                                else st1\<lparr>health := record_verdict (rq_tracker_time rq) attributed (Some code) (health st1)\<rparr>)
                     in (\<lparr>pa_stream = None, pa_provider = Some attributed, pa_code = Some code\<rparr>,
                         refuse (Some attributed) (rq_item rq) (refusal_code (Some code)) (rq_surface rq) st2))
                | Crashed \<Rightarrow>
                    (let st2 = st1\<lparr>health := record_verdict (rq_tracker_time rq) p None (health st1)\<rparr>
                     in (\<lparr>pa_stream = None, pa_provider = Some p, pa_code = None\<rparr>,
                         refuse (Some p) (rq_item rq) (refusal_code None) (rq_surface rq) st2))
                | Streamed s \<Rightarrow>
                    (let st2 = st1\<lparr>health := record_outcome (rq_tracker_time rq) p True (health st1)\<rparr>;
                         st3 = (if rq_surface rq \<noteq> None then st2\<lparr>attest := att_served (Some p) (attest st2)\<rparr> else st2)
                     in (\<lparr>pa_stream = Some s, pa_provider = Some p, pa_code = None\<rparr>, st3)))))"

section \<open>Runs of attempts\<close>

definition play_run ::
  "'s registry \<Rightarrow> (ustr option \<Rightarrow> ustr option) \<Rightarrow> 't play_request list \<Rightarrow> 't play_state \<Rightarrow> 't play_state" where
  "play_run reg rc rqs st = fold (\<lambda>rq s. snd (attempt_play reg rc rq s)) rqs st"

text \<open>The answer of an attempt does not depend on what was recorded before.\<close>

definition answer :: "'s registry \<Rightarrow> 't play_request \<Rightarrow> 's play_attempt" where
  "answer reg rq =
     (case reg (rq_provider rq) of
        None \<Rightarrow> \<lparr>pa_stream = None, pa_provider = None, pa_code = Some (u ''not_found'')\<rparr>
      | Some pv \<Rightarrow>
          (case translation_error pv (rq_external rq) (rq_translation rq) of
             Some code \<Rightarrow> \<lparr>pa_stream = None, pa_provider = Some (rq_provider rq), pa_code = Some code\<rparr>
           | None \<Rightarrow>
               (case stream_of pv (rq_external rq) (rq_translation rq) of
                  Streamed s \<Rightarrow> \<lparr>pa_stream = Some s, pa_provider = Some (rq_provider rq), pa_code = None\<rparr>
                | Provider_error code engine \<Rightarrow>
                    \<lparr>pa_stream = None, pa_provider = Some (if engine then engine_tracker_id else rq_provider rq),
                     pa_code = Some code\<rparr>
                | Crashed \<Rightarrow> \<lparr>pa_stream = None, pa_provider = Some (rq_provider rq), pa_code = None\<rparr>)))"

text \<open>What an attempt on a surface must leave in the attestation: one event.\<close>

definition attempt_events ::
  "'s registry \<Rightarrow> (ustr option \<Rightarrow> ustr option) \<Rightarrow> 't play_request \<Rightarrow> 't play_event list" where
  "attempt_events reg rc rq =
     (let a = answer reg rq in
      case rq_surface rq of
        None \<Rightarrow> []
      | Some s \<Rightarrow>
          [if served a then Ev_served (pa_provider a)
           else Ev_refused (rq_fault_time rq) (pa_provider a) (rq_item rq) (rc (pa_code a)) s])"

text \<open>An outcome of the lane: a stream, or a fault that is not a verdict on the item.\<close>

definition lane_outcome :: "'s registry \<Rightarrow> 't play_request \<Rightarrow> ('t \<times> ustr \<times> bool) list" where
  "lane_outcome reg rq =
     (let a = answer reg rq in
      if served a then [(rq_tracker_time rq, rq_provider rq, True)]
      else case pa_provider a of
        None \<Rightarrow> []
      | Some p \<Rightarrow>
          if (case pa_code a of None \<Rightarrow> False | Some c \<Rightarrow> c \<in> set item_verdict_codes) then []
          else [(rq_tracker_time rq, p, False)])"

lemma gate_code: "translation_error pv e t = Some code \<Longrightarrow> code = u ''invalid_translation''"
  by (auto simp: translation_error_def split: option.splits translations_answer.splits if_splits)

lemma gate_item_code: "translation_error pv e t = Some code \<Longrightarrow> code \<in> set item_verdict_codes"
  by (auto dest!: gate_code simp: item_verdict_codes_def)

lemma attempt_answer: "fst (attempt_play reg rc rq st) = answer reg rq"
  by (auto simp: attempt_play_def answer_def Let_def split: option.splits stream_answer.splits)

lemma attest_refusal_frame [simp]:
  "health (attest_refusal now p i c sf st) = health st"
  "calls (attest_refusal now p i c sf st) = calls st"
  by (cases sf; simp add: attest_refusal_def)+

lemma attempt_attest:
  "attest (snd (attempt_play reg rc rq st)) = record_events (attempt_events reg rc rq) (attest st)"
  by (auto simp: attempt_play_def attempt_events_def answer_def record_events_def served_def attest_refusal_def
      Let_def split: option.splits stream_answer.splits)

lemma attempt_health:
  "health (snd (attempt_play reg rc rq st)) = record_all (lane_outcome reg rq) (health st)"
proof -
  have nf: "u ''not_found'' \<in> set item_verdict_codes" by (simp add: item_verdict_codes_def)
  show ?thesis
    by (auto simp: attempt_play_def lane_outcome_def answer_def served_def record_verdict_def nf
        gate_item_code Let_def split: option.splits stream_answer.splits)
qed

lemma record_events_append: "record_events (es @ fs) a = record_events fs (record_events es a)"
  by (simp add: record_events_def)

lemma record_all_append: "record_all (es @ fs) t = record_all fs (record_all es t)"
  by (induction es t rule: record_all.induct) auto

lemma play_run_attest:
  "attest (play_run reg rc rqs st) = record_events (concat (map (attempt_events reg rc) rqs)) (attest st)"
  by (induction rqs arbitrary: st) (simp_all add: play_run_def attempt_attest record_events_append)

lemma play_run_health:
  "health (play_run reg rc rqs st) = record_all (concat (map (lane_outcome reg) rqs)) (health st)"
  by (induction rqs arbitrary: st) (simp_all add: play_run_def attempt_health record_all_append)

text \<open>A run of play attempts leaves in the attestation exactly one event per attempt on a surface,
  served or refused with the code its client was handed, and in the health tracker exactly the streams
  and the faults of lanes, an engine fault under the engine's own name.\<close>

theorem play_run_records:
  "attest (play_run reg rc rqs st) = record_events (concat (map (attempt_events reg rc) rqs)) (attest st) \<and>
   health (play_run reg rc rqs st) = record_all (concat (map (lane_outcome reg) rqs)) (health st) \<and>
   length (concat (map (attempt_events reg rc) rqs)) = length (filter (\<lambda>rq. rq_surface rq \<noteq> None) rqs)"
proof (intro conjI)
  show "attest (play_run reg rc rqs st) = record_events (concat (map (attempt_events reg rc) rqs)) (attest st)"
    by (rule play_run_attest)
  show "health (play_run reg rc rqs st) = record_all (concat (map (lane_outcome reg) rqs)) (health st)"
    by (rule play_run_health)
  show "length (concat (map (attempt_events reg rc) rqs)) = length (filter (\<lambda>rq. rq_surface rq \<noteq> None) rqs)"
    by (induction rqs) (auto simp: attempt_events_def Let_def split: option.splits)
qed

text \<open>Attempts that end in a verdict on the item or on the client's choice, whatever their number,
  leave the health status of every provider as it was.\<close>

theorem item_verdicts_leave_health:
  assumes "\<And>rq. rq \<in> set rqs \<Longrightarrow>
    pa_stream (answer reg rq) = None \<and> (\<exists>c \<in> set item_verdict_codes. pa_code (answer reg rq) = Some c)"
  shows "status (health (play_run reg rc rqs st)) q = status (health st) q"
proof -
  have "lane_outcome reg rq = []" if "rq \<in> set rqs" for rq
    using assms [OF that] by (auto simp: lane_outcome_def served_def Let_def split: option.splits)
  then have "concat (map (lane_outcome reg) rqs) = []" by (simp add: concat_eq_Nil_conv)
  moreover note play_run_health [of reg rc rqs st]
  ultimately show ?thesis by (simp only: record_all.simps)
qed

definition sample_registry :: "unit registry" where
  "sample_registry p =
     (if p = u ''ufdub'' then
        Some \<lparr>episode_translations = (\<lambda>_. Allowed [u ''dub'']),
              stream_of = (\<lambda>e t. if e = u ''gone'' then Provider_error (u ''not_found'') False else Streamed ())\<rparr>
      else None)"

definition sample_request :: "string \<Rightarrow> string option \<Rightarrow> nat play_request" where
  "sample_request e t =
     \<lparr>rq_provider = u ''ufdub'', rq_external = u e, rq_translation = map_option u t, rq_item = u ''ufdub:'' @ u e,
      rq_surface = Some S_native, rq_tracker_time = 0, rq_fault_time = 0\<rparr>"

theorem item_verdicts_leave_health_witness:
  "status (health (play_run sample_registry (\<lambda>c. c) (replicate 30 (sample_request ''gone'' None))
     \<lparr>health = new_tracker, attest = new_attestation 20, calls = []\<rparr>)) (u ''ufdub'') = Status_ok"
proof -
  have "pa_stream (answer sample_registry rq) = None \<and>
      (\<exists>c \<in> set item_verdict_codes. pa_code (answer sample_registry rq) = Some c)"
    if "rq \<in> set (replicate 30 (sample_request ''gone'' None))" for rq
    using that by (simp add: answer_def sample_registry_def sample_request_def translation_error_def item_verdict_codes_def)
  from item_verdicts_leave_health [OF this]
  have "status (health (play_run sample_registry (\<lambda>c. c) (replicate 30 (sample_request ''gone'' None)) st)) q =
      status (health st) q" for st :: "nat play_state" and q by blast
  moreover have "status (new_tracker :: nat tracker) (u ''ufdub'') = Status_ok"
    by (simp add: status_def new_tracker_def)
  ultimately show ?thesis by (simp only: play_state.select_convs)
qed

text \<open>A translation that the provider's list does not offer is refused before the provider is
  asked for a stream: no call is made, the lane's health is untouched, and the refusal is attested under
  the provider with the client's code.\<close>

theorem translation_gate_first:
  assumes "reg (rq_provider rq) = Some pv" and "episode_translations pv (rq_external rq) = Allowed ts"
    and "rq_translation rq = Some t" and "t \<notin> set ts" and "rq_surface rq = Some s"
  shows "attempt_play reg rc rq st =
    (\<lparr>pa_stream = None, pa_provider = Some (rq_provider rq), pa_code = Some (u ''invalid_translation'')\<rparr>,
     st\<lparr>attest := att_refused (rq_fault_time rq) (Some (rq_provider rq)) (rq_item rq)
          (rc (Some (u ''invalid_translation''))) s (attest st)\<rparr>)"
  using assms by (simp add: attempt_play_def translation_error_def attest_refusal_def Let_def)

theorem translation_gate_first_witness:
  "attempt_play sample_registry (\<lambda>c. c) (sample_request ''1'' (Some ''voice''))
     \<lparr>health = new_tracker, attest = new_attestation 20, calls = []\<rparr> =
   (\<lparr>pa_stream = None, pa_provider = Some (u ''ufdub''), pa_code = Some (u ''invalid_translation'')\<rparr>,
    \<lparr>health = new_tracker,
     attest = att_refused 0 (Some (u ''ufdub'')) (u ''ufdub:'' @ u ''1'') (Some (u ''invalid_translation'')) S_native
       (new_attestation 20), calls = []\<rparr>)"
proof -
  let ?rq = "sample_request ''1'' (Some ''voice'')"
  let ?pv = "\<lparr>episode_translations = (\<lambda>_. Allowed [u ''dub'']),
    stream_of = (\<lambda>e t. if e = u ''gone'' then Provider_error (u ''not_found'') False else Streamed ())\<rparr>"
  have "sample_registry (rq_provider ?rq) = Some ?pv" "rq_translation ?rq = Some (u ''voice'')"
    "rq_surface ?rq = Some S_native" "u ''voice'' \<notin> set [u ''dub'']"
    by (simp_all add: sample_registry_def sample_request_def)
  moreover have "episode_translations ?pv (rq_external ?rq) = Allowed [u ''dub'']" by simp
  ultimately show ?thesis
    using translation_gate_first [of sample_registry ?rq ?pv "[u ''dub'']" "u ''voice''" S_native "\<lambda>c. c"]
    by (simp add: sample_request_def)
qed

end
