(* ===== verification/Ttl_Cache.thy ===== *)
theory Ttl_Cache
  imports Py_Prelude Py_Float
begin

text \<open>
  The TTL cache, \<^verbatim>\<open>backend/cs_uk_api/cache.py\<close>.  Times are doubles (\<open>Py_Float\<close>); every operation carries
  the monotonic clock's reading.  The lock makes every operation one step.  The specification forgets
  the dictionary: what counts for a key is the last assignment since the last \<^verbatim>\<open>clear\<close>.
\<close>

section \<open>The code\<close>

record 'v ttl_cache =
  default_ttl_s :: int
  entries :: "(ustr, rat \<times> 'v) pdict"

definition new_cache :: "int \<Rightarrow> 'v ttl_cache" where
  "new_cache ttl = \<lparr>default_ttl_s = ttl, entries = []\<rparr>"

definition cache_get :: "rat \<Rightarrow> ustr \<Rightarrow> 'v ttl_cache \<Rightarrow> 'v option \<times> 'v ttl_cache" where
  "cache_get now k c =
     (case dget (entries c) k of
        None \<Rightarrow> (None, c)
      | Some (expires_at, value) \<Rightarrow>
          if expires_at < now then (None, c\<lparr>entries := dpop k (entries c)\<rparr>) else (Some value, c))"

definition expiry :: "rat \<Rightarrow> int \<Rightarrow> int option \<Rightarrow> rat" where
  "expiry now d ttl_s =
     (let ttl = (case ttl_s of None \<Rightarrow> d | Some t \<Rightarrow> t) in f_add now (f_of_int (max ttl 0)))"

definition cache_set :: "rat \<Rightarrow> ustr \<Rightarrow> 'v \<Rightarrow> int option \<Rightarrow> 'v ttl_cache \<Rightarrow> 'v ttl_cache" where
  "cache_set now k v ttl_s c =
     c\<lparr>entries := dset k (expiry now (default_ttl_s c) ttl_s, v) (entries c)\<rparr>"

definition cache_clear :: "'v ttl_cache \<Rightarrow> 'v ttl_cache" where
  "cache_clear c = c\<lparr>entries := []\<rparr>"

section \<open>The cache interface\<close>

text \<open>
  What a client of a TTL cache relies on: an assignment is read back until its deadline, touches no other
  key, and reads (which evict what has expired) change no later answer.
\<close>

locale ttl_store =
  fixes get :: "rat \<Rightarrow> 'k \<Rightarrow> 'c \<Rightarrow> 'v option \<times> 'c"
    and put :: "rat \<Rightarrow> 'k \<Rightarrow> 'v \<Rightarrow> int option \<Rightarrow> 'c \<Rightarrow> 'c"
    and deadline :: "rat \<Rightarrow> 'c \<Rightarrow> int option \<Rightarrow> rat"
  assumes read_written: "t \<le> deadline s c ttl \<Longrightarrow> fst (get t k (put s k v ttl c)) = Some v"
    and read_lapsed: "deadline s c ttl < t \<Longrightarrow> fst (get t k (put s k v ttl c)) = None"
    and read_other: "j \<noteq> k \<Longrightarrow> fst (get t j (put s k v ttl c)) = fst (get t j c)"
    and read_evicts: "s \<le> t \<Longrightarrow> fst (get t j (snd (get s k c))) = fst (get t j c)"
    and read_stays: "s \<le> t \<Longrightarrow> fst (get t k c) = None \<or> fst (get t k c) = fst (get s k c)"
begin

lemma read_gone: "fst (get s k c) = None \<Longrightarrow> s \<le> t \<Longrightarrow> fst (get t k c) = None"
  using read_stays by metis

lemma read_missed:
  "s \<le> t \<Longrightarrow> fst (get s k c) = None \<Longrightarrow> fst (get t k (snd (get s k c))) = None"
  by (simp add: read_evicts read_gone)

lemma read_twice: "fst (get s k (snd (get s k c))) = fst (get s k c)"
  by (simp add: read_evicts)

end

interpretation ttl: ttl_store cache_get cache_set "\<lambda>s c ttl. expiry s (default_ttl_s c) ttl"
proof
  show "fst (cache_get t k (cache_set s k v ttl c)) = Some v" if "t \<le> expiry s (default_ttl_s c) ttl"
    for t s ttl k and v :: 'v and c :: "'v ttl_cache"
    using that by (simp add: cache_get_def cache_set_def dget_dset)
  show "fst (cache_get t k (cache_set s k v ttl c)) = None" if "expiry s (default_ttl_s c) ttl < t"
    for t s ttl k and v :: 'v and c :: "'v ttl_cache"
    using that by (simp add: cache_get_def cache_set_def dget_dset)
  show "fst (cache_get t j (cache_set s k v ttl c)) = fst (cache_get t j c)" if "j \<noteq> k"
    for t s ttl j k and v :: 'v and c :: "'v ttl_cache"
    using that by (simp add: cache_get_def cache_set_def dget_dset split: option.splits prod.splits)
  show "fst (cache_get t j (snd (cache_get s k c))) = fst (cache_get t j c)" if "s \<le> t"
    for t s j k and c :: "'v ttl_cache"
    using that by (auto simp: cache_get_def dget_dpop split: option.splits)
  show "fst (cache_get t k c) = None \<or> fst (cache_get t k c) = fst (cache_get s k c)" if "s \<le> t"
    for t s k and c :: "'v ttl_cache"
    using that by (auto simp: cache_get_def split: option.splits)
qed

section \<open>Runs\<close>

datatype 'v cache_op = Op_get ustr | Op_set ustr 'v "int option" | Op_clear

fun cache_step :: "'v ttl_cache \<Rightarrow> rat \<times> 'v cache_op \<Rightarrow> 'v ttl_cache" where
  "cache_step c (now, Op_get k) = snd (cache_get now k c)"
| "cache_step c (now, Op_set k v t) = cache_set now k v t c"
| "cache_step c (now, Op_clear) = cache_clear c"

text \<open>The specification: the expiry and the value of the last assignment to \<open>k\<close> since the last clear.\<close>

fun last_set :: "int \<Rightarrow> ustr \<Rightarrow> (rat \<times> 'v) option \<Rightarrow> (rat \<times> 'v cache_op) list \<Rightarrow> (rat \<times> 'v) option" where
  "last_set d k acc [] = acc"
| "last_set d k acc ((now, Op_get j) # es) = last_set d k acc es"
| "last_set d k acc ((now, Op_set j v t) # es) = last_set d k (if j = k then Some (expiry now d t, v) else acc) es"
| "last_set d k acc ((now, Op_clear) # es) = last_set d k None es"

definition cache_rep :: "rat \<Rightarrow> ustr \<Rightarrow> (rat \<times> 'v) option \<Rightarrow> 'v ttl_cache \<Rightarrow> bool" where
  "cache_rep now k spec c \<longleftrightarrow>
     (dget (entries c) k = spec \<or> (dget (entries c) k = None \<and> (\<exists>e v. spec = Some (e, v) \<and> e < now)))"

lemma cache_rep_later: "cache_rep s k spec c \<Longrightarrow> s \<le> t \<Longrightarrow> cache_rep t k spec c"
  by (auto simp: cache_rep_def intro: less_le_trans)

lemma cache_step_ttl [simp]: "default_ttl_s (cache_step c e) = default_ttl_s c"
  by (cases e; cases "snd e") (auto simp: cache_get_def cache_set_def cache_clear_def split: option.splits)

lemma default_ttl_new: "default_ttl_s (new_cache d) = d"
  by (simp add: new_cache_def)

lemma cache_run_rep:
  assumes "cache_rep s k acc c" and "sorted (s # map fst es)" and "s' = last (s # map fst es)"
  shows "cache_rep s' k (last_set (default_ttl_s c) k acc es) (foldl cache_step c es)"
  using assms
proof (induction es arbitrary: s c acc)
  case (Cons e es)
  obtain now op where e: "e = (now, op)" by force
  have le: "s \<le> now" and so: "sorted (now # map fst es)" and la: "s' = last (now # map fst es)"
    using Cons.prems(2,3) by (auto simp: e)
  have rep: "cache_rep now k acc c" by (rule cache_rep_later [OF Cons.prems(1) le])
  let ?acc = "last_set (default_ttl_s c) k acc [e]"
  have step: "cache_rep now k ?acc (cache_step c e)"
    using rep
    by (cases op) (auto simp: e cache_rep_def cache_get_def cache_set_def cache_clear_def dget_dset dget_dpop
        split: option.splits)
  have "last_set (default_ttl_s c) k acc (e # es) = last_set (default_ttl_s (cache_step c e)) k ?acc es"
    unfolding cache_step_ttl by (cases op) (simp_all add: e)
  with Cons.IH [OF step so la] show ?case by simp
qed simp

text \<open>On a clock that does not run backwards, a read answers the value of the last assignment to
  its key since the last clear exactly up to and including its expiry, and nothing from then on,
  whatever other reads have evicted meanwhile.\<close>

theorem cache_last_write_until_expiry:
  assumes "sorted (map fst es @ [now])"
  shows "fst (cache_get now k (foldl cache_step (new_cache d) es)) =
    (case last_set d k None es of None \<Rightarrow> None | Some (e, v) \<Rightarrow> if e < now then None else Some v)"
proof -
  let ?s = "if es = [] then now else fst (hd es)"
  have a: "cache_rep ?s k None (new_cache d)" by (simp add: cache_rep_def new_cache_def)
  have b: "sorted (?s # map fst es)"
    using assms by (cases es) (auto simp: sorted_append)
  from cache_run_rep [OF a b refl]
  have "cache_rep (last (?s # map fst es)) k (last_set d k None es) (foldl cache_step (new_cache d) es)"
    by (simp only: default_ttl_new)
  moreover have "last (?s # map fst es) \<le> now"
    using assms by (cases es rule: rev_cases) (auto simp: sorted_append)
  ultimately have "cache_rep now k (last_set d k None es) (foldl cache_step (new_cache d) es)"
    by (rule cache_rep_later)
  then show ?thesis
    by (cases "last_set d k None es") (auto simp: cache_rep_def cache_get_def split: option.splits)
qed

theorem cache_last_write_until_expiry_witness:
  "fst (cache_get 301 (u ''k'') (foldl cache_step (new_cache 300)
     [(0, Op_set (u ''k'') (7::nat) None), (5, Op_get (u ''k'')), (10, Op_set (u ''k'') 8 (Some 3))])) = None"
proof -
  have fl3: "f_add 10 (f_of_int 3) = (13::rat)" by code_simp
  have s: "sorted (map fst [(0, Op_set (u ''k'') (7::nat) None), (5, Op_get (u ''k'')), (10, Op_set (u ''k'') 8 (Some 3))] @ [301::rat])"
    by simp
  show ?thesis
    unfolding cache_last_write_until_expiry [OF s] by (simp add: expiry_def fl3)
qed

end
