(* ===== verification/Json.thy ===== *)
theory Json
  imports Py_Prelude Complex_Main
begin

text \<open>
  JSON documents as Python sees them after \<^verbatim>\<open>json.loads\<close>, and the type tests the stores make on them.
  A document is modelled by its value, not by its text: reading back what \<^verbatim>\<open>json.dumps\<close> wrote gives the
  value that was written, which is what the standard library documents.  An object is a dictionary; of a
  repeated key the last value counts.  \<^verbatim>\<open>bool\<close> is a subclass of \<^verbatim>\<open>int\<close>, so \<^verbatim>\<open>isinstance(x, int)\<close> accepts
  \<^verbatim>\<open>True\<close> and \<^verbatim>\<open>False\<close> and they compare as one and zero.
\<close>

datatype json =
    JNull
  | JBool bool
  | JInt int
  | JFloat rat
  | JStr ustr
  | JList "json list"
  | JObject "(ustr \<times> json) list"

text \<open>\<^verbatim>\<open>isinstance(x, int)\<close> and \<^verbatim>\<open>isinstance(x, (int, float))\<close>, with the number.\<close>

fun as_int :: "json \<Rightarrow> int option" where
  "as_int (JInt i) = Some i"
| "as_int (JBool b) = Some (if b then 1 else 0)"
| "as_int _ = None"

datatype number = Num_int int | Num_float rat

fun num_value :: "number \<Rightarrow> rat" where
  "num_value (Num_int i) = of_int i"
| "num_value (Num_float r) = r"

fun as_number :: "json \<Rightarrow> number option" where
  "as_number (JFloat r) = Some (Num_float r)"
| "as_number j = map_option Num_int (as_int j)"

fun num_json :: "number \<Rightarrow> json" where
  "num_json (Num_int i) = JInt i"
| "num_json (Num_float r) = JFloat r"

lemma as_number_num_json [simp]: "as_number (num_json n) = Some n"
  by (cases n) simp_all

fun as_str :: "json \<Rightarrow> ustr option" where
  "as_str (JStr s) = Some s"
| "as_str _ = None"

fun as_list :: "json \<Rightarrow> json list option" where
  "as_list (JList xs) = Some xs"
| "as_list _ = None"

fun as_dict :: "json \<Rightarrow> (ustr, json) pdict option" where
  "as_dict (JObject d) = Some d"
| "as_dict _ = None"

text \<open>\<^verbatim>\<open>d.get(k)\<close>: a missing key and a \<^verbatim>\<open>null\<close> are both \<^verbatim>\<open>None\<close>.\<close>

definition jget :: "(ustr, json) pdict \<Rightarrow> ustr \<Rightarrow> json" where
  "jget d k = (case dget d k of Some j \<Rightarrow> j | None \<Rightarrow> JNull)"

lemma jget_Cons [simp]: "jget ((a, b) # d) k = (if a = k then b else jget d k)"
  by (simp add: jget_def)

lemma jget_Nil [simp]: "jget [] k = JNull"
  by (simp add: jget_def)

end
