(* ===== verification/Crawl_Guard.thy ===== *)
theory Crawl_Guard
  imports Py_Unicode Json
begin

text \<open>
  The crawl circuit breaker, \<^verbatim>\<open>backend/cs_uk_api/crawl_guard.py\<close>.  A \<^verbatim>\<open>date\<close> is a year, a month and a day;
  the code compares dates by their ISO texts, which \<open>isoformat_less\<close> shows to be the calendar order.
  A \<^verbatim>\<open>timedelta\<close> beyond the year 9999 raises \<^verbatim>\<open>OverflowError\<close>, the value \<open>Inl Overflow_error\<close>.
  \<^verbatim>\<open>save\<close> and \<^verbatim>\<open>_load\<close> are modelled on the parsed document: \<open>saved\<close> and \<open>loaded\<close>.
\<close>

section \<open>Dates\<close>

record date =
  d_year :: nat
  d_month :: nat
  d_day :: nat

definition leap :: "nat \<Rightarrow> bool" where
  "leap y \<longleftrightarrow> 4 dvd y \<and> (\<not> 100 dvd y \<or> 400 dvd y)"

definition days_in_month :: "nat \<Rightarrow> nat \<Rightarrow> nat" where
  "days_in_month y m =
     (if m = 2 then (if leap y then 29 else 28) else if m \<in> {4, 6, 9, 11} then 30 else 31)"

definition date_ok :: "date \<Rightarrow> bool" where
  "date_ok d \<longleftrightarrow> 1 \<le> d_year d \<and> 1 \<le> d_month d \<and> d_month d \<le> 12 \<and> 1 \<le> d_day d \<and>
     d_day d \<le> days_in_month (d_year d) (d_month d)"

definition next_day :: "date \<Rightarrow> date" where
  "next_day d =
     (if d_day d < days_in_month (d_year d) (d_month d) then d\<lparr>d_day := Suc (d_day d)\<rparr>
      else if d_month d < 12 then d\<lparr>d_month := Suc (d_month d), d_day := 1\<rparr>
      else \<lparr>d_year = Suc (d_year d), d_month = 1, d_day = 1\<rparr>)"

text \<open>Fixed-width decimals, and \<^verbatim>\<open>date.isoformat()\<close>.\<close>

fun dec_pad :: "nat \<Rightarrow> nat \<Rightarrow> ustr" where
  "dec_pad 0 n = []"
| "dec_pad (Suc w) n = dec_pad w (n div 10) @ [48 + n mod 10]"

definition isoformat :: "date \<Rightarrow> ustr" where
  "isoformat d = dec_pad 4 (d_year d) @ u ''-'' @ dec_pad 2 (d_month d) @ u ''-'' @ dec_pad 2 (d_day d)"

datatype date_error = Overflow_error

text \<open>\<^verbatim>\<open>day + timedelta(days=n)\<close>.\<close>

definition add_days :: "nat \<Rightarrow> date \<Rightarrow> date_error + date" where
  "add_days n d = (let e = (next_day ^^ n) d in if d_year e \<le> 9999 then Inr e else Inl Overflow_error)"

definition date_less :: "date \<Rightarrow> date \<Rightarrow> bool" where
  "date_less a b \<longleftrightarrow>
     d_year a < d_year b \<or> d_year a = d_year b \<and>
       (d_month a < d_month b \<or> d_month a = d_month b \<and> d_day a < d_day b)"

lemma length_dec_pad [simp]: "length (dec_pad w n) = w"
  by (induction w arbitrary: n) auto

lemma append_less_iff:
  "length a = length b \<Longrightarrow> (a @ x < b @ y) \<longleftrightarrow> a < b \<or> a = b \<and> x < (y :: nat list)"
  by (induction a b rule: list_induct2) auto

lemma div_ten_less: "m < 10 ^ Suc w \<Longrightarrow> m div 10 < 10 ^ (w :: nat)" for m :: nat
  by (rule less_mult_imp_div_less) (simp add: mult.commute)

lemma digits_less: "b < 10 \<Longrightarrow> d < 10 \<Longrightarrow> a < c \<or> a = c \<and> b < d \<longleftrightarrow> a * 10 + b < c * 10 + (d :: nat)"
  by (cases a c rule: linorder_cases) simp_all

lemma dec_pad_inj: "m < 10 ^ w \<Longrightarrow> n < 10 ^ w \<Longrightarrow> dec_pad w m = dec_pad w n \<longleftrightarrow> m = n"
proof (induction w arbitrary: m n)
  case (Suc w)
  have "dec_pad (Suc w) m = dec_pad (Suc w) n \<longleftrightarrow> dec_pad w (m div 10) = dec_pad w (n div 10) \<and> m mod 10 = n mod 10"
    by simp
  also have "\<dots> \<longleftrightarrow> m div 10 = n div 10 \<and> m mod 10 = n mod 10"
    by (simp only: Suc.IH [OF div_ten_less [OF Suc.prems(1)] div_ten_less [OF Suc.prems(2)]])
  also have "\<dots> \<longleftrightarrow> m = n" by (metis div_mult_mod_eq)
  finally show ?case .
qed simp

lemma dec_pad_less: "m < 10 ^ w \<Longrightarrow> n < 10 ^ w \<Longrightarrow> dec_pad w m < dec_pad w n \<longleftrightarrow> m < n"
proof (induction w arbitrary: m n)
  case (Suc w)
  note d = div_ten_less [OF Suc.prems(1)] div_ten_less [OF Suc.prems(2)]
  have "dec_pad (Suc w) m < dec_pad (Suc w) n \<longleftrightarrow>
      dec_pad w (m div 10) < dec_pad w (n div 10) \<or>
      dec_pad w (m div 10) = dec_pad w (n div 10) \<and> m mod 10 < n mod 10"
    by (simp add: append_less_iff)
  also have "\<dots> \<longleftrightarrow> m div 10 < n div 10 \<or> m div 10 = n div 10 \<and> m mod 10 < n mod 10"
    by (simp only: Suc.IH [OF d] dec_pad_inj [OF d])
  also have "\<dots> \<longleftrightarrow> m < n"
    using digits_less [of "m mod 10" "n mod 10" "m div 10" "n div 10"] by (simp add: div_mult_mod_eq)
  finally show ?case .
qed simp

lemma date_ok_bounds: "date_ok d \<Longrightarrow> d_month d < 10 ^ 2 \<and> d_day d < 10 ^ 2"
  by (auto simp: date_ok_def days_in_month_def split: if_splits)

text \<open>The order of the texts is the order of the calendar.\<close>

lemma isoformat_less:
  assumes "date_ok a" and "date_ok b" and "d_year a \<le> 9999" and "d_year b \<le> 9999"
  shows "isoformat a < isoformat b \<longleftrightarrow> date_less a b"
proof -
  have y: "d_year a < 10 ^ 4" "d_year b < 10 ^ 4" using assms(3,4) by simp_all
  note b = date_ok_bounds [OF assms(1)] date_ok_bounds [OF assms(2)]
  have e: "isoformat d = dec_pad 4 (d_year d) @ [45] @ (dec_pad 2 (d_month d) @ [45] @ dec_pad 2 (d_day d))" for d
    by (simp add: isoformat_def u_def)
  show ?thesis
    unfolding e date_less_def
    using y b by (simp add: append_less_iff dec_pad_less dec_pad_inj)
qed

lemma isoformat_inj:
  assumes "date_ok a" and "date_ok b" and "d_year a \<le> 9999" and "d_year b \<le> 9999" and "isoformat a = isoformat b"
  shows "a = b"
proof -
  have "\<not> date_less a b" "\<not> date_less b a"
    using assms isoformat_less by (metis less_irrefl)+
  then show ?thesis by (auto simp: date_less_def intro!: date.equality)
qed

lemma next_day_ok: "date_ok d \<Longrightarrow> date_ok (next_day d)"
  by (auto simp: date_ok_def next_day_def days_in_month_def)

lemma date_less_next: "date_ok d \<Longrightarrow> date_less d (next_day d)"
  by (auto simp: date_less_def next_day_def date_ok_def)

lemma date_less_trans: "date_less a b \<Longrightarrow> date_less b c \<Longrightarrow> date_less a c"
  by (auto simp: date_less_def)

lemma date_less_irrefl: "\<not> date_less a a"
  by (simp add: date_less_def)

lemma days_ok: "date_ok d \<Longrightarrow> date_ok ((next_day ^^ n) d)"
  by (induction n) (auto simp: next_day_ok)

lemma days_less: "date_ok d \<Longrightarrow> m < n \<Longrightarrow> date_less ((next_day ^^ m) d) ((next_day ^^ n) d)"
  by (induction n) (auto simp: less_Suc_eq intro: date_less_next days_ok date_less_trans)

lemma days_year: "m \<le> n \<Longrightarrow> d_year ((next_day ^^ m) d) \<le> d_year ((next_day ^^ n) d)"
  by (induction n) (auto simp: le_Suc_eq next_day_def)

lemma next_day_mono: "date_ok a \<Longrightarrow> date_ok b \<Longrightarrow> date_less a b \<Longrightarrow> date_less (next_day a) (next_day b)"
  by (auto simp: date_less_def next_day_def date_ok_def)

lemma days_mono_year:
  assumes "date_less a b" and "date_ok a" and "date_ok b"
  shows "d_year ((next_day ^^ n) a) \<le> d_year ((next_day ^^ n) b)"
proof -
  have "date_less ((next_day ^^ n) a) ((next_day ^^ n) b)"
    by (induction n) (use assms in \<open>auto intro: next_day_mono days_ok\<close>)
  then show ?thesis by (auto simp: date_less_def)
qed

section \<open>Verdicts\<close>

datatype verdict = V_ok | V_403 | V_other

definition forbidden :: "ucd \<Rightarrow> rx" where
  "forbidden U = seqs [word_boundary U, lit (u ''403''), word_boundary U]"

definition classify :: "ucd \<Rightarrow> bool \<Rightarrow> int \<Rightarrow> ustr list \<Rightarrow> verdict" where
  "classify U ok sections errors =
     (if ok then V_ok
      else if sections \<le> 0 then V_other
      else if errors \<noteq> [] \<and> list_all (\<lambda>e. search (forbidden U) e \<noteq> None) errors then V_403
      else V_other)"

section \<open>The breaker\<close>

record guard_entry =
  nights :: nat
  skip_until :: "ustr option"
  last_counted :: "ustr option"

definition new_entry :: guard_entry where
  "new_entry = \<lparr>nights = 0, skip_until = None, last_counted = None\<rparr>"

record guard =
  block_after :: nat
  cooldown_days :: nat
  guard_entries :: "(ustr, guard_entry) pdict"

record skip_info =
  si_nights :: nat
  retry_after :: ustr

definition new_guard :: "int \<Rightarrow> int \<Rightarrow> guard" where
  "new_guard b c = \<lparr>block_after = nat (max 0 b), cooldown_days = nat (max 1 c), guard_entries = []\<rparr>"

definition blocked :: "guard \<Rightarrow> ustr \<Rightarrow> date \<Rightarrow> skip_info option" where
  "blocked g p today =
     (if block_after g = 0 then None
      else case dget (guard_entries g) p of
        None \<Rightarrow> None
      | Some e \<Rightarrow>
          (case skip_until e of
             None \<Rightarrow> None
           | Some s \<Rightarrow>
               if s = [] \<or> s \<le> isoformat today then None
               else Some \<lparr>si_nights = nights e, retry_after = s\<rparr>))"

definition put_entry :: "ustr \<Rightarrow> guard_entry \<Rightarrow> guard \<Rightarrow> guard" where
  "put_entry p e g = g\<lparr>guard_entries := dset p e (guard_entries g)\<rparr>"

definition record_night ::
  "ustr \<Rightarrow> verdict \<Rightarrow> date \<Rightarrow> guard \<Rightarrow> guard \<times> (date_error + skip_info option)" where
  "record_night p v day g =
     (if block_after g = 0 then (g, Inr None)
      else
        (let (e, d) = dsetdefault p new_entry (guard_entries g); g1 = g\<lparr>guard_entries := d\<rparr> in
         case v of
           V_ok \<Rightarrow> (g1\<lparr>guard_entries := dpop p (guard_entries g1)\<rparr>, Inr None)
         | V_other \<Rightarrow> (put_entry p (e\<lparr>nights := 0, last_counted := None\<rparr>) g1, Inr None)
         | V_403 \<Rightarrow>
             (let key = isoformat day;
                  e1 = (if last_counted e \<noteq> Some key then e\<lparr>nights := Suc (nights e), last_counted := Some key\<rparr> else e)
              in if nights e1 \<ge> block_after g then
                   (case add_days (cooldown_days g) day of
                      Inl x \<Rightarrow> (put_entry p e1 g1, Inl x)
                    | Inr until \<Rightarrow>
                        (put_entry p (e1\<lparr>skip_until := Some (isoformat until)\<rparr>) g1,
                         Inr (Some \<lparr>si_nights = nights e1, retry_after = isoformat until\<rparr>)))
                 else (put_entry p e1 g1, Inr None))))"

definition partition_providers ::
  "guard \<Rightarrow> date \<Rightarrow> ustr list \<Rightarrow> ustr list \<times> (ustr \<times> skip_info) list" where
  "partition_providers g today ps =
     (filter (\<lambda>p. blocked g p today = None) ps,
      List.map_filter (\<lambda>p. map_option (Pair p) (blocked g p today)) ps)"

section \<open>Persistence\<close>

definition opt_str :: "ustr option \<Rightarrow> json" where
  "opt_str s = (case s of None \<Rightarrow> JNull | Some t \<Rightarrow> JStr t)"

definition saved :: "guard \<Rightarrow> json" where
  "saved g =
     JObject
       [(u ''version'', JInt 1),
        (u ''providers'',
         JObject (map (\<lambda>(p, e).
           (p, JObject [(u ''nights'', JInt (int (nights e))), (u ''skip_until'', opt_str (skip_until e)),
                        (u ''last_counted'', opt_str (last_counted e))]))
           (sort_key fst (guard_entries g))))]"

definition loaded_entry :: "(ustr, json) pdict \<Rightarrow> guard_entry" where
  "loaded_entry d =
     \<lparr>nights = (case as_int (jget d (u ''nights'')) of Some n \<Rightarrow> if 0 \<le> n then nat n else 0 | None \<Rightarrow> 0),
      skip_until = as_str (jget d (u ''skip_until'')),
      last_counted = as_str (jget d (u ''last_counted''))\<rparr>"

text \<open>\<^verbatim>\<open>_load\<close>: \<open>None\<close> is a missing, unreadable or unparsable file.  Keys of a parsed object are strings.\<close>

definition loaded :: "json option \<Rightarrow> guard \<Rightarrow> guard" where
  "loaded file g =
     (case file of None \<Rightarrow> g
      | Some doc \<Rightarrow>
          (case as_dict doc of None \<Rightarrow> g
           | Some d \<Rightarrow>
               (case as_dict (jget d (u ''providers'')) of None \<Rightarrow> g
                | Some ps \<Rightarrow>
                    foldl (\<lambda>g (p, j). case as_dict j of None \<Rightarrow> g | Some e \<Rightarrow> put_entry p (loaded_entry e) g) g ps)))"

lemma as_str_opt [simp]: "as_str (opt_str s) = s"
  by (cases s) (simp_all add: opt_str_def)

lemma loaded_entry_saved:
  "loaded_entry [(u ''nights'', JInt (int (nights e))), (u ''skip_until'', opt_str (skip_until e)),
                 (u ''last_counted'', opt_str (last_counted e))] = e"
  by (simp add: loaded_entry_def)

lemma foldl_put_entries:
  "dwf d \<Longrightarrow> fst ` set d \<inter> fst ` set (guard_entries g) = {} \<Longrightarrow>
   guard_entries (foldl (\<lambda>g (p, j). case as_dict j of None \<Rightarrow> g | Some e \<Rightarrow> put_entry p (loaded_entry e) g) g
     (map (\<lambda>(p, e). (p, JObject [(u ''nights'', JInt (int (nights e))), (u ''skip_until'', opt_str (skip_until e)),
                        (u ''last_counted'', opt_str (last_counted e))])) d)) = guard_entries g @ d"
proof (induction d arbitrary: g)
  case (Cons pe d)
  obtain p e where pe: "pe = (p, e)" by force
  have "guard_entries (put_entry p e g) = guard_entries g @ [(p, e)]"
    using Cons.prems(2) by (simp add: pe put_entry_def dset_new)
  with Cons.IH [of "put_entry p e g"] Cons.prems show ?case
    by (auto simp: pe dwf_def loaded_entry_saved)
qed simp

text \<open>What the guard saves, a new guard with the same settings loads back: the same entry for every
  provider, and so the same verdict of \<open>blocked\<close> on every day.\<close>

theorem guard_save_load:
  assumes "dwf (guard_entries g)"
  shows "dget (guard_entries (loaded (Some (saved g)) (g\<lparr>guard_entries := []\<rparr>))) p = dget (guard_entries g) p \<and>
    blocked (loaded (Some (saved g)) (g\<lparr>guard_entries := []\<rparr>)) p today = blocked g p today"
proof -
  let ?d = "sort_key fst (guard_entries g)"
  let ?g = "loaded (Some (saved g)) (g\<lparr>guard_entries := []\<rparr>)"
  have wf: "dwf ?d" using assms by (simp add: dwf_def distinct_map)
  have "guard_entries ?g = ?d"
    using foldl_put_entries [OF wf, of "g\<lparr>guard_entries := []\<rparr>"] by (simp add: loaded_def saved_def)
  moreover have "dget ?d p = dget (guard_entries g) p"
  proof -
    have "set (map fst ?d) = set (map fst (guard_entries g))" by simp
    have "map_of ?d = map_of (guard_entries g)"
      by (rule map_of_inject_set [THEN iffD2]) (use wf assms in \<open>simp_all add: dwf_def\<close>)
    then show ?thesis by simp
  qed
  moreover have "block_after ?g = block_after g"
  proof -
    have "block_after (foldl (\<lambda>g (p, j). case as_dict j of None \<Rightarrow> g | Some e \<Rightarrow> put_entry p (loaded_entry e) g) h ps) = block_after h"
      for h ps
      by (induction ps arbitrary: h) (auto simp: put_entry_def split: option.splits)
    then show ?thesis by (simp add: loaded_def split: option.splits)
  qed
  ultimately show ?thesis by (simp add: blocked_def)
qed

section \<open>Trips\<close>

text \<open>Blocked nights, one after the other.\<close>

definition record_403s :: "ustr \<Rightarrow> date list \<Rightarrow> guard \<Rightarrow> guard" where
  "record_403s p days g = foldl (\<lambda>g day. fst (record_night p V_403 day g)) g days"

definition in_calendar :: "date \<Rightarrow> bool" where
  "in_calendar d \<longleftrightarrow> date_ok d \<and> d_year d \<le> 9999"

lemma put_entry_get [simp]:
  "dget (guard_entries (put_entry p e g)) q = (if q = p then Some e else dget (guard_entries g) q)"
  "block_after (put_entry p e g) = block_after g" "cooldown_days (put_entry p e g) = cooldown_days g"
  by (simp_all add: put_entry_def dget_dset)

lemma record_night_frame [simp]:
  "block_after (fst (record_night p v day g)) = block_after g"
  "cooldown_days (fst (record_night p v day g)) = cooldown_days g"
  by (auto simp: record_night_def Let_def split: prod.splits verdict.splits sum.splits)

definition entry_of :: "guard \<Rightarrow> ustr \<Rightarrow> guard_entry" where
  "entry_of g p = (case dget (guard_entries g) p of Some e \<Rightarrow> e | None \<Rightarrow> new_entry)"

lemma put_entry_same [simp]: "put_entry p e (put_entry p f g) = put_entry p e g"
proof -
  have "dset p e (dset p f d) = dset p e d" for d :: "(ustr, guard_entry) pdict"
    by (induction p f d rule: dset.induct) auto
  then show ?thesis by (simp add: put_entry_def)
qed

lemma setdefault_entry:
  "dsetdefault p new_entry (guard_entries g) = (entry_of g p, guard_entries (put_entry p (entry_of g p) g))"
proof (cases "dget (guard_entries g) p")
  case None
  then have "p \<notin> fst ` set (guard_entries g)" by (simp add: map_of_eq_None_iff)
  with None show ?thesis by (simp add: dsetdefault_def entry_of_def put_entry_def dset_new)
next
  case (Some e)
  have "dset p e d = d" if "dget d p = Some e" for d
    using that by (induction p e d rule: dset.induct) (auto split: if_splits)
  with Some show ?thesis by (simp add: dsetdefault_def entry_of_def put_entry_def)
qed

lemma record_night_eq:
  "record_night p v day g =
     (if block_after g = 0 then (g, Inr None)
      else
        (let e = entry_of g p in
         case v of
           V_ok \<Rightarrow> (g\<lparr>guard_entries := dpop p (guard_entries (put_entry p e g))\<rparr>, Inr None)
         | V_other \<Rightarrow> (put_entry p (e\<lparr>nights := 0, last_counted := None\<rparr>) g, Inr None)
         | V_403 \<Rightarrow>
             (let key = isoformat day;
                  e1 = (if last_counted e \<noteq> Some key then e\<lparr>nights := Suc (nights e), last_counted := Some key\<rparr> else e)
              in if nights e1 \<ge> block_after g then
                   (case add_days (cooldown_days g) day of
                      Inl x \<Rightarrow> (put_entry p e1 g, Inl x)
                    | Inr until \<Rightarrow>
                        (put_entry p (e1\<lparr>skip_until := Some (isoformat until)\<rparr>) g,
                         Inr (Some \<lparr>si_nights = nights e1, retry_after = isoformat until\<rparr>)))
                 else (put_entry p e1 g, Inr None))))"
proof -
  have g: "g\<lparr>guard_entries := guard_entries (put_entry p e g)\<rparr> = put_entry p e g" for e
    by (simp add: put_entry_def)
  show ?thesis
    unfolding record_night_def setdefault_entry Let_def prod.case g put_entry_same
    by (simp add: put_entry_def split: verdict.split)
qed

lemma record_403_entry:
  assumes "0 < block_after g" and "last_counted (entry_of g p) \<noteq> Some (isoformat day)"
  shows "dget (guard_entries (fst (record_night p V_403 day g))) p =
    Some \<lparr>nights = Suc (nights (entry_of g p)),
          skip_until = (if block_after g \<le> Suc (nights (entry_of g p)) \<and> d_year ((next_day ^^ cooldown_days g) day) \<le> 9999
                        then Some (isoformat ((next_day ^^ cooldown_days g) day)) else skip_until (entry_of g p)),
          last_counted = Some (isoformat day)\<rparr>"
  using assms by (auto simp: record_night_eq Let_def add_days_def)

lemma record_403s_Nil [simp]: "record_403s p [] g = g"
  by (simp add: record_403s_def)

lemma record_403s_entry:
  assumes "dget (guard_entries g) p = None" and "0 < block_after g"
    and "\<forall>d \<in> set days. in_calendar d" and "sorted_wrt date_less days" and "days \<noteq> []"
    and "length days \<le> block_after g" and "d_year ((next_day ^^ cooldown_days g) (last days)) \<le> 9999"
  shows "dget (guard_entries (record_403s p days g)) p =
    Some \<lparr>nights = length days,
          skip_until = (if length days = block_after g
                        then Some (isoformat ((next_day ^^ cooldown_days g) (last days))) else None),
          last_counted = Some (isoformat (last days))\<rparr> \<and>
    block_after (record_403s p days g) = block_after g \<and> cooldown_days (record_403s p days g) = cooldown_days g"
  using assms(3-7)
proof (induction days rule: rev_induct)
  case (snoc day days)
  let ?g = "record_403s p days g"
  have unf: "record_403s p (days @ [day]) g = fst (record_night p V_403 day ?g)"
    by (simp add: record_403s_def)
  show ?case
  proof (cases "days = []")
    case True
    have e: "entry_of g p = new_entry" using assms(1) by (simp add: entry_of_def)
    with record_403_entry [of g p day] assms(2) snoc.prems show ?thesis
      unfolding unf by (simp add: True new_entry_def)
  next
    case False
    have "last days \<in> set days" using False by simp
    then have lt: "date_less (last days) day" using snoc.prems(2) by (simp add: sorted_wrt_append)
    have ne: "isoformat (last days) \<noteq> isoformat day"
      using isoformat_inj [of "last days" day] snoc.prems(1) lt date_less_irrefl \<open>last days \<in> set days\<close>
      by (auto simp: in_calendar_def)
    have iy: "\<forall>d\<in>set days. in_calendar d" "sorted_wrt date_less days" "length days \<le> block_after g"
      "length days \<noteq> block_after g"
      using snoc.prems by (simp_all add: sorted_wrt_append)
    have "d_year ((next_day ^^ cooldown_days g) (last days)) \<le> 9999"
      using snoc.prems(5) days_mono_year [OF lt, of "cooldown_days g"] snoc.prems(1) \<open>last days \<in> set days\<close>
      by (auto simp: in_calendar_def)
    with snoc.IH [OF iy(1,2) False iy(3)] iy(4)
    have e: "entry_of ?g p =
        \<lparr>nights = length days, skip_until = None, last_counted = Some (isoformat (last days))\<rparr>"
      and fr: "block_after ?g = block_after g" "cooldown_days ?g = cooldown_days g" by (simp_all add: entry_of_def)
    from record_403_entry [of ?g p day] e fr ne assms(2) snoc.prems(4,5) show ?thesis
      unfolding unf by auto
  qed
qed simp

text \<open>C31: A provider without a record that answers 403 on as many nights in a row as the breaker allows
  is left alone on exactly the days before the last of them plus the cooldown; with fewer such nights
  it is never left alone.\<close>

theorem breaker_trips:
  assumes "dget (guard_entries g) p = None" and "0 < block_after g"
    and "\<forall>d \<in> set days. in_calendar d" and "sorted_wrt date_less days" and "days \<noteq> []"
    and "length days \<le> block_after g" and "in_calendar ((next_day ^^ cooldown_days g) (last days))"
    and "in_calendar today"
  shows "blocked (record_403s p days g) p today \<noteq> None \<longleftrightarrow>
    length days = block_after g \<and> date_less today ((next_day ^^ cooldown_days g) (last days))"
proof -
  let ?until = "(next_day ^^ cooldown_days g) (last days)"
  have "d_year ?until \<le> 9999" using assms(7) by (simp add: in_calendar_def)
  note E = record_403s_entry [OF assms(1-6) this]
  have "isoformat ?until \<noteq> []" by (simp add: isoformat_def u_def)
  moreover have "isoformat ?until \<le> isoformat today \<longleftrightarrow> \<not> date_less today ?until"
    using isoformat_less [of today ?until] assms(7,8) by (metis in_calendar_def linorder_not_less)
  ultimately show ?thesis using E assms(2) by (simp add: blocked_def)
qed

lemma seven_days: "(next_day ^^ 7) d = next_day (next_day (next_day (next_day (next_day (next_day (next_day d))))))"
  by (simp add: eval_nat_numeral)

definition day_of :: "nat \<Rightarrow> nat \<Rightarrow> nat \<Rightarrow> date" where
  "day_of y m d = \<lparr>d_year = y, d_month = m, d_day = d\<rparr>"

theorem breaker_trips_witness:
  "blocked (record_403s (u ''uaflix'') [day_of 2026 12 30, day_of 2026 12 31, day_of 2027 1 1] (new_guard 3 7))
     (u ''uaflix'') (day_of 2027 1 7) \<noteq> None"
proof -
  let ?g = "new_guard 3 7" and ?days = "[day_of 2026 12 30, day_of 2026 12 31, day_of 2027 1 1]"
  have u: "(next_day ^^ cooldown_days ?g) (last ?days) = day_of 2027 1 8"
    by (simp add: new_guard_def seven_days, simp add: next_day_def day_of_def days_in_month_def leap_def)
  have g: "dget (guard_entries ?g) (u ''uaflix'') = None" "block_after ?g = 3" by (simp_all add: new_guard_def)
  have d: "\<forall>d \<in> set ?days. in_calendar d" "in_calendar (day_of 2027 1 8)" "in_calendar (day_of 2027 1 7)"
    by (simp_all add: in_calendar_def day_of_def date_ok_def days_in_month_def)
  have "sorted_wrt date_less ?days" "date_less (day_of 2027 1 7) (day_of 2027 1 8)"
    by (simp_all add: day_of_def date_less_def)
  then show ?thesis using breaker_trips [OF g(1) _ d(1), of "day_of 2027 1 7"] g d u by simp
qed

text \<open>One more 403 on a tripped provider starts a full cooldown at once; a success forgets the
  provider; any other failure keeps the cooldown in place and resets the streak.\<close>

theorem breaker_probe:
  assumes "0 < block_after g" and "block_after g \<le> nights (entry_of g p)"
    and "in_calendar day" and "in_calendar ((next_day ^^ cooldown_days g) day)" and "in_calendar today"
  shows "(blocked (fst (record_night p V_403 day g)) p today \<noteq> None \<longleftrightarrow>
      date_less today ((next_day ^^ cooldown_days g) day)) \<and>
    blocked (fst (record_night p V_ok day g)) p today = None \<and>
    (blocked (fst (record_night p V_other day g)) p today \<noteq> None \<longleftrightarrow> blocked g p today \<noteq> None) \<and>
    nights (entry_of (fst (record_night p V_other day g)) p) = 0"
proof -
  let ?until = "(next_day ^^ cooldown_days g) day" and ?g = "fst (record_night p V_403 day g)"
  have y: "d_year ?until \<le> 9999" using assms(4) by (simp add: in_calendar_def)
  have "\<exists>e. dget (guard_entries ?g) p = Some e \<and> skip_until e = Some (isoformat ?until)"
    using assms(1,2) y by (auto simp: record_night_eq Let_def add_days_def)
  moreover have "isoformat ?until \<noteq> []" by (simp add: isoformat_def u_def)
  moreover have "isoformat ?until \<le> isoformat today \<longleftrightarrow> \<not> date_less today ?until"
    using isoformat_less [of today ?until] assms(4,5) by (metis in_calendar_def linorder_not_less)
  ultimately have "blocked ?g p today \<noteq> None \<longleftrightarrow> date_less today ?until"
    using assms(1) by (auto simp: blocked_def)
  moreover have "blocked (fst (record_night p V_ok day g)) p today = None"
    using assms(1) by (simp add: record_night_eq blocked_def Let_def dget_dpop)
  moreover have "blocked (fst (record_night p V_other day g)) p today \<noteq> None \<longleftrightarrow> blocked g p today \<noteq> None"
    using assms(1) by (auto simp: record_night_eq blocked_def Let_def entry_of_def new_entry_def split: option.splits)
  moreover have "nights (entry_of (fst (record_night p V_other day g)) p) = 0"
    using assms(1) by (simp add: record_night_eq Let_def entry_of_def [of "put_entry _ _ _"])
  ultimately show ?thesis by blast
qed

theorem breaker_probe_witness:
  "blocked (fst (record_night (u ''p'') V_403 (day_of 2028 2 25)
     (put_entry (u ''p'') \<lparr>nights = 3, skip_until = Some (u ''2028-02-20''), last_counted = None\<rparr> (new_guard 3 7))))
     (u ''p'') (day_of 2028 3 2) \<noteq> None"
proof -
  let ?g = "put_entry (u ''p'') \<lparr>nights = 3, skip_until = Some (u ''2028-02-20''), last_counted = None\<rparr> (new_guard 3 7)"
  have g: "0 < block_after ?g" "block_after ?g \<le> nights (entry_of ?g (u ''p''))"
    by (simp_all add: new_guard_def entry_of_def)
  have u: "(next_day ^^ cooldown_days ?g) (day_of 2028 2 25) = day_of 2028 3 3"
    by (simp add: new_guard_def seven_days, simp add: next_day_def day_of_def days_in_month_def leap_def)
  have d: "in_calendar (day_of 2028 2 25)" "in_calendar (day_of 2028 3 3)" "in_calendar (day_of 2028 3 2)"
    by (simp_all add: in_calendar_def day_of_def date_ok_def days_in_month_def leap_def)
  have "date_less (day_of 2028 3 2) (day_of 2028 3 3)" by (simp add: day_of_def date_less_def)
  with breaker_probe [OF g d(1) _ d(3)] u d(2) show ?thesis by simp
qed

theorem guard_save_load_witness:
  "blocked (loaded (Some (saved (put_entry (u ''p'') \<lparr>nights = 3, skip_until = Some (u ''2028-02-20''), last_counted = None\<rparr>
       (new_guard 3 7)))) (new_guard 3 7)) (u ''p'') (day_of 2028 2 19) =
     Some \<lparr>si_nights = 3, retry_after = u ''2028-02-20''\<rparr>"
proof -
  let ?g = "put_entry (u ''p'') \<lparr>nights = 3, skip_until = Some (u ''2028-02-20''), last_counted = None\<rparr> (new_guard 3 7)"
  have "dwf (guard_entries ?g)" by (simp add: put_entry_def new_guard_def dwf_def)
  from guard_save_load [OF this, of "u ''p''" "day_of 2028 2 19"]
  have "blocked (loaded (Some (saved ?g)) (?g\<lparr>guard_entries := []\<rparr>)) (u ''p'') (day_of 2028 2 19) =
      blocked ?g (u ''p'') (day_of 2028 2 19)" by blast
  moreover have "?g\<lparr>guard_entries := []\<rparr> = new_guard 3 7" by (simp add: put_entry_def new_guard_def)
  moreover have "blocked ?g (u ''p'') (day_of 2028 2 19) = Some \<lparr>si_nights = 3, retry_after = u ''2028-02-20''\<rparr>"
    by code_simp
  ultimately show ?thesis by simp
qed

end
