(* ===== verification/Versioned_Store.thy ===== *)
theory Versioned_Store
  imports Json
begin

text \<open>
  Versioned JSON persistence, \<^verbatim>\<open>backend/cs_uk_api/versioned_store.py\<close>: the atomic write as a small-step
  relation that may stop anywhere, the load ladder and the save of \<^verbatim>\<open>VersionedFileStore\<close>, the event-loop
  debouncer \<^verbatim>\<open>AsyncDebouncedSave\<close> and the threaded one, \<^verbatim>\<open>DebouncedSave\<close>, whose worker and client
  interleave between two acquisitions of the condition's lock.
\<close>

section \<open>The atomic write\<close>

datatype write_phase = W_start | W_writing | W_synced | W_done | W_failed

record wstate =
  phase :: write_phase
  target :: "nat list option"
  temp :: "nat list option"

text \<open>
  \<open>write_step blob\<close>: one system call of \<^verbatim>\<open>_atomic_write\<close>.  A failing call leads to \<open>W_failed\<close>, with the
  temporary file removed or, when \<^verbatim>\<open>unlink\<close> fails too, left behind.
\<close>

inductive write_step :: "nat list \<Rightarrow> wstate \<Rightarrow> wstate \<Rightarrow> bool" for blob where
  Mkstemp: "phase s = W_start \<Longrightarrow> write_step blob s (s\<lparr>phase := W_writing, temp := Some []\<rparr>)"
| Mkstemp_fails: "phase s = W_start \<Longrightarrow> write_step blob s (s\<lparr>phase := W_failed\<rparr>)"
| Write: "phase s = W_writing \<Longrightarrow> temp s = Some t \<Longrightarrow> blob = t @ chunk @ rest \<Longrightarrow>
    write_step blob s (s\<lparr>temp := Some (t @ chunk)\<rparr>)"
| Fsync: "phase s = W_writing \<Longrightarrow> temp s = Some blob \<Longrightarrow> write_step blob s (s\<lparr>phase := W_synced\<rparr>)"
| Replace: "phase s = W_synced \<Longrightarrow>
    write_step blob s (s\<lparr>phase := W_done, target := temp s, temp := None\<rparr>)"
| Fails_unlinked: "phase s \<in> {W_writing, W_synced} \<Longrightarrow> write_step blob s (s\<lparr>phase := W_failed, temp := None\<rparr>)"
| Fails_left: "phase s \<in> {W_writing, W_synced} \<Longrightarrow> write_step blob s (s\<lparr>phase := W_failed\<rparr>)"

inductive_cases write_stepE: "write_step blob s s'"

definition write_start :: "nat list option \<Rightarrow> wstate" where
  "write_start old = \<lparr>phase = W_start, target = old, temp = None\<rparr>"

definition write_inv :: "nat list option \<Rightarrow> nat list \<Rightarrow> wstate \<Rightarrow> bool" where
  "write_inv old blob s \<longleftrightarrow>
     (if phase s = W_done then target s = Some blob else target s = old) \<and>
     (phase s = W_synced \<longrightarrow> temp s = Some blob)"

lemma write_inv_step: "write_step blob s s' \<Longrightarrow> write_inv old blob s \<Longrightarrow> write_inv old blob s'"
  by (erule write_stepE) (auto simp: write_inv_def)



section \<open>The store\<close>

text \<open>
  What \<^verbatim>\<open>read_text\<close> and \<^verbatim>\<open>json.loads\<close> make of the file: \<open>Undecodable\<close> is not UTF-8, \<open>Unparsable\<close> a
  \<^verbatim>\<open>JSONDecodeError\<close>, \<open>Int_too_long\<close> a number beyond the interpreter's digit limit, \<open>Too_deep\<close> a
  nesting beyond its recursion limit.
\<close>

datatype file_content = Absent | Unreadable | Undecodable | Unparsable | Int_too_long | Too_deep | Document json

datatype load_error = Unicode_decode_error | Value_error | Recursion_error

definition load_store :: "int list \<Rightarrow> (json \<Rightarrow> 'p option) \<Rightarrow> file_content \<Rightarrow> load_error + 'p option" where
  "load_store supported decode f =
     (case f of
        Absent \<Rightarrow> Inr None
      | Unreadable \<Rightarrow> Inr None
      | Undecodable \<Rightarrow> Inl Unicode_decode_error
      | Unparsable \<Rightarrow> Inr None
      | Int_too_long \<Rightarrow> Inl Value_error
      | Too_deep \<Rightarrow> Inl Recursion_error
      | Document doc \<Rightarrow>
          (case as_dict doc of
             None \<Rightarrow> Inr None
           | Some d \<Rightarrow>
               (case as_int (jget d (u ''version'')) of
                  None \<Rightarrow> Inr None
                | Some v \<Rightarrow> if v \<notin> set supported then Inr None else Inr (decode (jget d (u ''data''))))))"

text \<open>\<^verbatim>\<open>save\<close>: \<open>written\<close> is whether the atomic write went through; \<open>encode\<close> answers \<open>None\<close> when it raises.\<close>

definition envelope :: "int list \<Rightarrow> json \<Rightarrow> json" where
  "envelope supported data = JObject [(u ''version'', JInt (Max (set supported))), (u ''data'', data)]"

definition save_store :: "int list \<Rightarrow> ('p \<Rightarrow> json option) \<Rightarrow> bool \<Rightarrow> 'p \<Rightarrow> file_content \<Rightarrow> file_content" where
  "save_store supported encode written p f =
     (case encode p of
        None \<Rightarrow> f
      | Some j \<Rightarrow> if written then Document (envelope supported j) else f)"

text \<open>An adapter: what it encodes, it decodes to the same state.\<close>

locale store_adapter =
  fixes supported :: "int list" and encode :: "'s \<Rightarrow> json option" and decode :: "json \<Rightarrow> 'p option"
    and view :: "'s \<Rightarrow> 'p" and ok :: "'s \<Rightarrow> bool"
  assumes versions: "supported \<noteq> []"
    and decode_encode: "ok s \<Longrightarrow> \<exists>j. encode s = Some j \<and> decode j = Some (view s)"
begin

lemma load_save: "ok s \<Longrightarrow> load_store supported decode (save_store supported encode True s f) = Inr (Some (view s))"
  using decode_encode [of s] versions
  by (auto simp: load_store_def save_store_def envelope_def u_def Max_in)

lemma failed_save_keeps: "save_store supported encode False s f = f"
  by (auto simp: save_store_def split: option.splits)

end

text \<open>Of all files, exactly the one whose bytes are not UTF-8, the one with an integer beyond the
  digit limit and the one nested too deep make \<^verbatim>\<open>load\<close> raise, although it is documented never to.\<close>

theorem load_raises_iff:
  "(\<exists>e. load_store supported decode f = Inl e) \<longleftrightarrow> f \<in> {Undecodable, Int_too_long, Too_deep}"
  by (cases f) (auto simp: load_store_def split: option.splits)

section \<open>The event-loop debouncer\<close>

record 'p saver =
  pending :: "'p option"
  has_pending :: bool
  timer :: bool
  closed :: bool

definition new_saver :: "'p saver" where
  "new_saver = \<lparr>pending = None, has_pending = False, timer = False, closed = False\<rparr>"

text \<open>Every operation answers the payloads it hands to \<^verbatim>\<open>store.save\<close>.\<close>

definition write_pending :: "'p saver \<Rightarrow> 'p saver \<times> 'p list" where
  "write_pending s =
     (let s1 = s\<lparr>timer := False\<rparr> in
      if \<not> has_pending s1 then (s1, [])
      else (s1\<lparr>has_pending := False, pending := None\<rparr>,
            (case pending s1 of None \<Rightarrow> [] | Some p \<Rightarrow> [p])))"

definition request :: "bool \<Rightarrow> 'p \<Rightarrow> 'p saver \<Rightarrow> 'p saver \<times> 'p list" where
  "request loop_running p s =
     (if closed s then (s, [p])
      else
        (let s1 = s\<lparr>pending := Some p, has_pending := True\<rparr> in
         if \<not> loop_running then write_pending s1 else (s1\<lparr>timer := True\<rparr>, [])))"

definition flush :: "'p saver \<Rightarrow> 'p saver \<times> 'p list" where
  "flush s = write_pending (s\<lparr>timer := False\<rparr>)"

definition close :: "'p saver \<Rightarrow> 'p saver \<times> 'p list" where
  "close s = (let (s1, w) = flush s in (s1\<lparr>closed := True\<rparr>, w))"

text \<open>The timer's callback, when the loop runs it.\<close>

definition fire :: "'p saver \<Rightarrow> 'p saver \<times> 'p list" where
  "fire s = (if timer s then write_pending s else (s, []))"

datatype 'p save_event = Ev_request bool 'p | Ev_fire | Ev_flush | Ev_close

fun do_event :: "'p save_event \<Rightarrow> 'p saver \<Rightarrow> 'p saver \<times> 'p list" where
  "do_event (Ev_request r p) s = request r p s"
| "do_event Ev_fire s = fire s"
| "do_event Ev_flush s = flush s"
| "do_event Ev_close s = close s"

fun save_run :: "'p save_event list \<Rightarrow> 'p saver \<Rightarrow> 'p saver \<times> 'p list" where
  "save_run [] s = (s, [])"
| "save_run (e # es) s =
     (let (s1, w1) = do_event e s; (s2, w2) = save_run es s1 in (s2, w1 @ w2))"

fun requests :: "'p save_event list \<Rightarrow> 'p list" where
  "requests [] = []"
| "requests (Ev_request r p # es) = p # requests es"
| "requests (e # es) = requests es"

definition last_opt :: "'a list \<Rightarrow> 'a option" where
  "last_opt xs = (if xs = [] then None else Some (last xs))"

lemma last_opt_append: "last_opt (xs @ ys) = (if ys = [] then last_opt xs else last_opt ys)"
  by (simp add: last_opt_def)

text \<open>\<open>save_inv req wr s\<close>: the last request was \<open>req\<close> and the last write \<open>wr\<close>.\<close>

definition save_inv :: "'p option \<Rightarrow> 'p option \<Rightarrow> 'p saver \<Rightarrow> bool" where
  "save_inv req wr s \<longleftrightarrow>
     (timer s = has_pending s) \<and> (closed s \<longrightarrow> \<not> has_pending s) \<and>
     (if has_pending s then pending s = req \<and> req \<noteq> None else wr = req)"

lemma save_inv_event:
  assumes "save_inv req wr s" and "do_event e s = (s', w)"
  shows "save_inv (if requests [e] = [] then req else last_opt (requests [e])) (if w = [] then wr else last_opt w) s'"
  using assms
  by (cases e) (auto simp: save_inv_def request_def write_pending_def fire_def flush_def close_def last_opt_def
      Let_def split: if_splits option.splits)

lemma requests_Cons: "requests (e # es) = requests [e] @ requests es"
  by (cases e) simp_all

lemma save_inv_run:
  "save_inv req wr s \<Longrightarrow> save_run es s = (s', w) \<Longrightarrow>
   save_inv (if requests es = [] then req else last_opt (requests es)) (if w = [] then wr else last_opt w) s'"
proof (induction es arbitrary: s w req wr)
  case (Cons e es)
  obtain s1 w1 where 1: "do_event e s = (s1, w1)" by force
  obtain w2 where 2: "save_run es s1 = (s', w2)" "w = w1 @ w2"
    using Cons.prems(2) 1 by (auto split: prod.splits)
  from Cons.IH [OF save_inv_event [OF Cons.prems(1) 1] 2(1)]
  show ?case unfolding requests_Cons [of e es] 2(2) by (auto simp: last_opt_append split: if_splits)
qed (simp)

text \<open>After any sequence of requests, timer ticks, flushes and closes, a request that is not yet
  written is the latest one and has its timer armed, and otherwise the latest write is the latest
  request: no request is lost and no older one is written over a newer one.\<close>

theorem debounce_latest_wins:
  "case save_run es new_saver of (s, w) \<Rightarrow>
     timer s = has_pending s \<and>
     (if has_pending s then pending s = last_opt (requests es) else last_opt w = last_opt (requests es))"
proof -
  obtain s w where r: "save_run es new_saver = (s, w)" by force
  have "save_inv None None (new_saver :: 'a saver)" by (simp add: save_inv_def new_saver_def)
  from save_inv_run [OF this r] show ?thesis
    by (auto simp: r save_inv_def last_opt_def split: if_splits)
qed

text \<open>After a flush or a close nothing is pending, and the last payload handed to the store is the
  last one requested; after a close every request is written at once.\<close>

theorem flush_writes_everything:
  "(case save_run (es @ [Ev_flush]) new_saver of (s, w) \<Rightarrow> \<not> has_pending s \<and> last_opt w = last_opt (requests es)) \<and>
   (case save_run (es @ [Ev_close, Ev_request r p]) new_saver of (s, w) \<Rightarrow> closed s \<and> last_opt w = Some p)"
proof -
  have inv0: "save_inv None None (new_saver :: 'a saver)" by (simp add: save_inv_def new_saver_def)
  have app: "save_run (es @ fs) s = (let (s1, w1) = save_run es s; (s2, w2) = save_run fs s1 in (s2, w1 @ w2))" for es fs and s :: "'a saver"
    by (induction es arbitrary: s) (simp_all add: case_prod_beta Let_def)
  obtain s w where r: "save_run es new_saver = (s, w)" by force
  note I = save_inv_run [OF inv0 r]
  show ?thesis
    using I
    by (auto simp: app r save_inv_def flush_def close_def request_def write_pending_def last_opt_def Let_def
        split: if_splits option.splits)
qed

section \<open>The threaded debouncer\<close>

text \<open>
  The worker of \<^verbatim>\<open>DebouncedSave\<close> and its client.  Between two steps either may run; what happens under the
  condition's lock is one step, and the call of \<^verbatim>\<open>store.save\<close>, outside the lock, is another.  Waiting on
  the condition ends by \<^verbatim>\<open>notify_all\<close> or, in the window, by its timeout.
\<close>

datatype 'p worker_at =
    Not_started | Loop_top | Wait_request | Wait_window | After_window | Worker_saving 'p | Exited

datatype 'p client_at = Client_idle | Client_flushing 'p

record 'p debounce =
  worker :: "'p worker_at"
  client :: "'p client_at"
  waiting :: "'p option"
  shut :: bool
  disk :: "'p option"
  requested :: "'p option"

definition new_debounce :: "'p debounce" where
  "new_debounce = \<lparr>worker = Not_started, client = Client_idle, waiting = None, shut = False, disk = None, requested = None\<rparr>"

text \<open>\<^verbatim>\<open>notify_all\<close> ends both waits; the first request starts the thread.\<close>

definition notified :: "'p worker_at \<Rightarrow> 'p worker_at" where
  "notified w = (case w of Wait_request \<Rightarrow> Loop_top | Wait_window \<Rightarrow> After_window | _ \<Rightarrow> w)"

definition started :: "'p worker_at \<Rightarrow> 'p worker_at" where
  "started w = (case w of Not_started \<Rightarrow> Loop_top | _ \<Rightarrow> notified w)"

datatype 'p debounce_label = L_request 'p | L_flush | L_close | L_client_save | L_timeout | L_worker

inductive debounce_step :: "'p debounce \<Rightarrow> 'p debounce_label \<Rightarrow> 'p debounce \<Rightarrow> bool" where
  Request: "client s = Client_idle \<Longrightarrow> \<not> shut s \<Longrightarrow>
    debounce_step s (L_request p)
      (s\<lparr>waiting := Some p, worker := started (worker s), requested := Some p\<rparr>)"
| Request_shut: "client s = Client_idle \<Longrightarrow> shut s \<Longrightarrow>
    debounce_step s (L_request p) (s\<lparr>client := Client_flushing p, requested := Some p\<rparr>)"
| Flush: "client s = Client_idle \<Longrightarrow>
    debounce_step s L_flush
      (s\<lparr>client := (case waiting s of None \<Rightarrow> Client_idle | Some p \<Rightarrow> Client_flushing p),
         waiting := None, worker := notified (worker s)\<rparr>)"
| Client_save: "client s = Client_flushing p \<Longrightarrow>
    debounce_step s L_client_save (s\<lparr>client := Client_idle, disk := Some p\<rparr>)"
| Close: "client s = Client_idle \<Longrightarrow>
    debounce_step s L_close (s\<lparr>shut := True, worker := notified (worker s)\<rparr>)"
| Top_exit: "worker s = Loop_top \<Longrightarrow> shut s \<Longrightarrow> waiting s = None \<Longrightarrow>
    debounce_step s L_worker (s\<lparr>worker := Exited\<rparr>)"
| Top_wait: "worker s = Loop_top \<Longrightarrow> \<not> shut s \<Longrightarrow> waiting s = None \<Longrightarrow>
    debounce_step s L_worker (s\<lparr>worker := Wait_request\<rparr>)"
| Top_shut: "worker s = Loop_top \<Longrightarrow> shut s \<Longrightarrow> waiting s = Some p \<Longrightarrow>
    debounce_step s L_worker (s\<lparr>worker := Worker_saving p, waiting := None\<rparr>)"
| Top_window: "worker s = Loop_top \<Longrightarrow> \<not> shut s \<Longrightarrow> waiting s = Some p \<Longrightarrow>
    debounce_step s L_worker (s\<lparr>worker := Wait_window\<rparr>)"
| Timeout: "worker s = Wait_window \<Longrightarrow> debounce_step s L_timeout (s\<lparr>worker := After_window\<rparr>)"
| Window_empty: "worker s = After_window \<Longrightarrow> waiting s = None \<Longrightarrow>
    debounce_step s L_worker (s\<lparr>worker := Loop_top\<rparr>)"
| Window_take: "worker s = After_window \<Longrightarrow> waiting s = Some p \<Longrightarrow>
    debounce_step s L_worker (s\<lparr>worker := Worker_saving p, waiting := None\<rparr>)"
| Worker_save: "worker s = Worker_saving p \<Longrightarrow>
    debounce_step s L_worker (s\<lparr>worker := Loop_top, disk := Some p\<rparr>)"

inductive_cases debounce_stepE: "debounce_step s l s'"

inductive debounce_run :: "'p debounce \<Rightarrow> 'p debounce_label list \<Rightarrow> 'p debounce \<Rightarrow> bool" where
  Run_nil: "debounce_run s [] s"
| Run_snoc: "debounce_run s ls t \<Longrightarrow> debounce_step t l t' \<Longrightarrow> debounce_run s (ls @ [l]) t'"

text \<open>Without a flush and before a close, the latest request is waiting, being saved, or on disk, and the
  worker is awake whenever something waits.\<close>

definition debounce_inv :: "'p debounce \<Rightarrow> bool" where
  "debounce_inv s \<longleftrightarrow>
     client s = Client_idle \<and> \<not> shut s \<and> worker s \<noteq> Exited \<and>
     (case waiting s of
        Some p \<Rightarrow> requested s = Some p \<and> worker s \<notin> {Not_started, Wait_request}
      | None \<Rightarrow> (case worker s of Worker_saving p \<Rightarrow> requested s = Some p | _ \<Rightarrow> disk s = requested s))"

lemma debounce_inv_step:
  "debounce_step s l t \<Longrightarrow> debounce_inv s \<Longrightarrow> l \<notin> {L_flush, L_close} \<Longrightarrow> debounce_inv t"
  by (erule debounce_stepE)
    (auto simp: debounce_inv_def started_def notified_def split: worker_at.splits option.splits)

text \<open>As long as the client only makes requests, the threaded debouncer loses none: when nothing waits
  and the worker is not saving, the file holds the latest request; and a waiting request never finds the
  worker asleep.\<close>

theorem threaded_requests_not_lost:
  assumes "debounce_run new_debounce ls s" and "L_flush \<notin> set ls" and "L_close \<notin> set ls"
  shows "(waiting s = None \<and> (\<forall>p. worker s \<noteq> Worker_saving p) \<longrightarrow> disk s = requested s) \<and>
    (waiting s \<noteq> None \<longrightarrow> waiting s = requested s \<and> worker s \<noteq> Wait_request)"
proof -
  have "s0 = new_debounce \<Longrightarrow> L_flush \<notin> set ls \<Longrightarrow> L_close \<notin> set ls \<Longrightarrow> debounce_inv s" if "debounce_run s0 ls s" for s0 :: "'a debounce"
    using that
  proof (induction rule: debounce_run.induct)
    case (Run_nil s)
    then show ?case by (simp add: debounce_inv_def new_debounce_def)
  next
    case (Run_snoc s ls t l t')
    then show ?case using debounce_inv_step [of t l t'] by auto
  qed
  with assms have "debounce_inv s" by blast
  then show ?thesis by (auto simp: debounce_inv_def split: option.splits worker_at.splits)
qed

text \<open>The states of two runs, computed from the labels.\<close>

definition worker_state :: "nat worker_at \<Rightarrow> nat client_at \<Rightarrow> nat option \<Rightarrow> nat option \<Rightarrow> nat option \<Rightarrow> nat debounce" where
  "worker_state w c p d r = \<lparr>worker = w, client = c, waiting = p, shut = False, disk = d, requested = r\<rparr>"

lemma early_run:
  "debounce_run new_debounce [L_request 1, L_worker, L_request 2, L_worker, L_worker]
     (worker_state Loop_top Client_idle None (Some 2) (Some 2))"
proof -
  note defs = new_debounce_def worker_state_def started_def notified_def
  have "debounce_run new_debounce [] (worker_state Not_started Client_idle None None None)"
    using Run_nil [of "new_debounce :: nat debounce"] by (simp add: defs)
  then have "debounce_run new_debounce [L_request 1] (worker_state Loop_top Client_idle (Some 1) None (Some 1))"
    using Run_snoc [OF _ Request [of _ 1]] by (force simp: defs)
  then have "debounce_run new_debounce [L_request 1, L_worker] (worker_state Wait_window Client_idle (Some 1) None (Some 1))"
    using Run_snoc [OF _ Top_window] by (force simp: defs)
  then have "debounce_run new_debounce [L_request 1, L_worker, L_request 2] (worker_state After_window Client_idle (Some 2) None (Some 2))"
    using Run_snoc [OF _ Request [of _ 2]] by (force simp: defs)
  then have "debounce_run new_debounce [L_request 1, L_worker, L_request 2, L_worker] (worker_state (Worker_saving 2) Client_idle None None (Some 2))"
    using Run_snoc [OF _ Window_take] by (force simp: defs)
  then show ?thesis
    using Run_snoc [OF _ Worker_save] by (force simp: defs)
qed

theorem threaded_requests_not_lost_witness:
  "\<exists>s. debounce_run new_debounce [L_request (1::nat), L_worker, L_request 2, L_worker, L_worker] s \<and>
     waiting s = None \<and> disk s = requested s"
proof -
  let ?s = "worker_state Loop_top Client_idle None (Some 2) (Some 2)"
  have "waiting ?s = None \<and> (\<forall>p. worker ?s \<noteq> Worker_saving p)" by (simp add: worker_state_def)
  with threaded_requests_not_lost [OF early_run] early_run show ?thesis by auto
qed

text \<open>A second request ends the worker's wait: it is written at once, without the idle window having
  passed since it was made.\<close>

theorem second_request_written_early:
  "\<exists>ls s. debounce_run new_debounce (L_request (1::nat) # L_worker # L_request 2 # ls) s \<and> L_timeout \<notin> set ls \<and>
     disk s = Some 2"
  using early_run
  by (intro exI [of _ "[L_worker, L_worker]"] exI [of _ "worker_state Loop_top Client_idle None (Some 2) (Some 2)"])
    (simp add: worker_state_def)

lemma stale_run:
  "debounce_run new_debounce [L_request 1, L_worker, L_timeout, L_worker, L_request 2, L_flush, L_client_save, L_worker]
     (worker_state Loop_top Client_idle None (Some 1) (Some 2))"
proof -
  note defs = new_debounce_def worker_state_def started_def notified_def
  have "debounce_run new_debounce [] (worker_state Not_started Client_idle None None None)"
    using Run_nil [of "new_debounce :: nat debounce"] by (simp add: defs)
  then have "debounce_run new_debounce [L_request 1] (worker_state Loop_top Client_idle (Some 1) None (Some 1))"
    using Run_snoc [OF _ Request [of _ 1]] by (force simp: defs)
  then have "debounce_run new_debounce [L_request 1, L_worker] (worker_state Wait_window Client_idle (Some 1) None (Some 1))"
    using Run_snoc [OF _ Top_window] by (force simp: defs)
  then have "debounce_run new_debounce [L_request 1, L_worker, L_timeout] (worker_state After_window Client_idle (Some 1) None (Some 1))"
    using Run_snoc [OF _ Timeout] by (force simp: defs)
  then have "debounce_run new_debounce [L_request 1, L_worker, L_timeout, L_worker] (worker_state (Worker_saving 1) Client_idle None None (Some 1))"
    using Run_snoc [OF _ Window_take] by (force simp: defs)
  then have "debounce_run new_debounce [L_request 1, L_worker, L_timeout, L_worker, L_request 2]
      (worker_state (Worker_saving 1) Client_idle (Some 2) None (Some 2))"
    using Run_snoc [OF _ Request [of _ 2]] by (force simp: defs)
  then have "debounce_run new_debounce [L_request 1, L_worker, L_timeout, L_worker, L_request 2, L_flush]
      (worker_state (Worker_saving 1) (Client_flushing 2) None None (Some 2))"
    using Run_snoc [OF _ Flush] by (force simp: defs)
  then have "debounce_run new_debounce [L_request 1, L_worker, L_timeout, L_worker, L_request 2, L_flush, L_client_save]
      (worker_state (Worker_saving 1) Client_idle None (Some 2) (Some 2))"
    using Run_snoc [OF _ Client_save] by (force simp: defs)
  then show ?thesis
    using Run_snoc [OF _ Worker_save] by (force simp: defs)
qed

text \<open>A flush that runs between the worker's taking of a payload and its save can end with an older
  payload on disk than the one the flush wrote, with nothing pending.\<close>

theorem flush_race_leaves_stale_file:
  "\<exists>ls s. debounce_run new_debounce ls (s :: nat debounce) \<and> waiting s = None \<and> worker s = Loop_top \<and>
     client s = Client_idle \<and> requested s = Some 2 \<and> disk s = Some 1"
  using stale_run
  by (intro exI [of _ "[L_request 1, L_worker, L_timeout, L_worker, L_request 2, L_flush, L_client_save, L_worker]"]
      exI [of _ "worker_state Loop_top Client_idle None (Some 1) (Some 2)"])
    (simp add: worker_state_def)

end
