(* ===== verification/Resume_Store.thy ===== *)
theory Resume_Store
  imports Versioned_Store Py_Float Py_Unicode
begin

text \<open>
  The playback resume store, \<^verbatim>\<open>backend/cs_uk_api/resume_store.py\<close>: positions, search queries and the
  finished history in memory, mirrored to one file through \<open>Versioned_Store\<close>.  A number of an entry
  is an \<^verbatim>\<open>int\<close> or a finite \<^verbatim>\<open>float\<close>; conversions to \<^verbatim>\<open>float\<close> round (\<open>fl\<close>).  The clock's
  reading is an argument.
\<close>

section \<open>State\<close>

definition max_queries :: nat where "max_queries = 50"
definition max_items :: nat where "max_items = 50"
definition finished_fraction :: rat where "finished_fraction = fl (19 / 20)"

record resume_entry =
  position_ticks :: int
  runtime_ticks :: "number option"
  updated_at :: "number option"

record resume =
  items :: "(ustr, resume_entry) pdict"
  queries :: "ustr list"
  finished :: "(ustr, rat) pdict"

definition empty_resume :: resume where
  "empty_resume = \<lparr>items = [], queries = [], finished = []\<rparr>"

section \<open>The persisted form\<close>

definition clean_entry :: "json \<Rightarrow> resume_entry option" where
  "clean_entry raw =
     (case as_dict raw of
        None \<Rightarrow> None
      | Some d \<Rightarrow>
          (case as_int (jget d (u ''position_ticks'')) of
             None \<Rightarrow> None
           | Some pos \<Rightarrow>
               if pos \<le> 0 then None
               else Some \<lparr>position_ticks = pos, runtime_ticks = as_number (jget d (u ''runtime_ticks'')),
                          updated_at = as_number (jget d (u ''updated_at''))\<rparr>))"

definition put_clean :: "(ustr, resume_entry) pdict \<Rightarrow> ustr \<times> json \<Rightarrow> (ustr, resume_entry) pdict" where
  "put_clean d kv = (case clean_entry (snd kv) of None \<Rightarrow> d | Some e \<Rightarrow> dset (fst kv) e d)"

definition put_stamp :: "(ustr, rat) pdict \<Rightarrow> ustr \<times> json \<Rightarrow> (ustr, rat) pdict" where
  "put_stamp d kv = (case as_number (snd kv) of None \<Rightarrow> d | Some n \<Rightarrow> dset (fst kv) (fl (num_value n)) d)"

text \<open>\<^verbatim>\<open>_decode_resume\<close>; \<open>None\<close> is the \<^verbatim>\<open>TypeError\<close>.  A missing section counts as the empty one, a \<^verbatim>\<open>null\<close> one too.\<close>

definition decode_resume :: "json \<Rightarrow> resume option" where
  "decode_resume data =
     (case as_dict data of
        None \<Rightarrow> None
      | Some d \<Rightarrow>
          (case as_dict (jget d (u ''items'')) of
             None \<Rightarrow> None
           | Some its \<Rightarrow>
               Some \<lparr>items = foldl put_clean [] its,
                     queries = (case as_list (jget d (u ''queries'')) of
                                  Some qs \<Rightarrow> take max_queries (List.map_filter as_str qs) | None \<Rightarrow> []),
                     finished = (case as_dict (jget d (u ''finished'')) of
                                   Some fs \<Rightarrow> foldl put_stamp [] fs | None \<Rightarrow> [])\<rparr>))"

definition encode_entry :: "resume_entry \<Rightarrow> json" where
  "encode_entry e =
     JObject ([(u ''position_ticks'', JInt (position_ticks e))] @
       (case runtime_ticks e of None \<Rightarrow> [] | Some r \<Rightarrow> [(u ''runtime_ticks'', num_json r)]) @
       (case updated_at e of None \<Rightarrow> [] | Some r \<Rightarrow> [(u ''updated_at'', num_json r)]))"

definition encode_resume :: "resume \<Rightarrow> json option" where
  "encode_resume s =
     Some (JObject
       [(u ''items'', JObject (map (\<lambda>(k, e). (k, encode_entry e)) (items s))),
        (u ''queries'', JList (map JStr (queries s))),
        (u ''finished'', JObject (map (\<lambda>(k, r). (k, JFloat r)) (finished s)))])"

section \<open>Operations\<close>

text \<open>\<^verbatim>\<open>_cap\<close>: the entry with the smallest \<open>(updated_at, key)\<close> is evicted, one per call.\<close>

definition stamp_of :: "resume_entry \<Rightarrow> rat" where
  "stamp_of e = (case updated_at e of Some n \<Rightarrow> fl (num_value n) | None \<Rightarrow> 0)"

definition age_key :: "ustr \<times> resume_entry \<Rightarrow> rat \<times> ustr" where
  "age_key kv = (stamp_of (snd kv), fst kv)"

definition older :: "ustr \<times> resume_entry \<Rightarrow> ustr \<times> resume_entry \<Rightarrow> bool" where
  "older a b \<longleftrightarrow> stamp_of (snd a) < stamp_of (snd b) \<or> stamp_of (snd a) = stamp_of (snd b) \<and> fst a < fst b"

fun oldest :: "ustr \<times> resume_entry \<Rightarrow> (ustr, resume_entry) pdict \<Rightarrow> ustr \<times> resume_entry" where
  "oldest x [] = x"
| "oldest x (y # ys) = oldest (if older y x then y else x) ys"

definition cap_items :: "(ustr, resume_entry) pdict \<Rightarrow> (ustr, resume_entry) pdict" where
  "cap_items d =
     (if length d \<le> max_items then d
      else (case d of [] \<Rightarrow> d | x # xs \<Rightarrow> dpop (fst (oldest x xs)) d))"

text \<open>How a mutation is persisted: not at all, at once, or through the debouncer.\<close>

datatype persist = Persist_none | Persist_now | Persist_request

definition schedule :: "bool \<Rightarrow> persist" where
  "schedule immediate = (if immediate then Persist_now else Persist_request)"

definition record_position ::
  "rat \<Rightarrow> ustr \<Rightarrow> int \<Rightarrow> int option \<Rightarrow> bool \<Rightarrow> resume \<Rightarrow> resume \<times> persist" where
  "record_position now i pos runtime immediate s =
     (if pos \<le> 0 then (s, Persist_none)
      else
        (let existing = dget (items s) i;
             known = (case runtime of Some r \<Rightarrow> Some (Num_int r)
                      | None \<Rightarrow> (case existing of Some e \<Rightarrow> runtime_ticks e | None \<Rightarrow> None))
         in if (case known of None \<Rightarrow> False | Some r \<Rightarrow> of_int pos \<ge> f_mul finished_fraction (fl (num_value r))) then
              (s\<lparr>items := dpop i (items s), finished := dset i now (finished s)\<rparr>, schedule immediate)
            else
              (let entry = \<lparr>position_ticks = pos, runtime_ticks = known, updated_at = Some (Num_float now)\<rparr>
               in (s\<lparr>items := cap_items (dset i entry (items s))\<rparr>, schedule immediate))))"

text \<open>\<^verbatim>\<open>sorted(..., reverse=True)\<close> keeps equal elements in their order.\<close>

definition by_progress :: "(ustr, resume_entry) pdict \<Rightarrow> (ustr, resume_entry) pdict" where
  "by_progress d = sort_key (\<lambda>kv. - position_ticks (snd kv)) d"

definition py_trunc :: "rat \<Rightarrow> int" where
  "py_trunc r = (if r < 0 then - \<lfloor>- r\<rfloor> else \<lfloor>r\<rfloor>)"

definition pos_runtime :: "resume_entry \<Rightarrow> int \<times> int option" where
  "pos_runtime e = (position_ticks e, map_option (\<lambda>n. py_trunc (num_value n)) (runtime_ticks e))"

definition positions :: "resume \<Rightarrow> (ustr, int) pdict" where
  "positions s = map (\<lambda>(k, e). (k, position_ticks e)) (by_progress (items s))"

definition positions_entries :: "resume \<Rightarrow> (ustr, int \<times> int option) pdict" where
  "positions_entries s = map (\<lambda>(k, e). (k, pos_runtime e)) (by_progress (items s))"

text \<open>The entries by \<open>(updated_at, key)\<close>, newest first: the keys are distinct, so no two are equal.\<close>

fun insert_newest :: "('a \<Rightarrow> rat \<times> ustr) \<Rightarrow> 'a \<Rightarrow> 'a list \<Rightarrow> 'a list" where
  "insert_newest f x [] = [x]"
| "insert_newest f x (y # ys) =
     (if fst (f y) > fst (f x) \<or> fst (f y) = fst (f x) \<and> snd (f y) \<ge> snd (f x)
      then y # insert_newest f x ys else x # y # ys)"

definition newest_first :: "('a \<Rightarrow> rat \<times> ustr) \<Rightarrow> 'a list \<Rightarrow> 'a list" where
  "newest_first f xs = foldl (\<lambda>acc x. insert_newest f x acc) [] xs"

definition recent_order :: "nat \<Rightarrow> resume \<Rightarrow> (ustr, resume_entry) pdict" where
  "recent_order limit s = take limit (newest_first age_key (items s))"

definition recent :: "nat \<Rightarrow> resume \<Rightarrow> (ustr, int) pdict" where
  "recent limit s = map (\<lambda>(k, e). (k, position_ticks e)) (recent_order limit s)"

definition recent_entries :: "nat \<Rightarrow> resume \<Rightarrow> (ustr, int \<times> int option) pdict" where
  "recent_entries limit s = map (\<lambda>(k, e). (k, pos_runtime e)) (recent_order limit s)"

definition history :: "nat \<Rightarrow> resume \<Rightarrow> ustr list" where
  "history limit s =
     (let timed = map (\<lambda>(k, e). (stamp_of e, k)) (items s) @ map (\<lambda>(k, r). (r, k)) (finished s)
      in map snd (take limit (newest_first id timed)))"

definition record_query :: "ucd \<Rightarrow> ustr \<Rightarrow> resume \<Rightarrow> resume \<times> persist" where
  "record_query U query s =
     (let q = strip U query in
      if q = [] then (s, Persist_none)
      else (s\<lparr>queries := take max_queries (q # filter (\<lambda>x. x \<noteq> q) (queries s))\<rparr>, schedule False))"

definition clear_resume :: "resume \<Rightarrow> resume \<times> persist" where
  "clear_resume s = (s\<lparr>items := [], queries := [], finished := []\<rparr>, Persist_request)"

section \<open>The invariant\<close>

definition resume_ok :: "resume \<Rightarrow> bool" where
  "resume_ok s \<longleftrightarrow>
     dwf (items s) \<and> dwf (finished s) \<and> length (items s) \<le> max_items \<and>
     (\<forall>e \<in> snd ` set (items s). 0 < position_ticks e) \<and>
     length (queries s) \<le> max_queries \<and> distinct (queries s) \<and> [] \<notin> set (queries s)"

datatype resume_op = Do_record rat ustr int "int option" bool | Do_query ustr | Do_clear

fun resume_step :: "ucd \<Rightarrow> resume_op \<Rightarrow> resume \<Rightarrow> resume \<times> persist" where
  "resume_step U (Do_record now i pos rt imm) s = record_position now i pos rt imm s"
| "resume_step U (Do_query q) s = record_query U q s"
| "resume_step U Do_clear s = clear_resume s"

definition resume_run :: "ucd \<Rightarrow> resume_op list \<Rightarrow> resume \<Rightarrow> resume" where
  "resume_run U ops s = fold (\<lambda>op s. fst (resume_step U op s)) ops s"

lemma oldest_in: "oldest x xs \<in> set (x # xs)"
proof (induction xs arbitrary: x)
  case (Cons y ys)
  from Cons.IH [of "if older y x then y else x"] show ?case by (auto split: if_splits)
qed simp

lemma dpop_members: "set (dpop k d) \<subseteq> set d"
  by (auto simp: dpop_def)

lemma cap_items_props:
  assumes "dwf d" and "length d \<le> Suc max_items"
  shows "length (cap_items d) \<le> max_items \<and> dwf (cap_items d) \<and> set (cap_items d) \<subseteq> set d"
proof (cases "length d \<le> max_items")
  case True
  then show ?thesis using assms(1) by (simp add: cap_items_def)
next
  case False
  then obtain x xs where d: "d = x # xs" by (cases d) auto
  have "fst (oldest x xs) \<in> set (dkeys d)" using oldest_in [of x xs] by (auto simp: d)
  from length_dpop [OF assms(1) this] assms(2) have "length (dpop (fst (oldest x xs)) d) \<le> max_items" by simp
  moreover have "cap_items d = dpop (fst (oldest x xs)) d" using False by (simp add: cap_items_def d)
  ultimately show ?thesis using assms(1) dpop_members [of "fst (oldest x xs)" d] by simp
qed

lemma record_position_shape:
  assumes "0 < pos"
  shows "\<exists>e. position_ticks e = pos \<and> updated_at e = Some (Num_float now) \<and>
    (fst (record_position now i pos rt imm s) = s\<lparr>items := dpop i (items s), finished := dset i now (finished s)\<rparr> \<or>
     fst (record_position now i pos rt imm s) = s\<lparr>items := cap_items (dset i e (items s))\<rparr>)"
proof -
  let ?known = "case rt of Some r \<Rightarrow> Some (Num_int r)
    | None \<Rightarrow> (case dget (items s) i of Some e \<Rightarrow> runtime_ticks e | None \<Rightarrow> None)"
  let ?e = "\<lparr>position_ticks = pos, runtime_ticks = ?known, updated_at = Some (Num_float now)\<rparr>"
  have "fst (record_position now i pos rt imm s) =
    (if case ?known of None \<Rightarrow> False | Some r \<Rightarrow> of_int pos \<ge> f_mul finished_fraction (fl (num_value r))
     then s\<lparr>items := dpop i (items s), finished := dset i now (finished s)\<rparr>
     else s\<lparr>items := cap_items (dset i ?e (items s))\<rparr>)"
    using assms unfolding record_position_def Let_def by (simp only: if_distrib fst_conv not_le) simp
  then show ?thesis by (intro exI [of _ ?e]) (auto split: if_splits)
qed

lemma record_position_ok:
  assumes "resume_ok s"
  shows "resume_ok (fst (record_position now i pos rt imm s))"
proof (cases "pos \<le> 0")
  case True
  then show ?thesis using assms by (simp add: record_position_def)
next
  case False
  have "dwf (items s)" "length (items s) \<le> max_items" and pos: "\<forall>e \<in> snd ` set (items s). 0 < position_ticks e"
    using assms by (auto simp: resume_ok_def)
  have cap: "length (cap_items (dset i e (items s))) \<le> max_items \<and> dwf (cap_items (dset i e (items s))) \<and>
      set (cap_items (dset i e (items s))) \<subseteq> insert (i, e) (set (items s))" for e
  proof -
    have "dwf (dset i e (items s))" "length (dset i e (items s)) \<le> Suc max_items"
      using \<open>dwf (items s)\<close> \<open>length (items s) \<le> max_items\<close> by (simp_all add: length_dset)
    from cap_items_props [OF this] set_dset [of i e "items s"] show ?thesis by blast
  qed
  have new: "\<forall>x \<in> snd ` set (cap_items (dset i e (items s))). 0 < position_ticks x" if "0 < position_ticks e" for e
    using cap [of e] pos that by fastforce
  have pop: "length (dpop i (items s)) \<le> max_items"
    using \<open>length (items s) \<le> max_items\<close> length_filter_le [of "\<lambda>kv. fst kv \<noteq> i" "items s"]
    unfolding dpop_def by (rule order.trans [rotated])
  obtain e where e: "position_ticks e = pos" and cases:
    "fst (record_position now i pos rt imm s) = s\<lparr>items := dpop i (items s), finished := dset i now (finished s)\<rparr> \<or>
     fst (record_position now i pos rt imm s) = s\<lparr>items := cap_items (dset i e (items s))\<rparr>"
    using record_position_shape [of pos now i rt imm s] False by auto
  from cases show ?thesis
  proof
    assume r: "fst (record_position now i pos rt imm s) = s\<lparr>items := dpop i (items s), finished := dset i now (finished s)\<rparr>"
    have "\<forall>x \<in> snd ` set (dpop i (items s)). 0 < position_ticks x"
      using pos dpop_members [of i "items s"] by blast
    then show ?thesis unfolding r using assms pop by (simp add: resume_ok_def)
  next
    assume r: "fst (record_position now i pos rt imm s) = s\<lparr>items := cap_items (dset i e (items s))\<rparr>"
    show ?thesis unfolding r using assms cap [of e] new [of e] e False by (simp add: resume_ok_def)
  qed
qed

lemma record_query_ok:
  assumes "resume_ok s"
  shows "resume_ok (fst (record_query U q s))"
  using assms by (auto simp: record_query_def resume_ok_def Let_def dest: in_set_takeD intro!: distinct_take)

text \<open>C40: In every state the store can reach from empty, at most fifty positions are kept, all positive and
  one per item, at most fifty queries, none blank and none twice, and one finishing time per item.\<close>

theorem resume_reachable_ok: "resume_ok (resume_run U ops empty_resume)"
proof -
  have step: "resume_ok (fst (resume_step U op s))" if "resume_ok s" for op s
    using that by (cases op) (simp_all add: record_position_ok record_query_ok, simp add: clear_resume_def resume_ok_def)
  have "resume_ok s \<Longrightarrow> resume_ok (resume_run U ops s)" for s
    by (induction ops arbitrary: s) (simp_all add: resume_run_def step)
  moreover have "resume_ok empty_resume" by (simp add: resume_ok_def empty_resume_def)
  ultimately show ?thesis by blast
qed

section \<open>Finishing and evicting\<close>

lemma set_insert_newest: "set (insert_newest f x xs) = insert x (set xs)"
  by (induction f x xs rule: insert_newest.induct) auto

lemma set_newest_first: "set (newest_first f xs) = set xs"
  unfolding newest_first_def by (induction xs rule: rev_induct) (auto simp: set_insert_newest)

text \<open>A report at or beyond the threshold of a known runtime takes the item off the shelves, where
  neither the progress nor the recency list shows it, and dates it in the finished history.\<close>

theorem finished_leaves_shelves:
  assumes "0 < pos" and "f_mul finished_fraction (fl (of_int rt)) \<le> of_int pos"
  shows "let s' = fst (record_position now i pos (Some rt) imm s) in
    i \<notin> fst ` set (positions s') \<and> i \<notin> fst ` set (recent n s') \<and> dget (finished s') i = Some now"
proof -
  have s': "fst (record_position now i pos (Some rt) imm s) =
      s\<lparr>items := dpop i (items s), finished := dset i now (finished s)\<rparr>"
    using assms by (simp add: record_position_def Let_def)
  have "i \<notin> fst ` set (recent n (s\<lparr>items := dpop i (items s), finished := dset i now (finished s)\<rparr>))"
    by (auto simp: recent_def recent_order_def set_newest_first dpop_def dest!: in_set_takeD)
  moreover have "i \<notin> fst ` set (positions (s\<lparr>items := dpop i (items s), finished := dset i now (finished s)\<rparr>))"
    by (auto simp: positions_def by_progress_def dpop_def)
  ultimately show ?thesis by (simp add: s' Let_def dget_dset)
qed

theorem finished_leaves_shelves_witness:
  "dget (finished (fst (record_position 9 (u ''a'') 96 (Some 100) True empty_resume))) (u ''a'') = Some 9"
proof -
  have "finished_fraction \<le> 19 / 20 + (19 / 20) / 2 ^ 53"
    using fl_error [of "19 / 20"] unfolding finished_fraction_def by (simp only: abs_le_iff) simp
  moreover have "fl (of_int 100) = (100 :: rat)" using fl_of_int [of 100] by simp
  moreover have "fl (finished_fraction * 100) \<le> finished_fraction * 100 + \<bar>finished_fraction * 100\<bar> / 2 ^ 53"
    using fl_error [of "finished_fraction * 100"] by (simp only: abs_le_iff) linarith
  moreover have "0 \<le> finished_fraction" unfolding finished_fraction_def by (rule fl_nonneg) simp
  ultimately have "f_mul finished_fraction (fl (of_int 100)) \<le> of_int 96"
    by (simp add: f_mul_def)
  from finished_leaves_shelves [OF _ this, of 9 "u ''a''" True empty_resume] show ?thesis by (simp add: Let_def)
qed

lemma older_linear: "fst a \<noteq> fst b \<Longrightarrow> older a b \<or> older b a"
  by (auto simp: older_def)

lemma older_trans: "older a b \<Longrightarrow> older b c \<Longrightarrow> older a c"
  by (auto simp: older_def)

lemma oldest_minimal:
  assumes "dwf (x # xs)" and "y \<in> set (x # xs)" and "y \<noteq> oldest x xs"
  shows "older (oldest x xs) y"
  using assms
proof (induction xs arbitrary: x y)
  case (Cons z zs)
  have dz: "dwf (z # zs)" "dwf (x # zs)" "fst x \<noteq> fst z" using Cons.prems(1) by (auto simp: dwf_def)
  let ?m = "if older z x then z else x" and ?l = "if older z x then x else z"
  have o: "oldest x (z # zs) = oldest ?m zs" by simp
  have m: "dwf (?m # zs)" using dz by simp
  have ml: "older ?m ?l" using older_linear [OF dz(3)] by auto
  show ?case
  proof (cases "y = ?l")
    case True
    have "older (oldest ?m zs) ?l"
    proof (cases "?m = oldest ?m zs")
      case True
      with ml show ?thesis by simp
    next
      case False
      have "older (oldest ?m zs) ?m" by (rule Cons.IH [OF m _ False]) simp
      from older_trans [OF this ml] show ?thesis .
    qed
    then show ?thesis unfolding o True .
  next
    case False
    then have "y \<in> set (?m # zs)" using Cons.prems(2) by (auto split: if_splits)
    from Cons.IH [OF m this] Cons.prems(3) show ?thesis unfolding o by blast
  qed
qed simp

text \<open>Recording a fresh item in a full store evicts exactly one entry, the one least recently
  updated; on a clock that has moved past every stored time it is never the one just recorded.\<close>

theorem eviction_is_lru:
  assumes "resume_ok s" and "length (items s) = max_items" and "i \<notin> fst ` set (items s)" and "0 < pos"
    and "\<forall>e \<in> snd ` set (items s). stamp_of e < fl now"
  shows "\<exists>k e. (k, e) \<in> set (items s) \<and>
    fst ` set (items (fst (record_position now i pos None imm s))) = insert i (fst ` set (items s) - {k}) \<and>
    (\<forall>k' e'. (k', e') \<in> set (items s) \<and> k' \<noteq> k \<longrightarrow> older (k, e) (k', e'))"
proof -
  let ?e = "\<lparr>position_ticks = pos, runtime_ticks = None, updated_at = Some (Num_float now)\<rparr>"
  let ?d = "items s @ [(i, ?e)]"
  have none: "dget (items s) i = None" using assms(3) by (simp add: map_of_eq_None_iff)
  have ds: "dset i ?e (items s) = ?d" using assms(3) by (simp add: dset_new)
  have res: "items (fst (record_position now i pos None imm s)) = cap_items ?d"
    using assms(4) none by (simp add: record_position_def Let_def ds)
  have wf: "dwf ?d" using assms(1,3) by (auto simp: resume_ok_def dwf_def)
  obtain x xs where its: "items s = x # xs" using assms(2) by (cases "items s") (auto simp: max_items_def)
  let ?o = "oldest x (xs @ [(i, ?e)])"
  have cap: "cap_items ?d = dpop (fst ?o) ?d" using assms(2) by (simp add: cap_items_def its)
  have oin: "?o \<in> set ?d" using oldest_in [of x "xs @ [(i, ?e)]"] by (simp add: its)
  have min: "older ?o y" if "y \<in> set ?d" "y \<noteq> ?o" for y
    using oldest_minimal [of x "xs @ [(i, ?e)]" y] that wf by (simp add: its)
  have "?o \<noteq> (i, ?e)"
  proof
    assume o: "?o = (i, ?e)"
    have "x \<in> set ?d" "x \<noteq> (i, ?e)" using its assms(3) by auto
    then have "older (i, ?e) x" using min [of x] o by simp
    moreover have "stamp_of (snd x) < fl now" using assms(5) its by simp
    ultimately show False by (simp add: older_def stamp_of_def)
  qed
  then have o: "?o \<in> set (items s)" using oin by simp
  then have k: "fst ?o \<noteq> i" using assms(3) by (metis fst_conv image_eqI)
  have "fst ` set (cap_items ?d) = insert i (fst ` set (items s) - {fst ?o})"
    using k by (auto simp: cap)
  moreover have "older (fst ?o, snd ?o) (k', e')" if "(k', e') \<in> set (items s)" "k' \<noteq> fst ?o" for k' e'
  proof -
    have "(k', e') \<noteq> ?o" using that(2) by (metis fst_conv)
    moreover have "(k', e') \<in> set ?d" using that(1) by simp
    ultimately have "(k', e') \<in> set ?d" "(k', e') \<noteq> ?o" by blast+
    from min [OF this] show ?thesis by simp
  qed
  ultimately show ?thesis using o unfolding res by (intro exI [of _ "fst ?o"] exI [of _ "snd ?o"]) auto
qed

definition full_resume :: resume where
  "full_resume =
     \<lparr>items = map (\<lambda>n. (dec_nat n, \<lparr>position_ticks = 5, runtime_ticks = None, updated_at = Some (Num_int 0)\<rparr>)) [0..<50],
      queries = [], finished = []\<rparr>"

theorem eviction_is_lru_witness:
  "\<exists>k e. (k, e) \<in> set (items full_resume) \<and>
    fst ` set (items (fst (record_position 1 (u ''new'') 7 None False full_resume))) =
      insert (u ''new'') (fst ` set (items full_resume) - {k})"
proof -
  have "inj_on dec_nat {0..<50}" by (rule inj_onI) (metis nat_of_dec_dec_nat)
  then have "distinct (map dec_nat [0..<50])" by (simp add: distinct_map)
  then have ok: "resume_ok full_resume"
    by (auto simp: resume_ok_def full_resume_def dwf_def comp_def max_items_def)
  have len: "length (items full_resume) = max_items" by (simp add: full_resume_def max_items_def)
  have "set (dec_nat n) \<subseteq> {48..57}" for n using dec_nat_digits [of _ n] by (auto simp: ascii_digit_def)
  moreover have "\<not> set (u ''new'') \<subseteq> {48..57}" by (simp add: u_def)
  ultimately have "dec_nat n \<noteq> u ''new''" for n by metis
  then have new: "u ''new'' \<notin> fst ` set (items full_resume)" by (force simp: full_resume_def)
  have "fl 1 = (1 :: rat)" using fl_of_int [of 1] by simp
  then have st: "\<forall>e \<in> snd ` set (items full_resume). stamp_of e < fl 1"
    by (auto simp: full_resume_def stamp_of_def)
  from eviction_is_lru [OF ok len new _ st, of 7 False] show ?thesis by auto
qed

section \<open>Persistence\<close>

definition storable :: "resume \<Rightarrow> bool" where
  "storable s \<longleftrightarrow>
     dwf (items s) \<and> dwf (finished s) \<and> (\<forall>e \<in> snd ` set (items s). 0 < position_ticks e) \<and>
     (\<forall>r \<in> snd ` set (finished s). fl r = r) \<and> length (queries s) \<le> max_queries"

lemma clean_encode: "0 < position_ticks e \<Longrightarrow> clean_entry (encode_entry e) = Some e"
  by (cases "runtime_ticks e"; cases "updated_at e")
    (simp_all add: clean_entry_def encode_entry_def)

lemma put_clean_all:
  "dwf (d @ its) \<Longrightarrow> \<forall>e \<in> snd ` set its. 0 < position_ticks e \<Longrightarrow>
   foldl put_clean d (map (\<lambda>(k, e). (k, encode_entry e)) its) = d @ its"
proof (induction its arbitrary: d)
  case (Cons ke its)
  obtain k e where ke: "ke = (k, e)" by force
  have "put_clean d (k, encode_entry e) = d @ [(k, e)]"
    using Cons.prems by (simp add: put_clean_def clean_encode ke dset_new dwf_def)
  with Cons.IH [of "d @ [(k, e)]"] Cons.prems show ?case by (simp add: ke)
qed simp

lemma put_stamp_all:
  "dwf (d @ fs) \<Longrightarrow> \<forall>r \<in> snd ` set fs. fl r = r \<Longrightarrow>
   foldl put_stamp d (map (\<lambda>(k, r). (k, JFloat r)) fs) = d @ fs"
proof (induction fs arbitrary: d)
  case (Cons kr fs)
  obtain k r where kr: "kr = (k, r)" by force
  have "put_stamp d (k, JFloat r) = d @ [(k, r)]"
    using Cons.prems by (simp add: put_stamp_def kr dset_new dwf_def)
  with Cons.IH [of "d @ [(k, r)]"] Cons.prems show ?case by (simp add: kr)
qed simp

lemma map_filter_strs: "List.map_filter as_str (map JStr qs) = qs"
  by (induction qs) (simp_all add: List.map_filter_simps)

lemma decode_encode_resume: "storable s \<Longrightarrow> \<exists>j. encode_resume s = Some j \<and> decode_resume j = Some s"
  using put_clean_all [of "[]" "items s"] put_stamp_all [of "[]" "finished s"]
  by (simp add: encode_resume_def decode_resume_def storable_def map_filter_strs)

interpretation resume_file: store_adapter "[1]" encode_resume decode_resume id storable
  by unfold_locales (use decode_encode_resume in simp_all)

section \<open>The store on disk\<close>

text \<open>The store, its debouncer, whose payload is the store itself, and its file.\<close>

record resume_sys =
  mem :: resume
  saver :: "unit saver"
  disk_file :: file_content

definition write_mem :: "resume_sys \<Rightarrow> resume_sys" where
  "write_mem y = y\<lparr>disk_file := save_store [1] encode_resume True (mem y) (disk_file y)\<rparr>"

definition via_saver :: "unit saver \<times> unit list \<Rightarrow> resume_sys \<Rightarrow> resume_sys" where
  "via_saver sw y =
     (let y1 = y\<lparr>saver := fst sw\<rparr> in if snd sw \<noteq> [] then write_mem y1 else y1)"

datatype resume_event = Mutate bool resume_op | Timer_fires | Shutdown_flush

fun sys_event :: "ucd \<Rightarrow> resume_event \<Rightarrow> resume_sys \<Rightarrow> resume_sys" where
  "sys_event U (Mutate loop op) y =
     (let (m, how) = resume_step U op (mem y); y1 = y\<lparr>mem := m\<rparr> in
      case how of
        Persist_none \<Rightarrow> y1
      | Persist_now \<Rightarrow> write_mem y1
      | Persist_request \<Rightarrow> via_saver (request loop () (saver y1)) y1)"
| "sys_event U Timer_fires y = via_saver (fire (saver y)) y"
| "sys_event U Shutdown_flush y = via_saver (flush (saver y)) y"

definition sys_run :: "ucd \<Rightarrow> resume_event list \<Rightarrow> resume_sys \<Rightarrow> resume_sys" where
  "sys_run U es y = fold (sys_event U) es y"

definition fresh_sys :: resume_sys where
  "fresh_sys = \<lparr>mem = empty_resume, saver = new_saver, disk_file = Absent\<rparr>"

fun on_doubles :: "resume_event \<Rightarrow> bool" where
  "on_doubles (Mutate loop (Do_record now i pos rt imm)) = (fl now = now)"
| "on_doubles _ = True"

definition on_disk :: "resume_sys \<Rightarrow> bool" where
  "on_disk y \<longleftrightarrow>
     load_store [1] decode_resume (disk_file y) = Inr (Some (mem y)) \<or> (disk_file y = Absent \<and> mem y = empty_resume)"

definition sys_inv :: "resume_sys \<Rightarrow> bool" where
  "sys_inv y \<longleftrightarrow>
     storable (mem y) \<and> resume_ok (mem y) \<and> \<not> closed (saver y) \<and> (has_pending (saver y) \<longrightarrow> pending (saver y) = Some ()) \<and>
     (has_pending (saver y) \<or> on_disk y)"

lemma write_mem_on_disk: "storable (mem y) \<Longrightarrow> on_disk (write_mem y)"
  using resume_file.load_save [of "mem y" "disk_file y"] by (simp add: on_disk_def write_mem_def)

lemma finished_put:
  assumes "\<forall>r \<in> snd ` set d. fl r = r" and "fl now = now"
  shows "\<forall>r \<in> snd ` set (dset i now d). fl r = r"
  using assms set_dset [of i now d] by fastforce

lemma storable_step:
  assumes "storable s" and "resume_ok s" and "on_doubles (Mutate loop op)"
  shows "storable (fst (resume_step U op s)) \<and> resume_ok (fst (resume_step U op s))"
proof (cases op)
  case (Do_record now i pos rt imm)
  have ok: "resume_ok (fst (record_position now i pos rt imm s))" by (rule record_position_ok [OF assms(2)])
  have "\<forall>r \<in> snd ` set (finished (fst (record_position now i pos rt imm s))). fl r = r"
  proof (cases "0 < pos")
    case True
    from record_position_shape [OF this, of now i rt imm s] show ?thesis
      using finished_put [of "finished s" now i] assms(1,3) Do_record by (auto simp: storable_def)
  qed (use assms(1) in \<open>simp add: record_position_def storable_def\<close>)
  with ok show ?thesis by (simp add: Do_record storable_def resume_ok_def)
next
  case (Do_query q)
  then show ?thesis using assms record_query_ok [OF assms(2), of U q]
    by (auto simp: storable_def record_query_def Let_def)
next
  case Do_clear
  then show ?thesis by (simp add: clear_resume_def storable_def resume_ok_def)
qed

lemma persist_none_same: "resume_step U op s = (s', Persist_none) \<Longrightarrow> s' = s"
  by (cases op) (auto simp: record_position_def record_query_def clear_resume_def schedule_def Let_def split: if_splits)

lemma sys_inv_event:
  assumes "sys_inv y" and "on_doubles e"
  shows "sys_inv (sys_event U e y)"
proof (cases e)
  case (Mutate loop op)
  obtain m how where m: "resume_step U op (mem y) = (m, how)" by force
  have st: "storable m" "resume_ok m"
    using storable_step [of "mem y" loop op U] assms Mutate m by (auto simp: sys_inv_def)
  let ?y = "y\<lparr>mem := m\<rparr>"
  show ?thesis
  proof (cases how)
    case Persist_none
    with persist_none_same m have "m = mem y" by blast
    with assms(1) show ?thesis by (simp add: Mutate m Persist_none)
  next
    case Persist_now
    have "on_disk (write_mem ?y)" by (rule write_mem_on_disk) (simp add: st)
    with st assms(1) show ?thesis
      by (auto simp: Mutate m Persist_now sys_inv_def) (simp_all add: write_mem_def)
  next
    case Persist_request
    have d: "on_disk (write_mem (?y\<lparr>saver := t\<rparr>))" for t by (rule write_mem_on_disk) (simp add: st)
    have "\<not> closed (saver y)" using assms(1) by (simp add: sys_inv_def)
    with st d show ?thesis
      by (auto simp: Mutate m Persist_request sys_inv_def via_saver_def request_def write_pending_def Let_def)
        (auto simp: write_mem_def)
  qed
next
  case Timer_fires
  have d: "storable (mem y) \<Longrightarrow> on_disk (write_mem (y\<lparr>saver := t\<rparr>))" for t by (rule write_mem_on_disk) simp
  have e: "on_disk (y\<lparr>saver := t\<rparr>) = on_disk y" for t by (simp add: on_disk_def)
  show ?thesis using assms(1) d e
    by (auto simp: Timer_fires sys_inv_def via_saver_def fire_def write_pending_def Let_def split: option.splits)
      (auto simp: write_mem_def)
next
  case Shutdown_flush
  have d: "storable (mem y) \<Longrightarrow> on_disk (write_mem (y\<lparr>saver := t\<rparr>))" for t by (rule write_mem_on_disk) simp
  have e: "on_disk (y\<lparr>saver := t\<rparr>) = on_disk y" for t by (simp add: on_disk_def)
  show ?thesis using assms(1) d e
    by (auto simp: Shutdown_flush sys_inv_def via_saver_def flush_def write_pending_def Let_def split: option.splits)
      (auto simp: write_mem_def)
qed


lemma sys_inv_run:
  "sys_inv y \<Longrightarrow> \<forall>e \<in> set es. on_doubles e \<Longrightarrow> sys_inv (sys_run U es y)"
  by (induction es arbitrary: y) (simp_all add: sys_run_def sys_inv_event)

lemma sys_inv_fresh: "sys_inv fresh_sys"
  by (simp add: sys_inv_def fresh_sys_def storable_def resume_ok_def empty_resume_def new_saver_def on_disk_def)

lemma flushed_not_pending: "\<not> has_pending (saver (sys_event U Shutdown_flush y))"
  by (simp add: via_saver_def flush_def write_pending_def write_mem_def Let_def split: option.splits)



section \<open>Watched again\<close>

lemma length_filter_newest:
  "length (newest_first f xs) = length xs \<and> length (filter P (newest_first f xs)) = length (filter P xs)"
proof -
  have i: "length (insert_newest f x xs) = Suc (length xs) \<and>
      length (filter P (insert_newest f x xs)) = length (filter P (x # xs))" for x xs
    by (induction f x xs rule: insert_newest.induct) auto
  show ?thesis unfolding newest_first_def by (induction xs rule: rev_induct) (auto simp: i)
qed

lemma once_in_dict:
  "dwf d \<Longrightarrow> length (filter (\<lambda>k. k = i) (dkeys d)) = (if i \<in> fst ` set d then 1 else 0)"
  by (induction d) (force simp: dwf_def filter_empty_conv)+

text \<open>A finished title that is watched again appears twice in the history: recording it below the
  threshold puts it back among the items, and its entry in the finished list stays.\<close>

theorem history_lists_rewatched_twice:
  assumes "resume_ok s" and "0 < pos" and "i \<in> fst ` set (finished s)" and "length (items s) < max_items"
    and "of_int pos < f_mul finished_fraction (fl (of_int rt))"
  shows "length (filter (\<lambda>k. k = i) (history (Suc (length (items s) + length (finished s)))
    (fst (record_position now i pos (Some rt) imm s)))) = 2"
proof -
  let ?e = "\<lparr>position_ticks = pos, runtime_ticks = Some (Num_int rt), updated_at = Some (Num_float now)\<rparr>"
  let ?d = "dset i ?e (items s)"
  have "length ?d \<le> max_items" using assms(4) by (simp add: length_dset)
  then have s': "fst (record_position now i pos (Some rt) imm s) = s\<lparr>items := ?d\<rparr>"
    using assms(2,5) by (simp add: record_position_def Let_def cap_items_def)
  let ?t = "map (\<lambda>(k, e). (stamp_of e, k)) ?d @ map (\<lambda>(k, r). (r, k)) (finished s)"
  have "length ?t \<le> Suc (length (items s) + length (finished s))" by (simp add: length_dset)
  then have all: "take (Suc (length (items s) + length (finished s))) (newest_first id ?t) = newest_first id ?t"
    using length_filter_newest [of id ?t "\<lambda>_. True"] by (simp only: take_all)
  have one: "length (filter (\<lambda>x. snd x = i) (map (\<lambda>(k, e). (g e, k)) d)) = length (filter (\<lambda>k. k = i) (dkeys d))"
    for d and g :: "'x \<Rightarrow> rat" by (induction d) auto
  have "dwf ?d" "dwf (finished s)" using assms(1) by (simp_all add: resume_ok_def)
  then have "length (filter (\<lambda>x. snd x = i) ?t) = 2"
    using one [of stamp_of ?d] one [of id "finished s"] assms(3) once_in_dict [of ?d i] once_in_dict [of "finished s" i]
    by simp
  then show ?thesis
    using length_filter_newest [of id ?t "\<lambda>x. snd x = i"]
    by (simp add: s' history_def Let_def all filter_map comp_def)
qed

theorem history_lists_rewatched_twice_witness:
  "length (filter (\<lambda>k. k = u ''a'') (history 2
    (fst (record_position 9 (u ''a'') 1 (Some 100) True \<lparr>items = [], queries = [], finished = [(u ''a'', 5)]\<rparr>)))) = 2"
proof -
  have h: "19 / 20 - (19 / 20) / 2 ^ 53 \<le> finished_fraction"
    using fl_error [of "19 / 20"] unfolding finished_fraction_def by (simp only: abs_le_iff) simp
  have f: "fl (of_int 100) = (100 :: rat)" using fl_of_int [of 100] by simp
  have "finished_fraction * 100 - \<bar>finished_fraction * 100\<bar> / 2 ^ 53 \<le> fl (finished_fraction * 100)"
    using fl_error [of "finished_fraction * 100"] by (simp only: abs_le_iff) linarith
  then have "of_int 1 < f_mul finished_fraction (fl (of_int 100))" using h by (simp only: f_mul_def f) simp
  from history_lists_rewatched_twice [OF _ _ _ _ this, where s = "\<lparr>items = [], queries = [], finished = [(u ''a'', 5)]\<rparr>"
      and i = "u ''a''" and now = 9 and imm = True]
  show ?thesis by (simp add: resume_ok_def dwf_def max_items_def numeral_2_eq_2)
qed

end
