(* ===== verification/Drift_Baseline.thy ===== *)
theory Drift_Baseline
  imports Row_Kinds Versioned_Store Py_Float
begin

text \<open>
  The verdicts of the drift monitor: \<^verbatim>\<open>backend/cs_uk_api/drift/baseline.py\<close> (the calibrated listing
  signature, the state kept per provider and its file) and \<^verbatim>\<open>drift/attestation.py\<close> (the playback axis).
  Fractions are doubles (\<open>fl\<close>); a count of cards is a natural number, a count read back from the file
  an integer.
\<close>

section \<open>Probes and signatures\<close>

text \<open>\<^verbatim>\<open>ListingProbeResult\<close> of \<^verbatim>\<open>drift/probe.py\<close>.\<close>

datatype probe_kind = Probe_browse | Probe_search

record listing_probe =
  l_provider :: ustr
  l_ok :: bool
  l_error :: "ustr option"
  l_cards :: "search_result list"
  l_kind :: probe_kind

definition min_cards :: nat where "min_cards = 2"
definition shape_recalibrate_after :: int where "shape_recalibrate_after = 3"
definition significant_share :: rat where "significant_share = fl (1 / 5)"
definition band_floor :: rat where "band_floor = fl (1 / 20)"

record signature =
  count_low :: int
  count_high :: int
  form_frac :: "(ustr, rat) pdict"
  style_frac :: "(ustr, rat) pdict"
  fields_ok :: bool

text \<open>\<^verbatim>\<open>_distribution\<close>: a card counts once for every value it carries; the fractions are in key order.\<close>

definition tally :: "(ustr, nat) pdict \<Rightarrow> ustr \<Rightarrow> (ustr, nat) pdict" where
  "tally d k = dset k (Suc (case dget d k of Some n \<Rightarrow> n | None \<Rightarrow> 0)) d"

definition distribution :: "(search_result \<Rightarrow> ustr list) \<Rightarrow> search_result list \<Rightarrow> (ustr, rat) pdict" where
  "distribution labels cards =
     (let counts = foldl tally [] (concat (map labels cards));
          total = max 1 (sum_list (map snd counts))
      in map (\<lambda>(k, n). (k, f_div (of_nat n) (of_nat total))) (sort_key fst counts))"

definition form_labels :: "search_result \<Rightarrow> ustr list" where
  "form_labels c = [form_text (form c)]"

definition style_labels :: "search_result \<Rightarrow> ustr list" where
  "style_labels c = map style_text (sorted_styles (styles c))"

definition card_fields_ok :: "ucd \<Rightarrow> search_result list \<Rightarrow> bool" where
  "card_fields_ok U cards \<longleftrightarrow> list_all (\<lambda>c. strip U (title c) \<noteq> [] \<and> strip U (url c) \<noteq> []) cards"

section \<open>Verdicts\<close>

datatype drift_kind = Kind_ok | Kind_shape | Kind_broken

record drift_verdict =
  v_ok :: bool
  v_reason :: ustr
  v_kind :: drift_kind

text \<open>\<^verbatim>\<open>f"{x:.2f}"\<close> of a non-negative double.\<close>

definition fixed2 :: "rat \<Rightarrow> ustr" where
  "fixed2 x = (let n = nat (round_even (x * 100)) in
     dec_nat (n div 100) @ u ''.'' @ [48 + n div 10 mod 10, 48 + n mod 10])"

text \<open>The first significant member of a band that the listing has all but lost.\<close>

fun left_band :: "(ustr, rat) pdict \<Rightarrow> (ustr, rat) pdict \<Rightarrow> (ustr \<times> rat \<times> rat) option" where
  "left_band now [] = None"
| "left_band now ((k, expected) # band) =
     (if expected < significant_share then left_band now band
      else (let actual = (case dget now k of Some a \<Rightarrow> a | None \<Rightarrow> 0)
            in if actual < band_floor then Some (k, expected, actual) else left_band now band))"

definition shape_verdict :: "ustr \<Rightarrow> ustr \<times> rat \<times> rat \<Rightarrow> drift_verdict" where
  "shape_verdict axis w =
     (case w of (k, expected, actual) \<Rightarrow>
        \<lparr>v_ok = False,
         v_reason = axis @ u '' '' @ [39] @ k @ [39] @ u '' left the band ('' @ fixed2 expected @
           [32, 8594, 32] @ fixed2 actual @ u '')'',
         v_kind = Kind_shape\<rparr>)"

definition broken_verdict :: "ustr \<Rightarrow> drift_verdict" where
  "broken_verdict r = \<lparr>v_ok = False, v_reason = r, v_kind = Kind_broken\<rparr>"

definition or_error :: "ustr option \<Rightarrow> ustr" where
  "or_error e = (case e of None \<Rightarrow> u ''error'' | Some s \<Rightarrow> if s = [] then u ''error'' else s)"

definition verdict_for :: "ucd \<Rightarrow> listing_probe \<Rightarrow> signature option \<Rightarrow> drift_verdict" where
  "verdict_for U r sig =
     (if \<not> l_ok r then broken_verdict (u ''probe failed: '' @ or_error (l_error r))
      else if l_cards r = [] then broken_verdict (u ''zero items'')
      else if \<not> card_fields_ok U (l_cards r) then broken_verdict (u ''missing required fields (empty title or url)'')
      else if length (l_cards r) < min_cards then
        broken_verdict (u ''only '' @ dec_nat (length (l_cards r)) @ u '' items (hard floor '' @ dec_nat min_cards @ u '')'')
      else case sig of
        None \<Rightarrow> \<lparr>v_ok = True, v_reason = u ''baseline (first calibration)'', v_kind = Kind_ok\<rparr>
      | Some s \<Rightarrow>
          if int (length (l_cards r)) < count_low s then
            \<lparr>v_ok = False, v_reason = u ''count '' @ dec_nat (length (l_cards r)) @ u '' below calibrated low '' @ dec_int (count_low s),
             v_kind = Kind_shape\<rparr>
          else case left_band (distribution form_labels (l_cards r)) (form_frac s) of
            Some w \<Rightarrow> shape_verdict (u ''form'') w
          | None \<Rightarrow>
              (case left_band (distribution style_labels (l_cards r)) (style_frac s) of
                 Some w \<Rightarrow> shape_verdict (u ''style'') w
               | None \<Rightarrow> \<lparr>v_ok = True, v_reason = u ''ok'', v_kind = Kind_ok\<rparr>))"

definition update_signature :: "ucd \<Rightarrow> signature option \<Rightarrow> listing_probe \<Rightarrow> signature" where
  "update_signature U sig r =
     (let n = int (length (l_cards r)) in
      \<lparr>count_low = (case sig of None \<Rightarrow> n | Some s \<Rightarrow> min (count_low s) n),
       count_high = (case sig of None \<Rightarrow> n | Some s \<Rightarrow> max (count_high s) n),
       form_frac = distribution form_labels (l_cards r),
       style_frac = distribution style_labels (l_cards r),
       fields_ok = card_fields_ok U (l_cards r)\<rparr>)"

section \<open>The playback axis\<close>

datatype play_verdict_kind = Play_clean | Play_no_progress | Play_no_evidence

record play_counters =
  pc_served :: int
  pc_no_progress :: int

record play_verdict =
  pv_kind :: play_verdict_kind
  pv_reason :: ustr
  pv_served :: int
  pv_no_progress :: int

definition play_verdict_for :: "play_counters option \<Rightarrow> play_counters \<Rightarrow> play_verdict" where
  "play_verdict_for last0 now =
     (case last0 of
        None \<Rightarrow> \<lparr>pv_kind = Play_no_evidence, pv_reason = u ''first observation '' @ [8212] @ u '' no previous sweep to compare against'',
                 pv_served = 0, pv_no_progress = 0\<rparr>
      | Some l \<Rightarrow>
          if pc_served now < pc_served l \<or> pc_no_progress now < pc_no_progress l then
            \<lparr>pv_kind = Play_no_evidence,
             pv_reason = u ''the API restarted since the last sweep (its playback counters went back)'',
             pv_served = 0, pv_no_progress = 0\<rparr>
          else
            (let served = pc_served now - pc_served l; stuck = pc_no_progress now - pc_no_progress l in
             if served = 0 then
               \<lparr>pv_kind = Play_no_evidence, pv_reason = u ''no stream was served since the last sweep'',
                pv_served = 0, pv_no_progress = stuck\<rparr>
             else if stuck = 0 then
               \<lparr>pv_kind = Play_clean, pv_reason = dec_int served @ u '' stream(s) served, none stopped at zero'',
                pv_served = served, pv_no_progress = 0\<rparr>
             else if stuck \<ge> served then
               \<lparr>pv_kind = Play_no_progress,
                pv_reason = u ''every served stream stopped at zero progress ('' @ dec_int stuck @ u '' reports for '' @
                  dec_int served @ u '' served)'',
                pv_served = served, pv_no_progress = stuck\<rparr>
             else
               \<lparr>pv_kind = Play_clean,
                pv_reason = dec_int stuck @ u '' of '' @ dec_int served @ u '' served stream(s) stopped at zero '' @ [8212] @
                  u '' playback is happening'',
                pv_served = served, pv_no_progress = stuck\<rparr>))"

section \<open>The state of a provider, and its file\<close>

record provider_state =
  consecutive_failures :: int
  shape_streak :: int
  sig_of :: "signature option"
  play_failures :: int
  last_play :: "play_counters option"

definition new_state :: provider_state where
  "new_state = \<lparr>consecutive_failures = 0, shape_streak = 0, sig_of = None, play_failures = 0, last_play = None\<rparr>"

text \<open>
  \<^verbatim>\<open>int(s)\<close> and \<^verbatim>\<open>float(s)\<close> of a string: surrounding white space, a sign, digits with single underscores
  between them; a decimal point and an exponent for a float.  The texts of infinity and of a nan denote no
  number of the model.
\<close>

definition sign_split :: "ustr \<Rightarrow> bool \<times> ustr" where
  "sign_split t = (case t of [] \<Rightarrow> (False, []) | c # r \<Rightarrow> if c = 45 then (True, r) else if c = 43 then (False, r) else (False, t))"

definition digit_groups :: "ucd \<Rightarrow> ustr \<Rightarrow> ustr option" where
  "digit_groups U t =
     (let parts = split_on 95 t in
      if list_all (\<lambda>p. p \<noteq> [] \<and> list_all (decimal U) p) parts then Some (concat parts) else None)"

definition int_of_text :: "ucd \<Rightarrow> ustr \<Rightarrow> int option" where
  "int_of_text U s =
     (let (neg, t) = sign_split (strip U s) in
      case digit_groups U t of
        None \<Rightarrow> None
      | Some ds \<Rightarrow> (case py_int U ds of Inl e \<Rightarrow> None | Inr n \<Rightarrow> Some (if neg then - n else n)))"

definition float_of_text :: "ucd \<Rightarrow> ustr \<Rightarrow> rat option" where
  "float_of_text U s =
     (let (neg, t) = sign_split (strip U s);
          (mant, ex) = split_first 101 (map (\<lambda>c. if c = 69 then 101 else c) t);
          (whole, frac) = split_first 46 mant;
          group = (\<lambda>p. if p = [] then Some [] else digit_groups U p);
          f = (case frac of None \<Rightarrow> [] | Some f \<Rightarrow> f)
      in case (group whole, group f, (case ex of None \<Rightarrow> Some 0 | Some e \<Rightarrow>
                 (let (eneg, et) = sign_split e in
                  map_option (\<lambda>ds. (if eneg then -1 else 1) * int (int_of_decimals U ds)) (digit_groups U et)))) of
           (Some w, Some fr, Some e) \<Rightarrow>
             if w = [] \<and> fr = [] then None
             else Some ((if neg then -1 else 1) * fl (of_nat (int_of_decimals U (w @ fr)) * 10 powi (e - int (length fr))))
         | _ \<Rightarrow> None)"

text \<open>\<^verbatim>\<open>int(x)\<close>, \<^verbatim>\<open>float(x)\<close> and \<^verbatim>\<open>bool(x)\<close> of a JSON value.\<close>

fun json_int :: "ucd \<Rightarrow> json \<Rightarrow> int option" where
  "json_int U (JInt i) = Some i"
| "json_int U (JBool b) = Some (if b then 1 else 0)"
| "json_int U (JFloat r) = Some (if r < 0 then - \<lfloor>- r\<rfloor> else \<lfloor>r\<rfloor>)"
| "json_int U (JStr s) = int_of_text U s"
| "json_int U _ = None"

fun json_float :: "ucd \<Rightarrow> json \<Rightarrow> rat option" where
  "json_float U (JInt i) = Some (fl (of_int i))"
| "json_float U (JBool b) = Some (if b then 1 else 0)"
| "json_float U (JFloat r) = Some r"
| "json_float U (JStr s) = float_of_text U s"
| "json_float U _ = None"

fun truthy :: "json \<Rightarrow> bool" where
  "truthy JNull = False"
| "truthy (JBool b) = b"
| "truthy (JInt i) = (i \<noteq> 0)"
| "truthy (JFloat r) = (r \<noteq> 0)"
| "truthy (JStr s) = (s \<noteq> [])"
| "truthy (JList xs) = (xs \<noteq> [])"
| "truthy (JObject d) = (d \<noteq> [])"

text \<open>\<^verbatim>\<open>raw.get(k, default)\<close>, and a comprehension over the items of a dictionary whose values may raise.\<close>

definition get_or :: "(ustr, json) pdict \<Rightarrow> ustr \<Rightarrow> json \<Rightarrow> json" where
  "get_or d k v = (case dget d k of Some j \<Rightarrow> j | None \<Rightarrow> v)"

fun values_or_fail :: "(json \<Rightarrow> 'a option) \<Rightarrow> (ustr, json) pdict \<Rightarrow> (ustr, 'a) pdict option" where
  "values_or_fail f [] = Some []"
| "values_or_fail f ((k, j) # d) =
     (case f j of
        None \<Rightarrow> None
      | Some a \<Rightarrow> (case values_or_fail f d of None \<Rightarrow> None | Some r \<Rightarrow> Some ((k, a) # r)))"

definition signature_json :: "signature \<Rightarrow> json" where
  "signature_json s = JObject
     [(u ''count_low'', JInt (count_low s)), (u ''count_high'', JInt (count_high s)),
      (u ''form_frac'', JObject (map (\<lambda>(k, r). (k, JFloat r)) (form_frac s))),
      (u ''style_frac'', JObject (map (\<lambda>(k, r). (k, JFloat r)) (style_frac s))),
      (u ''fields_ok'', JBool (fields_ok s))]"

definition signature_of_json :: "ucd \<Rightarrow> json \<Rightarrow> signature option" where
  "signature_of_json U raw =
     (case as_dict raw of None \<Rightarrow> None | Some d \<Rightarrow>
      (case Option.bind (dget d (u ''count_low'')) (json_int U) of None \<Rightarrow> None | Some lo \<Rightarrow>
      (case Option.bind (dget d (u ''count_high'')) (json_int U) of None \<Rightarrow> None | Some hi \<Rightarrow>
      (case Option.bind (as_dict (get_or d (u ''form_frac'') (JObject []))) (values_or_fail (json_float U)) of None \<Rightarrow> None | Some ff \<Rightarrow>
      (case Option.bind (as_dict (get_or d (u ''style_frac'') (JObject []))) (values_or_fail (json_float U)) of None \<Rightarrow> None | Some sf \<Rightarrow>
         Some \<lparr>count_low = lo, count_high = hi, form_frac = ff, style_frac = sf,
               fields_ok = truthy (get_or d (u ''fields_ok'') (JBool True))\<rparr>)))))"

definition counters_json :: "play_counters \<Rightarrow> json" where
  "counters_json c = JObject [(u ''served'', JInt (pc_served c)), (u ''no_progress'', JInt (pc_no_progress c))]"

definition counters_of_json :: "ucd \<Rightarrow> json \<Rightarrow> play_counters option" where
  "counters_of_json U raw =
     (case as_dict raw of None \<Rightarrow> None | Some d \<Rightarrow>
      (case json_int U (get_or d (u ''served'') (JInt 0)) of None \<Rightarrow> None | Some s \<Rightarrow>
      (case json_int U (get_or d (u ''no_progress'') (JInt 0)) of None \<Rightarrow> None | Some n \<Rightarrow>
         Some \<lparr>pc_served = s, pc_no_progress = n\<rparr>)))"

definition state_json :: "provider_state \<Rightarrow> json" where
  "state_json s = JObject
     [(u ''consecutive_failures'', JInt (consecutive_failures s)), (u ''shape_streak'', JInt (shape_streak s)),
      (u ''signature'', (case sig_of s of None \<Rightarrow> JNull | Some g \<Rightarrow> signature_json g)),
      (u ''play_failures'', JInt (play_failures s)),
      (u ''last_play'', (case last_play s of None \<Rightarrow> JNull | Some c \<Rightarrow> counters_json c))]"

text \<open>\<^verbatim>\<open>X.from_dict(raw) if raw else None\<close>: \<open>None\<close> outside is an exception.\<close>

definition if_truthy :: "(json \<Rightarrow> 'a option) \<Rightarrow> json \<Rightarrow> 'a option option" where
  "if_truthy f j = (if truthy j then map_option Some (f j) else Some None)"

definition state_of_json :: "ucd \<Rightarrow> json \<Rightarrow> provider_state option" where
  "state_of_json U raw =
     (case as_dict raw of None \<Rightarrow> None | Some d \<Rightarrow>
      (case json_int U (get_or d (u ''consecutive_failures'') (JInt 0)) of None \<Rightarrow> None | Some cf \<Rightarrow>
      (case json_int U (get_or d (u ''shape_streak'') (JInt 0)) of None \<Rightarrow> None | Some ss \<Rightarrow>
      (case if_truthy (signature_of_json U) (jget d (u ''signature'')) of None \<Rightarrow> None | Some g \<Rightarrow>
      (case json_int U (get_or d (u ''play_failures'') (JInt 0)) of None \<Rightarrow> None | Some pf \<Rightarrow>
      (case if_truthy (counters_of_json U) (jget d (u ''last_play'')) of None \<Rightarrow> None | Some lp \<Rightarrow>
         Some \<lparr>consecutive_failures = cf, shape_streak = ss, sig_of = g, play_failures = pf, last_play = lp\<rparr>))))))"

definition encode_states :: "(ustr, provider_state) pdict \<Rightarrow> json option" where
  "encode_states d = Some (JObject (map (\<lambda>(k, s). (k, state_json s)) (sort_key fst d)))"

definition decode_states :: "ucd \<Rightarrow> json \<Rightarrow> (ustr, provider_state) pdict option" where
  "decode_states U data = (case as_dict data of None \<Rightarrow> None | Some d \<Rightarrow> values_or_fail (state_of_json U) d)"

text \<open>\<^verbatim>\<open>BaselineStore.get\<close>: \<^verbatim>\<open>setdefault\<close> of a new state.\<close>

definition get_state :: "(ustr, provider_state) pdict \<Rightarrow> ustr \<Rightarrow> provider_state" where
  "get_state d p = (case dget d p of Some s \<Rightarrow> s | None \<Rightarrow> new_state)"

section \<open>The file keeps the states\<close>

lemma values_or_fail_map:
  "(\<And>k a. (k, a) \<in> set d \<Longrightarrow> f (g a) = Some a) \<Longrightarrow> values_or_fail f (map (\<lambda>(k, a). (k, g a)) d) = Some d"
proof (induction d)
  case (Cons x d)
  obtain k a where x: "x = (k, a)" by force
  have "f (g a) = Some a" by (rule Cons.prems [of k a]) (simp add: x)
  moreover have "values_or_fail f (map (\<lambda>(k, a). (k, g a)) d) = Some d"
    by (rule Cons.IH, rule Cons.prems, rule list.set_intros(2))
  ultimately show ?case by (simp add: x)
qed simp

lemma get_or_Cons [simp]: "get_or ((a, b) # d) k v = (if a = k then b else get_or d k v)"
  by (simp add: get_or_def)

lemma signature_roundtrip: "signature_of_json U (signature_json g) = Some g"
  using values_or_fail_map [of "form_frac g" "json_float U" JFloat] values_or_fail_map [of "style_frac g" "json_float U" JFloat]
  by (simp add: signature_of_json_def signature_json_def)

lemma counters_roundtrip: "counters_of_json U (counters_json c) = Some c"
  by (simp add: counters_of_json_def counters_json_def)

lemma state_roundtrip: "state_of_json U (state_json s) = Some s"
proof -
  have "truthy (signature_json g)" "truthy (counters_json c)" for g c
    by (simp_all add: signature_json_def counters_json_def)
  then show ?thesis
    by (cases "sig_of s"; cases "last_play s")
      (simp_all add: state_of_json_def state_json_def if_truthy_def signature_roundtrip counters_roundtrip)
qed

interpretation baseline_file: store_adapter "[1]" encode_states "decode_states ua_ucd" "sort_key fst" "\<lambda>_. True"
  by unfold_locales (simp_all add: encode_states_def decode_states_def values_or_fail_map state_roundtrip)

text \<open>What the monitor saves, the next run loads: the file a save leaves decodes to the same provider
  states, counters, streaks, signatures and playback references included, in the order of the provider ids.\<close>

theorem baseline_survives_restart:
  "load_store [1] (decode_states U) (save_store [1] encode_states True states f) = Inr (Some (sort_key fst states))"
proof -
  have "decode_states U (JObject (map (\<lambda>(k, s). (k, state_json s)) (sort_key fst states))) = Some (sort_key fst states)"
    by (simp add: decode_states_def values_or_fail_map state_roundtrip)
  then show ?thesis by (simp add: load_store_def save_store_def envelope_def encode_states_def u_def)
qed

section \<open>Calibration\<close>

lemma distribution_left_band: "dwf d \<Longrightarrow> set band \<subseteq> set d \<Longrightarrow> left_band d band = None"
proof (induction band)
  case (Cons x band)
  obtain k e where x: "x = (k, e)" by force
  have in_d: "dget d k = Some e" using Cons.prems x dget_Some_in [of d k e] by simp
  have "band_floor \<le> significant_share"
    using fl_error [of "1 / 5"] fl_error [of "1 / 20"] unfolding band_floor_def significant_share_def by (simp only: abs_le_iff) simp
  with Cons in_d show ?case by (auto simp: x)
qed simp

lemma dwf_tally: "dwf d \<Longrightarrow> dwf (foldl tally d ks)"
  by (induction ks arbitrary: d) (simp_all add: tally_def)

lemma dwf_distribution: "dwf (distribution f cards)"
proof -
  let ?c = "foldl tally [] (concat (map f cards))"
  have "distinct (map fst ?c)" using dwf_tally [of "[]"] by (simp add: dwf_def)
  then have "distinct (map fst (sort_key fst ?c))"
    by (metis distinct_map distinct_sort inj_on_def set_sort)
  then show ?thesis by (simp add: distribution_def dwf_def Let_def comp_def case_prod_beta)
qed

text \<open>A probe that serves usable data: nothing of it is a \<open>broken\<close> failure.\<close>

definition serving :: "ucd \<Rightarrow> listing_probe \<Rightarrow> bool" where
  "serving U r \<longleftrightarrow> l_ok r \<and> card_fields_ok U (l_cards r) \<and> min_cards \<le> length (l_cards r)"

lemma broken_iff: "v_kind (verdict_for U r sig) = Kind_broken \<longleftrightarrow> \<not> serving U r"
  by (auto simp: verdict_for_def serving_def broken_verdict_def shape_verdict_def min_cards_def
      split: option.splits prod.splits)

lemma calibrated_listing_passes_aux:
  "serving U r \<Longrightarrow> verdict_for U r (Some (update_signature U sig r)) = \<lparr>v_ok = True, v_reason = u ''ok'', v_kind = Kind_ok\<rparr>"
  using distribution_left_band [OF dwf_distribution order.refl]
  by (auto simp: verdict_for_def update_signature_def serving_def min_cards_def Let_def split: option.splits)

lemma failing_kind: "\<not> v_ok (verdict_for U r sig) \<Longrightarrow> v_kind (verdict_for U r sig) = Kind_shape \<longleftrightarrow> serving U r"
  by (auto simp: verdict_for_def serving_def broken_verdict_def shape_verdict_def min_cards_def
      split: option.splits prod.splits)

lemma broken_not_ok:
  "\<not> serving U r \<Longrightarrow> v_kind (verdict_for U r sig) \<noteq> Kind_shape \<and> \<not> v_ok (verdict_for U r sig)"
  by (auto simp: verdict_for_def serving_def broken_verdict_def min_cards_def)

text \<open>Calibration converges: a probe that serves usable data passes against the signature it was just
  adopted into, whatever the signature was before, and a failing verdict is a shape failure exactly when
  the provider is serving.\<close>

theorem calibrated_listing_passes:
  "(serving U r \<longrightarrow> verdict_for U r (Some (update_signature U sig r)) = \<lparr>v_ok = True, v_reason = u ''ok'', v_kind = Kind_ok\<rparr>) \<and>
   (\<not> v_ok (verdict_for U r sig) \<longrightarrow> (v_kind (verdict_for U r sig) = Kind_shape \<longleftrightarrow> serving U r))"
  using calibrated_listing_passes_aux failing_kind by blast

theorem calibrated_listing_passes_witness:
  "verdict_for ua_ucd \<lparr>l_provider = u ''p'', l_ok = True, l_error = None,
     l_cards = replicate 2 \<lparr>sr_id = u ''p:1'', provider = u ''p'', form = Movie, title = u ''T'', year = None, poster = None,
       url = u ''x'', styles = {}, genres = [], imdb_id = None\<rparr>, l_kind = Probe_browse\<rparr>
     (Some (update_signature ua_ucd None \<lparr>l_provider = u ''p'', l_ok = True, l_error = None,
     l_cards = replicate 2 \<lparr>sr_id = u ''p:1'', provider = u ''p'', form = Movie, title = u ''T'', year = None, poster = None,
       url = u ''x'', styles = {}, genres = [], imdb_id = None\<rparr>, l_kind = Probe_browse\<rparr>)) =
   \<lparr>v_ok = True, v_reason = u ''ok'', v_kind = Kind_ok\<rparr>"
  by (rule calibrated_listing_passes [THEN conjunct1, rule_format])
    (simp add: serving_def card_fields_ok_def min_cards_def strip_def ua_ucd_def u_def in_ranges_def numeral_2_eq_2)

text \<open>The playback axis accuses only on evidence: it finds a fault exactly when there is a previous sweep,
  the counters did not go back, at least one stream was served since and no fewer zero-progress stops were
  reported than streams were served.\<close>

theorem play_verdict_accuses_iff:
  "pv_kind (play_verdict_for l now) = Play_no_progress \<longleftrightarrow>
     (\<exists>p. l = Some p \<and> pc_served p < pc_served now \<and> pc_no_progress p \<le> pc_no_progress now \<and>
          pc_served now - pc_served p \<le> pc_no_progress now - pc_no_progress p)"
  by (cases l) (auto simp: play_verdict_for_def Let_def)

end
