(* ===== verification/Drift_Monitor.thy ===== *)
theory Drift_Monitor
  imports Drift_Baseline Play_Attestation
begin

text \<open>
  One nightly run of the drift monitor: the probes of \<^verbatim>\<open>backend/cs_uk_api/drift/probe.py\<close>, the issue
  tracker's gateway of \<^verbatim>\<open>drift/issues.py\<close> and the orchestration of \<^verbatim>\<open>drift/monitor.py\<close>.  What the
  provider adapters and the network answer is an argument (\<open>adapter\<close>), and so is the \<^verbatim>\<open>gh\<close> program
  (\<open>gh\<close>), over a state of any type.
\<close>

section \<open>Probes\<close>

definition excluded_provider_ids :: "ustr list" where
  "excluded_provider_ids = [u ''uakino'']"

text \<open>
  What a call into an adapter answers.  A \<^verbatim>\<open>ProviderError\<close> has a code, a message and perhaps a cause, given
  by its text and the name of its class; any other exception is its class name and its text.
\<close>

datatype 'a answer = Answers 'a | Provider_error ustr ustr "(ustr \<times> ustr) option" | Other_error ustr ustr

record adapter =
  a_name :: ustr
  a_newest :: "ustr option"
  a_sections :: "ustr list"
  a_browse :: "ustr \<Rightarrow> search_result list answer"
  a_search :: "ustr \<Rightarrow> search_result list answer"
  a_content :: "ustr \<Rightarrow> ustr list list answer"
  a_stream :: "ustr \<Rightarrow> ustr answer"
  a_head :: "ustr \<Rightarrow> int answer"

record deep_probe =
  d_ok :: bool
  d_error :: "ustr option"
  d_stream_url :: "ustr option"
  d_head_status :: "int option"

definition failure_text :: "ucd \<Rightarrow> ustr \<Rightarrow> ustr \<Rightarrow> (ustr \<times> ustr) option \<Rightarrow> ustr" where
  "failure_text U code message cause =
     code @ u '': '' @
     (if strip U message \<noteq> [] then message
      else case cause of
        None \<Rightarrow> u ''unknown''
      | Some (t, cls) \<Rightarrow> if strip U t \<noteq> [] then strip U t else cls)"

definition other_text :: "ustr \<Rightarrow> ustr \<Rightarrow> ustr" where
  "other_text cls t = cls @ u '': '' @ t"

definition listing_section :: "adapter \<Rightarrow> (ustr \<times> probe_kind) option" where
  "listing_section a =
     (case a_newest a of
        Some s \<Rightarrow> if s \<noteq> [] then Some (s, Probe_browse)
                  else (case a_sections a of [] \<Rightarrow> None | t # _ \<Rightarrow> Some (t, Probe_browse))
      | None \<Rightarrow> (case a_sections a of [] \<Rightarrow> None | t # _ \<Rightarrow> Some (t, Probe_browse)))"

definition probe_listing :: "ucd \<Rightarrow> ustr \<Rightarrow> adapter \<Rightarrow> listing_probe" where
  "probe_listing U p a =
     (let (ans, kind) = (case listing_section a of
            Some (s, k) \<Rightarrow> (a_browse a s, k)
          | None \<Rightarrow> (a_search a (a_name a), Probe_search))
      in case ans of
           Answers cs \<Rightarrow> \<lparr>l_provider = p, l_ok = True, l_error = None, l_cards = cs, l_kind = kind\<rparr>
         | Provider_error c m e \<Rightarrow>
             \<lparr>l_provider = p, l_ok = False, l_error = Some (failure_text U c m e), l_cards = [], l_kind = kind\<rparr>
         | Other_error c t \<Rightarrow>
             \<lparr>l_provider = p, l_ok = False, l_error = Some (other_text c t), l_cards = [], l_kind = kind\<rparr>)"

definition external_id :: "search_result \<Rightarrow> ustr" where
  "external_id c = (case split_first 58 (sr_id c) of (_, Some (x # xs)) \<Rightarrow> x # xs | _ \<Rightarrow> sr_id c)"

text \<open>The seasons of a content page, each the wire ids of its episodes.\<close>

fun playable_id :: "ustr \<Rightarrow> ustr list list \<Rightarrow> ustr \<Rightarrow> ustr" where
  "playable_id p [] ext = ext"
| "playable_id p (season # rest) ext =
     (case season of [] \<Rightarrow> playable_id p rest ext | e # _ \<Rightarrow> remove_prefix (p @ u '':'') e)"

definition deep_failed :: "ucd \<Rightarrow> 'a answer \<Rightarrow> deep_probe" where
  "deep_failed U ans =
     (case ans of
        Provider_error c m e \<Rightarrow>
          if c = u ''gated'' then \<lparr>d_ok = True, d_error = Some (u ''gated''), d_stream_url = None, d_head_status = None\<rparr>
          else \<lparr>d_ok = False, d_error = Some (failure_text U c m e), d_stream_url = None, d_head_status = None\<rparr>
      | Other_error c t \<Rightarrow> \<lparr>d_ok = False, d_error = Some (other_text c t), d_stream_url = None, d_head_status = None\<rparr>
      | Answers _ \<Rightarrow> \<lparr>d_ok = False, d_error = None, d_stream_url = None, d_head_status = None\<rparr>)"

definition probe_deep :: "ucd \<Rightarrow> ustr \<Rightarrow> adapter \<Rightarrow> search_result \<Rightarrow> deep_probe" where
  "probe_deep U p a first =
     (case a_content a (external_id first) of
        Answers seasons \<Rightarrow>
          (case a_stream a (playable_id p seasons (external_id first)) of
             Answers link \<Rightarrow>
               (case a_head a link of
                  Answers code \<Rightarrow>
                    (let ok = (200 \<le> code \<and> code < 400) in
                     \<lparr>d_ok = ok,
                      d_error = (if ok then None else Some (u ''HEAD '' @ link @ [32, 8594, 32] @ dec_int code)),
                      d_stream_url = Some link, d_head_status = Some code\<rparr>)
                | e \<Rightarrow> deep_failed U e)
           | e \<Rightarrow> deep_failed U e)
      | e \<Rightarrow> deep_failed U e)"

text \<open>\<^verbatim>\<open>rotate_deep_providers\<close>; \<open>None\<close> is the \<^verbatim>\<open>ZeroDivisionError\<close> of a period of zero days.\<close>

definition plain_ids :: "ustr list \<Rightarrow> ustr list" where
  "plain_ids ids = filter (\<lambda>p. p \<notin> set excluded_provider_ids) ids"

definition rotation_step :: "nat \<Rightarrow> int \<Rightarrow> int" where
  "rotation_step n every = max 1 ((int n + every - 1) div every)"

fun pick_from :: "'a list \<Rightarrow> nat \<Rightarrow> nat \<Rightarrow> 'a list" where
  "pick_from ids i 0 = []"
| "pick_from ids i (Suc k) = ids ! i # pick_from ids (Suc i mod length ids) k"

definition rotate_deep :: "ustr list \<Rightarrow> int \<Rightarrow> int \<Rightarrow> ustr set option" where
  "rotate_deep provider_ids day every =
     (let ids = plain_ids provider_ids in
      if ids = [] then Some {}
      else if every = 0 then None
      else (let step = rotation_step (length ids) every
            in Some (set (pick_from ids (nat (day * step mod int (length ids))) (nat step)))))"

section \<open>The issue tracker\<close>

datatype drift_fault = Fault_sweep | Fault_playback

definition issue_title :: "ustr \<Rightarrow> drift_fault \<Rightarrow> ustr" where
  "issue_title p f =
     u ''Drift: provider '' @ p @
     (case f of Fault_sweep \<Rightarrow> u '' failing consecutive sweeps'' | Fault_playback \<Rightarrow> u '' serves streams the client never plays'')"

text \<open>
  A call of \<^verbatim>\<open>gh\<close> exits with success and an output, or with a failure, which \<^verbatim>\<open>_run\<close> raises as a
  \<^verbatim>\<open>RuntimeError\<close>, or does not exit at all: \<^verbatim>\<open>subprocess.run\<close> then raises \<^verbatim>\<open>FileNotFoundError\<close> (no such
  program) or \<^verbatim>\<open>TimeoutExpired\<close>.
\<close>

datatype 'a gh_out = Exit_ok 'a | Exit_failed | No_exit

record 'g gh =
  gh_list :: "ustr \<Rightarrow> 'g \<Rightarrow> (ustr \<times> ustr) list gh_out \<times> 'g"
  gh_create :: "ustr \<Rightarrow> ustr \<Rightarrow> 'g \<Rightarrow> ustr gh_out \<times> 'g"
  gh_comment :: "ustr \<Rightarrow> ustr \<Rightarrow> 'g \<Rightarrow> unit gh_out \<times> 'g"
  gh_close :: "ustr \<Rightarrow> ustr \<Rightarrow> 'g \<Rightarrow> unit gh_out \<times> 'g"

definition title_query :: "ustr \<Rightarrow> ustr" where
  "title_query t = u ''in:title '' @ [34] @ t @ [34]"

definition find_open :: "'g gh \<Rightarrow> ustr \<Rightarrow> drift_fault \<Rightarrow> 'g \<Rightarrow> ustr option gh_out \<times> 'g" where
  "find_open gh p f g =
     (let title = issue_title p f in
      case gh_list gh (title_query title) g of
        (Exit_ok rows, g1) \<Rightarrow> (Exit_ok (map_option fst (find (\<lambda>r. snd r = title) rows)), g1)
      | (Exit_failed, g1) \<Rightarrow> (Exit_failed, g1)
      | (No_exit, g1) \<Rightarrow> (No_exit, g1))"

text \<open>The answer is whether an exception escaped: only a \<^verbatim>\<open>RuntimeError\<close> is caught.\<close>

definition maybe_close_issue :: "'g gh \<Rightarrow> ustr \<Rightarrow> drift_fault \<Rightarrow> ustr \<Rightarrow> ustr \<Rightarrow> 'g \<Rightarrow> bool \<times> 'g" where
  "maybe_close_issue gh p f cmt cls g =
     (case find_open gh p f g of
        (Exit_failed, g1) \<Rightarrow> (False, g1)
      | (No_exit, g1) \<Rightarrow> (True, g1)
      | (Exit_ok None, g1) \<Rightarrow> (False, g1)
      | (Exit_ok (Some n), g1) \<Rightarrow>
          (case gh_comment gh n cmt g1 of
             (Exit_failed, g2) \<Rightarrow> (False, g2)
           | (No_exit, g2) \<Rightarrow> (True, g2)
           | (Exit_ok _, g2) \<Rightarrow>
               (case gh_close gh n cls g2 of
                  (No_exit, g3) \<Rightarrow> (True, g3)
                | (_, g3) \<Rightarrow> (False, g3))))"

text \<open>\<^verbatim>\<open>_maybe_file_issue\<close> and \<^verbatim>\<open>_maybe_file_play_issue\<close>, which differ in the counter, the fault and the body.\<close>

definition maybe_file :: "'g gh \<Rightarrow> ustr \<Rightarrow> drift_fault \<Rightarrow> int \<Rightarrow> ustr \<Rightarrow> 'g \<Rightarrow> bool \<times> 'g" where
  "maybe_file gh p f failures body g =
     (if failures < 2 then (False, g)
      else case find_open gh p f g of
        (Exit_failed, g1) \<Rightarrow> (False, g1)
      | (No_exit, g1) \<Rightarrow> (True, g1)
      | (Exit_ok (Some _), g1) \<Rightarrow> (False, g1)
      | (Exit_ok None, g1) \<Rightarrow>
          (case gh_create gh (issue_title p f) body g1 of
             (No_exit, g2) \<Rightarrow> (True, g2)
           | (_, g2) \<Rightarrow> (False, g2)))"

section \<open>Judging one provider\<close>

datatype issue_action = Close_recovered | Close_recalibrated int ustr | File_sweep

record judgement =
  j_state :: provider_state
  j_ok :: bool
  j_reason :: ustr
  j_updated :: bool
  j_recalibrated :: bool
  j_action :: issue_action

text \<open>Two signatures are equal as the dataclass compares them: dictionaries without regard to order.\<close>

definition same_signature :: "signature \<Rightarrow> signature \<Rightarrow> bool" where
  "same_signature a b \<longleftrightarrow>
     count_low a = count_low b \<and> count_high a = count_high b \<and> sort_key fst (form_frac a) = sort_key fst (form_frac b) \<and>
     sort_key fst (style_frac a) = sort_key fst (style_frac b) \<and> fields_ok a = fields_ok b"

definition deep_passed :: "deep_probe option \<Rightarrow> bool" where
  "deep_passed d = (case d of None \<Rightarrow> True | Some r \<Rightarrow> d_ok r)"

definition judge :: "ucd \<Rightarrow> provider_state \<Rightarrow> listing_probe \<Rightarrow> deep_probe option \<Rightarrow> judgement" where
  "judge U st r d =
     (let v = verdict_for U r (sig_of st);
          reason = (case d of
                      Some dr \<Rightarrow> if v_ok v \<and> \<not> d_ok dr then u ''deep probe failed: '' @ or_error (d_error dr) else v_reason v
                    | None \<Rightarrow> v_reason v)
      in if v_ok v \<and> deep_passed d then
           (let new = update_signature U (sig_of st) r in
            \<lparr>j_state = st\<lparr>consecutive_failures := 0, shape_streak := 0, sig_of := Some new\<rparr>,
             j_ok = True, j_reason = reason,
             j_updated = (case sig_of st of None \<Rightarrow> True | Some old \<Rightarrow> \<not> same_signature new old),
             j_recalibrated = False, j_action = Close_recovered\<rparr>)
         else
           (let failures = consecutive_failures st + 1;
                streak = (if v_kind v = Kind_shape \<and> deep_passed d then shape_streak st + 1 else 0)
            in if shape_recalibrate_after \<le> streak then
                 (let why = u ''recalibrated after '' @ dec_int streak @ u '' shape sweeps: '' @ v_reason v in
                  \<lparr>j_state = st\<lparr>consecutive_failures := 0, shape_streak := 0, sig_of := Some (update_signature U (sig_of st) r)\<rparr>,
                   j_ok = True, j_reason = why, j_updated = True, j_recalibrated = True,
                   j_action = Close_recalibrated streak why\<rparr>)
               else
                 \<lparr>j_state = st\<lparr>consecutive_failures := failures, shape_streak := streak\<rparr>,
                  j_ok = False, j_reason = reason, j_updated = False, j_recalibrated = False, j_action = File_sweep\<rparr>))"

definition sweep_issue_body :: "ustr \<Rightarrow> provider_state \<Rightarrow> listing_probe \<Rightarrow> ustr" where
  "sweep_issue_body p st r =
     u ''Drift detected for provider `'' @ p @ u ''` after '' @ dec_int (consecutive_failures st) @
     u '' consecutive failing sweeps.'' @ [10, 10] @
     u ''Listing: '' @ dec_nat (length (l_cards r)) @ u '' cards (ok='' @ (if l_ok r then u ''True'' else u ''False'') @
     u '', error='' @ (case l_error r of None \<Rightarrow> u ''none'' | Some e \<Rightarrow> if e = [] then u ''none'' else e) @ u '').'' @ [10, 10] @
     u ''Filed automatically by the drift monitor (spec #285). The next healthy sweep will comment and close this issue.''"

definition recovered_comment :: ustr where
  "recovered_comment = u ''Provider recovered '' @ [8212] @ u '' consecutive sweeps are healthy again. Closing this drift issue.''"

definition recovered_close :: ustr where
  "recovered_close = u ''Recovered: consecutive sweeps healthy.''"

definition recalibrated_comment :: "int \<Rightarrow> ustr \<Rightarrow> ustr" where
  "recalibrated_comment streak why =
     u ''Shape drift persisted for '' @ dec_int streak @ u '' consecutive sweeps ('' @ why @ u ''). The provider'' @ [39] @
     u ''s current shape is now its baseline, so this issue closes as an accepted change.''"

definition recalibrated_close :: "ustr \<Rightarrow> ustr" where
  "recalibrated_close why = u ''Recalibrated: the current shape is the new baseline ('' @ why @ u '').''"

definition act :: "'g gh \<Rightarrow> ustr \<Rightarrow> listing_probe \<Rightarrow> judgement \<Rightarrow> 'g \<Rightarrow> bool \<times> 'g" where
  "act gh p r j g =
     (case j_action j of
        Close_recovered \<Rightarrow> maybe_close_issue gh p Fault_sweep recovered_comment recovered_close g
      | Close_recalibrated n why \<Rightarrow> maybe_close_issue gh p Fault_sweep (recalibrated_comment n why) (recalibrated_close why) g
      | File_sweep \<Rightarrow> maybe_file gh p Fault_sweep (consecutive_failures (j_state j)) (sweep_issue_body p (j_state j) r) g)"

section \<open>The run\<close>

record provider_run =
  r_listing :: listing_probe
  r_deep :: "deep_probe option"
  r_ok :: bool
  r_reason :: ustr
  r_failures :: int
  r_updated :: bool
  r_recalibrated :: bool

record playback_entry =
  e_verdict :: play_verdict
  e_failures :: int

record report =
  p_runs :: "(ustr, provider_run) pdict"
  p_playback :: "(ustr, playback_entry) pdict"
  p_attestation_error :: "ustr option"
  p_failed :: "ustr list"

text \<open>What the run carries from provider to provider: the states, the tracker and the report.\<close>

record 'g sweep =
  states :: "(ustr, provider_state) pdict"
  tracker :: 'g
  w_report :: report

definition run_of :: "listing_probe \<Rightarrow> deep_probe option \<Rightarrow> judgement \<Rightarrow> provider_run" where
  "run_of r d j =
     \<lparr>r_listing = r, r_deep = d, r_ok = j_ok j, r_reason = j_reason j, r_failures = consecutive_failures (j_state j),
      r_updated = j_updated j, r_recalibrated = j_recalibrated j\<rparr>"

definition sweep_provider ::
  "ucd \<Rightarrow> 'g gh \<Rightarrow> bool \<Rightarrow> ustr set \<Rightarrow> ustr \<times> adapter \<Rightarrow> 'g sweep \<Rightarrow> bool \<times> 'g sweep" where
  "sweep_provider U gh skip deep_ids pa w =
     (let p = fst pa; a = snd pa;
          r = probe_listing U p a;
          d = (if p \<in> deep_ids then (case l_cards r of [] \<Rightarrow> None | c # _ \<Rightarrow> Some (probe_deep U p a c)) else None);
          j = judge U (get_state (states w) p) r d;
          (escaped, g) = (if skip then (False, tracker w) else act gh p r j (tracker w));
          w1 = w\<lparr>states := dset p (j_state j) (states w), tracker := g\<rparr>
      in if escaped then (True, w1)
         else (False, w1\<lparr>w_report := (w_report w)
                \<lparr>p_runs := dset p (run_of r d j) (p_runs (w_report w)),
                 p_failed := p_failed (w_report w) @ (if j_ok j then [] else [p])\<rparr>\<rparr>))"

record 't play_snapshot =
  s_providers :: "(ustr, play_counters) pdict"
  s_recent :: "'t play_fault list"

definition zero_progress_items :: "'t play_snapshot \<Rightarrow> ustr \<Rightarrow> ustr list" where
  "zero_progress_items s p =
     (let ids = map item_id (filter (\<lambda>f. outcome f = No_progress \<and> fault_provider f = p) (s_recent s))
      in drop (length ids - 5) ids)"

definition play_issue_body :: "ustr \<Rightarrow> provider_state \<Rightarrow> play_verdict \<Rightarrow> 't play_snapshot \<Rightarrow> ustr" where
  "play_issue_body p st v s =
     u ''Playback attestation for provider `'' @ p @ u ''`: '' @ dec_int (play_failures st) @
     u '' consecutive sweeps in which it SERVED streams the client never played.'' @ [10, 10] @
     u ''Latest sweep: '' @ pv_reason v @ u ''.'' @ [10, 10] @
     u ''This is the fault no probe can see: every stream resolution was answered with a playable URL, so the listing and the rotating deep '' @
     u ''probe are green while the client reports the position never advancing (`no-progress` on `/api/health`'' @ [39] @
     u ''s `playback` axis). Look at the delivery path for these items '' @ [8212] @
     u '' the upstream URL, its headers, or its container/codec '' @ [8212] @ u '' not at the provider'' @ [39] @ u ''s listing.'' @
     (let ids = zero_progress_items s p in
      if ids = [] then []
      else [10, 10] @ u ''Latest zero-progress items on the health surface'' @ [39] @
           u ''s tail (bounded, not necessarily this window): '' @ join (u '', '') (map (\<lambda>i. u ''`'' @ i @ u ''`'') ids) @ u ''.'') @
     [10, 10] @
     u ''Filed automatically by the drift monitor (spec #285). The next sweep in which clients play this provider'' @ [39] @
     u ''s streams again will comment and close this issue.''"

definition play_recovered_comment :: ustr where
  "play_recovered_comment = u ''Playback attested again '' @ [8212] @ u '' the client played this provider'' @ [39] @
     u ''s streams since the last sweep. Closing this drift issue.''"

definition play_recovered_close :: ustr where
  "play_recovered_close = u ''Recovered: the client plays this provider'' @ [39] @ u ''s streams again.''"

definition judge_play :: "provider_state \<Rightarrow> play_counters \<Rightarrow> play_verdict \<times> provider_state" where
  "judge_play st now =
     (let v = play_verdict_for (last_play st) now in
      (v, st\<lparr>play_failures := (case pv_kind v of Play_no_progress \<Rightarrow> play_failures st + 1 | Play_clean \<Rightarrow> 0
                                | Play_no_evidence \<Rightarrow> play_failures st),
             last_play := Some now\<rparr>))"

text \<open>One lane of \<^verbatim>\<open>_sweep_playback\<close>.  The counters are stored after the tracker was called.\<close>

definition sweep_lane ::
  "'g gh \<Rightarrow> bool \<Rightarrow> 't play_snapshot \<Rightarrow> ustr \<times> play_counters \<Rightarrow> 'g sweep \<Rightarrow> bool \<times> 'g sweep" where
  "sweep_lane gh skip s pc w =
     (let p = fst pc; st = get_state (states w) p; (v, st1) = judge_play st (snd pc);
          (escaped, g) =
            (if skip then (False, tracker w)
             else case pv_kind v of
               Play_no_progress \<Rightarrow> maybe_file gh p Fault_playback (play_failures st1) (play_issue_body p st1 v s) (tracker w)
             | Play_clean \<Rightarrow> maybe_close_issue gh p Fault_playback play_recovered_comment play_recovered_close (tracker w)
             | Play_no_evidence \<Rightarrow> (False, tracker w))
      in if p = unknown_provider then (False, w)
         else if escaped then (True, w\<lparr>states := dset p (st1\<lparr>last_play := last_play st\<rparr>) (states w), tracker := g\<rparr>)
         else (False, w\<lparr>states := dset p st1 (states w), tracker := g, w_report := (w_report w)
                \<lparr>p_playback := dset p \<lparr>e_verdict = v, e_failures = play_failures st1\<rparr> (p_playback (w_report w)),
                 p_failed := (if pv_kind v = Play_no_progress \<and> p \<notin> set (p_failed (w_report w))
                              then p_failed (w_report w) @ [p] else p_failed (w_report w))\<rparr>\<rparr>))"

text \<open>A loop whose body may let an exception escape.\<close>

fun for_each :: "('x \<Rightarrow> 's \<Rightarrow> bool \<times> 's) \<Rightarrow> 'x list \<Rightarrow> 's \<Rightarrow> bool \<times> 's" where
  "for_each f [] s = (False, s)"
| "for_each f (x # xs) s = (case f x s of (True, s1) \<Rightarrow> (True, s1) | (False, s1) \<Rightarrow> for_each f xs s1)"

text \<open>
  \<^verbatim>\<open>_read_playback\<close> and \<^verbatim>\<open>fetch_play_attestation\<close>: the request raised (its class and text), or answered with
  a status and a payload that validates to a snapshot or does not.
\<close>

datatype 't health_answer = Health_raised ustr ustr | Health_response int "(ustr \<times> ustr) + 't play_snapshot"

definition fetch_play_attestation :: "'t health_answer \<Rightarrow> 't play_snapshot option \<times> ustr option" where
  "fetch_play_attestation h =
     (case h of
        Health_raised cls t \<Rightarrow> (None, Some (other_text cls t))
      | Health_response code body \<Rightarrow>
          if code \<noteq> 200 then (None, Some (u ''HTTP '' @ dec_int code))
          else (case body of Inl (cls, t) \<Rightarrow> (None, Some (u ''unreadable payload: '' @ other_text cls t))
                | Inr s \<Rightarrow> (Some s, None)))"

definition read_playback ::
  "'t play_snapshot option \<Rightarrow> 't health_answer option \<Rightarrow> 't play_snapshot option \<times> ustr option" where
  "read_playback injected health =
     (case injected of
        Some s \<Rightarrow> (Some s, None)
      | None \<Rightarrow> (case health of None \<Rightarrow> (None, Some (u ''no health URL configured'')) | Some h \<Rightarrow> fetch_play_attestation h))"

datatype run_crash = Zero_division | Tracker_escaped

text \<open>
  \<^verbatim>\<open>run_once\<close> over the registry, in its order.  The result is an exception, which leaves the file of states as
  it was, with the tracker, or the report, the states saved and the tracker.
\<close>

definition run_once ::
  "ucd \<Rightarrow> 'g gh \<Rightarrow> bool \<Rightarrow> (ustr, adapter) pdict \<Rightarrow> int \<Rightarrow> int \<Rightarrow> 't play_snapshot option \<Rightarrow> 't health_answer option \<Rightarrow>
   (ustr, provider_state) pdict \<Rightarrow> 'g \<Rightarrow> run_crash \<times> 'g + 'g sweep" where
  "run_once U gh skip registry day every injected health sts g =
     (case rotate_deep (plain_ids (map fst registry)) day every of
        None \<Rightarrow> Inl (Zero_division, g)
      | Some deep_ids \<Rightarrow>
          (let (snap, err) = read_playback injected health;
               w0 = \<lparr>states = sts, tracker = g,
                     w_report = \<lparr>p_runs = [], p_playback = [], p_attestation_error = None, p_failed = []\<rparr>\<rparr>
           in case for_each (sweep_provider U gh skip deep_ids)
                     (filter (\<lambda>pa. fst pa \<notin> set excluded_provider_ids) registry) w0 of
                (True, w1) \<Rightarrow> Inl (Tracker_escaped, tracker w1)
              | (False, w1) \<Rightarrow>
                  (case (case snap of None \<Rightarrow> (False, w1)
                         | Some s \<Rightarrow> for_each (sweep_lane gh skip s) (sort_key fst (s_providers s)) w1) of
                     (True, w2) \<Rightarrow> Inl (Tracker_escaped, tracker w2)
                   | (False, w2) \<Rightarrow> Inr (w2\<lparr>w_report := (w_report w2)\<lparr>p_attestation_error := err\<rparr>\<rparr>))))"

section \<open>The sweeps of one provider\<close>

fun judge_run ::
  "ucd \<Rightarrow> (listing_probe \<times> deep_probe option) list \<Rightarrow> provider_state \<Rightarrow> provider_state \<times> judgement list" where
  "judge_run U [] st = (st, [])"
| "judge_run U ((r, d) # ps) st =
     (let j = judge U st r d; (st1, js) = judge_run U ps (j_state j) in (st1, j # js))"

definition trailing_failures :: "judgement list \<Rightarrow> nat" where
  "trailing_failures js = length (takeWhile (\<lambda>j. \<not> j_ok j) (rev js))"

text \<open>The three outcomes of a sweep.\<close>

definition new_streak :: "ucd \<Rightarrow> provider_state \<Rightarrow> listing_probe \<Rightarrow> deep_probe option \<Rightarrow> int" where
  "new_streak U st r d =
     (if v_kind (verdict_for U r (sig_of st)) = Kind_shape \<and> deep_passed d then shape_streak st + 1 else 0)"

definition passes :: "ucd \<Rightarrow> provider_state \<Rightarrow> listing_probe \<Rightarrow> deep_probe option \<Rightarrow> bool" where
  "passes U st r d \<longleftrightarrow> v_ok (verdict_for U r (sig_of st)) \<and> deep_passed d"

lemma judge_pass:
  "passes U st r d \<Longrightarrow> j_ok (judge U st r d) \<and> j_action (judge U st r d) = Close_recovered \<and>
     j_state (judge U st r d) = st\<lparr>consecutive_failures := 0, shape_streak := 0, sig_of := Some (update_signature U (sig_of st) r)\<rparr>"
  unfolding judge_def Let_def passes_def by simp

lemma judge_recalibrates:
  "\<not> passes U st r d \<Longrightarrow> 3 \<le> new_streak U st r d \<Longrightarrow>
     j_ok (judge U st r d) \<and> j_action (judge U st r d) \<noteq> File_sweep \<and> j_action (judge U st r d) \<noteq> Close_recovered \<and>
     j_state (judge U st r d) = st\<lparr>consecutive_failures := 0, shape_streak := 0, sig_of := Some (update_signature U (sig_of st) r)\<rparr>"
  unfolding judge_def Let_def passes_def new_streak_def shape_recalibrate_after_def by (simp only: if_False if_True) simp

lemma judge_fails:
  "\<not> passes U st r d \<Longrightarrow> \<not> 3 \<le> new_streak U st r d \<Longrightarrow>
     \<not> j_ok (judge U st r d) \<and> j_action (judge U st r d) = File_sweep \<and>
     j_state (judge U st r d) = st\<lparr>consecutive_failures := consecutive_failures st + 1, shape_streak := new_streak U st r d\<rparr>"
  unfolding judge_def Let_def passes_def new_streak_def shape_recalibrate_after_def by (simp only: if_False) simp

lemma new_streak_nonneg: "0 \<le> shape_streak st \<Longrightarrow> 0 \<le> new_streak U st r d"
  by (simp add: new_streak_def)

lemma judge_counters:
  "consecutive_failures (j_state (judge U st r d)) = (if j_ok (judge U st r d) then 0 else consecutive_failures st + 1)"
  "0 \<le> shape_streak st \<Longrightarrow> 0 \<le> shape_streak (j_state (judge U st r d)) \<and> shape_streak (j_state (judge U st r d)) < 3"
  "\<not> j_ok (judge U st r d) \<Longrightarrow> j_action (judge U st r d) = File_sweep"
  "j_ok (judge U st r d) \<Longrightarrow> j_action (judge U st r d) \<noteq> File_sweep"
  using judge_pass [of U st r d] judge_recalibrates [of U st r d] judge_fails [of U st r d] new_streak_nonneg [of st U r d]
  by (cases "passes U st r d"; cases "3 \<le> new_streak U st r d"; simp; fail)+

lemma judge_run_snoc:
  "judge_run U (ps @ [x]) st =
     (let (st1, js) = judge_run U ps st; j = judge U st1 (fst x) (snd x) in (j_state j, js @ [j]))"
  by (induction U ps st rule: judge_run.induct) (cases x, auto simp: Let_def split: prod.splits)+

lemma judge_run_counters:
  "judge_run U ps new_state = (st, js) \<Longrightarrow>
     consecutive_failures st = int (trailing_failures js) \<and> 0 \<le> shape_streak st \<and> shape_streak st < 3 \<and> length js = length ps"
proof (induction ps arbitrary: st js rule: rev_induct)
  case Nil
  then show ?case by (auto simp: new_state_def trailing_failures_def)
next
  case (snoc x ps)
  obtain st1 js1 where r: "judge_run U ps new_state = (st1, js1)" by force
  from snoc.IH [OF r] snoc.prems show ?case
    using judge_counters(1) [of U st1 "fst x" "snd x"] judge_counters(2) [of st1 U "fst x" "snd x"]
    by (auto simp: judge_run_snoc r Let_def trailing_failures_def split: if_splits)
qed

text \<open>The issue rule: after any sweeps of a provider its counter is the number of failed sweeps since the
  last passed or recalibrated one and its shape streak is below three, and a sweep that fails touches the
  issue tracker only when the one before it failed too.\<close>

theorem second_failure_rule:
  "case judge_run U (ps @ [x]) new_state of (st, js) \<Rightarrow>
     consecutive_failures st = int (trailing_failures js) \<and> 0 \<le> shape_streak st \<and> shape_streak st < shape_recalibrate_after \<and>
     act gh p (fst x) (last js) g =
       (if j_ok (last js) then maybe_close_issue gh p Fault_sweep
            (case j_action (last js) of Close_recalibrated n why \<Rightarrow> recalibrated_comment n why | _ \<Rightarrow> recovered_comment)
            (case j_action (last js) of Close_recalibrated n why \<Rightarrow> recalibrated_close why | _ \<Rightarrow> recovered_close) g
        else if trailing_failures js = 1 then (False, g)
        else maybe_file gh p Fault_sweep (int (trailing_failures js)) (sweep_issue_body p st (fst x)) g)"
proof -
  obtain st1 js1 where r: "judge_run U ps new_state = (st1, js1)" by force
  let ?j = "judge U st1 (fst x) (snd x)"
  have run: "judge_run U (ps @ [x]) new_state = (j_state ?j, js1 @ [?j])" by (simp add: judge_run_snoc r Let_def)
  note c = judge_run_counters [OF run]
  note ok = judge_counters(4) [of U st1 "fst x" "snd x"]
  have bad: "\<not> j_ok ?j \<Longrightarrow> 1 \<le> trailing_failures (js1 @ [?j])" by (simp add: trailing_failures_def)
  show ?thesis
    using c ok bad judge_counters(3) [of U st1 "fst x" "snd x"]
    by (auto simp: run act_def maybe_file_def shape_recalibrate_after_def split: issue_action.splits)
qed

definition calibrated :: "ucd \<Rightarrow> listing_probe \<Rightarrow> provider_state \<Rightarrow> bool" where
  "calibrated U r st \<longleftrightarrow> (\<exists>old. sig_of st = Some (update_signature U old r))"

lemma judge_ok_calibrates: "j_ok (judge U st r d) \<Longrightarrow> calibrated U r (j_state (judge U st r d))"
  using judge_pass [of U st r d] judge_recalibrates [of U st r d] judge_fails [of U st r d]
  by (cases "passes U st r d"; cases "3 \<le> new_streak U st r d") (auto simp: calibrated_def)

lemma judge_calibrated:
  assumes "calibrated U r st" and "serving U r" and "deep_passed d"
  shows "j_ok (judge U st r d)"
proof -
  obtain old where "sig_of st = Some (update_signature U old r)" using assms(1) by (auto simp: calibrated_def)
  then have "passes U st r d" using calibrated_listing_passes_aux [OF assms(2)] assms(3) by (simp add: passes_def)
  then show ?thesis using judge_pass by blast
qed

lemma judge_shape_failure:
  assumes "\<not> j_ok (judge U st r d)" and "serving U r" and "deep_passed d"
  shows "shape_streak (j_state (judge U st r d)) = shape_streak st + 1 \<and> shape_streak st + 1 < 3"
proof -
  have np: "\<not> passes U st r d" "\<not> 3 \<le> new_streak U st r d"
    using assms(1) judge_pass [of U st r d] judge_recalibrates [of U st r d] by blast+
  then have "v_kind (verdict_for U r (sig_of st)) = Kind_shape" using failing_kind assms(2,3) by (auto simp: passes_def)
  with assms(3) have "new_streak U st r d = shape_streak st + 1" by (simp add: new_streak_def)
  then show ?thesis using judge_fails [OF np] np(2) by simp
qed

lemma stays_calibrated:
  "calibrated U r st \<Longrightarrow> serving U r \<Longrightarrow> deep_passed d \<Longrightarrow> \<forall>j \<in> set (snd (judge_run U (replicate n (r, d)) st)). j_ok j"
proof (induction n arbitrary: st)
  case (Suc n)
  have ok: "j_ok (judge U st r d)" by (rule judge_calibrated) (use Suc.prems in simp_all)
  from Suc.IH [OF judge_ok_calibrates [OF ok] Suc.prems(2,3)] ok show ?case
    by (simp add: Let_def case_prod_beta)
qed simp

lemma converges_from:
  assumes "serving U r" and "deep_passed d"
  shows "0 \<le> shape_streak st \<Longrightarrow> k < n \<Longrightarrow> 2 \<le> int k + shape_streak st \<Longrightarrow> j_ok (snd (judge_run U (replicate n (r, d)) st) ! k)"
proof (induction n arbitrary: st k)
  case (Suc n)
  let ?j = "judge U st r d"
  have run: "snd (judge_run U (replicate (Suc n) (r, d)) st) = ?j # snd (judge_run U (replicate n (r, d)) (j_state ?j))"
    by (simp add: Let_def case_prod_beta)
  have len: "length (snd (judge_run U (replicate m (r, d)) s)) = m" for m s
    by (induction m arbitrary: s) (simp_all add: Let_def case_prod_beta)
  show ?case
  proof (cases "j_ok ?j")
    case True
    have all: "\<forall>j \<in> set (snd (judge_run U (replicate n (r, d)) (j_state ?j))). j_ok j"
      by (rule stays_calibrated [OF judge_ok_calibrates [OF True] assms])
    show ?thesis
    proof (cases k)
      case 0
      then show ?thesis unfolding run using True by simp
    next
      case (Suc m)
      then show ?thesis unfolding run using all Suc.prems(2) by (auto simp: len intro!: all [rule_format] nth_mem)
    qed
  next
    case False
    note s = judge_shape_failure [OF False assms]
    then obtain m where k: "k = Suc m" using Suc.prems(3) by (cases k) auto
    have "j_ok (snd (judge_run U (replicate n (r, d)) (j_state ?j)) ! m)"
      by (rule Suc.IH) (use s Suc.prems k in auto)
    then show ?thesis unfolding run k by simp
  qed
qed simp

text \<open>C22: A provider whose shape moved and that keeps serving converges: from any state, of the same healthy
  listing probed again and again at most the first two sweeps fail; from the third on every sweep passes.\<close>

theorem shape_drift_converges:
  assumes "serving U r" and "deep_passed d" and "0 \<le> shape_streak st" and "2 \<le> k" and "k < n"
  shows "j_ok (snd (judge_run U (replicate n (r, d)) st) ! k)"
  by (rule converges_from [OF assms(1,2,3,5)]) (use assms(3,4) in simp)

text \<open>A provider that is not serving, or whose deep probe fails, never recalibrates: the sweep fails, its
  shape streak is reset and its baseline stays what it was.\<close>

theorem broken_never_recalibrates:
  assumes "\<not> serving U r \<or> \<not> deep_passed d"
  shows "\<not> j_ok (judge U st r d) \<and> shape_streak (j_state (judge U st r d)) = 0 \<and>
    sig_of (j_state (judge U st r d)) = sig_of st"
proof -
  have "\<not> passes U st r d" "new_streak U st r d = 0"
    using assms broken_not_ok [of U r "sig_of st"] by (auto simp: passes_def new_streak_def)
  then show ?thesis using judge_fails [of U st r d] by simp
qed

section \<open>The rotation\<close>

lemma pick_from_nth:
  "i < length ids \<Longrightarrow> set (pick_from ids i k) = {ids ! ((i + t) mod length ids) | t. t < k}"
proof (induction k arbitrary: i)
  case (Suc k)
  have "Suc i mod length ids < length ids" by (rule mod_less_divisor) (use Suc.prems in linarith)
  from Suc.IH [OF this]
  have "set (pick_from ids (Suc i mod length ids) k) = {ids ! ((i + Suc t) mod length ids) | t. t < k}"
    by (simp add: mod_add_left_eq)
  moreover have "{f t | t. t < Suc k} = insert (f 0) {f (Suc t) | t. t < k}" for f :: "nat \<Rightarrow> 'a"
    by (auto simp: less_Suc_eq_0_disj)
  from this [of "\<lambda>t. ids ! ((i + t) mod length ids)"]
  have "{ids ! ((i + t) mod length ids) | t. t < Suc k} = insert (ids ! i) {ids ! ((i + Suc t) mod length ids) | t. t < k}"
    using Suc.prems by simp
  ultimately show ?case by simp
qed simp

text \<open>Within any \<^verbatim>\<open>every_n_days\<close> consecutive days each provider that is probed at all gets a deep probe.\<close>

theorem rotation_covers:
  assumes "p \<in> set ids" and "p \<notin> set excluded_provider_ids" and "1 \<le> every"
  shows "\<exists>k picked. 0 \<le> k \<and> k < every \<and> rotate_deep ids (day + k) every = Some picked \<and> p \<in> picked"
proof -
  let ?ids = "plain_ids ids" and ?L = "int (length (plain_ids ids))"
  have p: "p \<in> set ?ids" using assms(1,2) by (simp add: plain_ids_def)
  then obtain m where m: "m < length ?ids" "?ids ! m = p" by (metis in_set_conv_nth)
  let ?s = "rotation_step (length ?ids) every"
  have L: "0 < ?L" using m(1) by linarith
  have s1: "1 \<le> ?s" by (simp add: rotation_step_def)
  have s2: "?L \<le> ?s * every"
  proof -
    have "?L + every - 1 = (?L + every - 1) div every * every + (?L + every - 1) mod every" by simp
    moreover have "(?L + every - 1) mod every < every" using assms(3) by simp
    ultimately have "?L \<le> (?L + every - 1) div every * every" by linarith
    also have "\<dots> \<le> ?s * every" using assms(3) by (intro mult_right_mono) (simp_all add: rotation_step_def)
    finally show ?thesis .
  qed
  define x where "x = (int m - day * ?s) mod ?L"
  have x: "0 \<le> x" "x < ?L" using L by (simp_all add: x_def)
  define k where "k = x div ?s"
  define t where "t = x mod ?s"
  have kt: "k * ?s + t = x" unfolding k_def t_def by (rule div_mult_mod_eq)
  have t: "0 \<le> t" "t < ?s" using s1 by (simp_all add: t_def)
  have k0: "0 \<le> k" using x s1 by (simp add: k_def pos_imp_zdiv_nonneg_iff)
  have "k * ?s < every * ?s" using kt t x s2 mult.commute [of ?s every] by linarith
  then have k1: "k < every" using s1 by (simp add: mult_less_cancel_right)
  let ?i = "nat ((day + k) * ?s mod ?L)"
  have i: "?i < length ?ids" using L by (simp add: nat_less_iff)
  have "int ((?i + nat t) mod length ?ids) = ((day + k) * ?s + t) mod ?L"
    using t L by (simp add: zmod_int mod_add_left_eq)
  also have "(day + k) * ?s + t = day * ?s + x" using kt by (simp add: algebra_simps)
  also have "(day * ?s + x) mod ?L = int m mod ?L" by (simp add: x_def mod_add_right_eq)
  finally have idx: "(?i + nat t) mod length ?ids = m" using m(1) by simp
  have "p \<in> set (pick_from ?ids ?i (nat ?s))"
    unfolding pick_from_nth [OF i] using idx m(2) t by (auto intro!: exI [of _ "nat t"])
  moreover have "?ids \<noteq> []" using m(1) by auto
  ultimately have "rotate_deep ids (day + k) every = Some (set (pick_from ?ids ?i (nat ?s))) \<and> p \<in> set (pick_from ?ids ?i (nat ?s))"
    using assms(3) by (simp add: rotate_deep_def Let_def)
  with k0 k1 show ?thesis by blast
qed

section \<open>One issue per provider and fault\<close>

text \<open>
  What the monitor relies on of \<^verbatim>\<open>gh\<close> and the tracker behind it, over the open issues (number and title) of
  its state: a search by title lists open issues only and misses none with that title; a created issue has
  the title it was given; closing a number closes at most that issue; a call that fails may still have done
  its work.
\<close>

definition gh_sound :: "'g gh \<Rightarrow> ('g \<Rightarrow> (ustr \<times> ustr) list) \<Rightarrow> bool" where
  "gh_sound gh issues \<longleftrightarrow>
     (\<forall>q g. issues (snd (gh_list gh q g)) = issues g) \<and>
     (\<forall>t g rows. fst (gh_list gh (title_query t) g) = Exit_ok rows \<longrightarrow>
        set rows \<subseteq> set (issues g) \<and> (\<forall>n. (n, t) \<in> set (issues g) \<longrightarrow> (n, t) \<in> set rows)) \<and>
     (\<forall>t b g. issues (snd (gh_create gh t b g)) = issues g \<or> (\<exists>n. issues (snd (gh_create gh t b g)) = issues g @ [(n, t)])) \<and>
     (\<forall>n c g. issues (snd (gh_comment gh n c g)) = issues g) \<and>
     (\<forall>n c g. issues (snd (gh_close gh n c g)) = issues g \<or>
        issues (snd (gh_close gh n c g)) = filter (\<lambda>i. fst i \<noteq> n) (issues g))"

definition open_count :: "(ustr \<times> ustr) list \<Rightarrow> ustr \<Rightarrow> nat" where
  "open_count iss t = length (filter (\<lambda>i. snd i = t) iss)"

definition no_duplicates :: "(ustr \<times> ustr) list \<Rightarrow> bool" where
  "no_duplicates iss \<longleftrightarrow> (\<forall>p f. open_count iss (issue_title p f) \<le> 1)"

lemma open_count_filter: "open_count (filter P iss) t \<le> open_count iss t"
  by (induction iss) (auto simp: open_count_def)

lemma find_open_issues:
  assumes "gh_sound gh issues"
  shows "issues (snd (find_open gh p f g)) = issues g"
    and "fst (find_open gh p f g) = Exit_ok None \<Longrightarrow> open_count (issues g) (issue_title p f) = 0"
proof -
  let ?t = "issue_title p f"
  obtain o0 g1 where l: "gh_list gh (title_query ?t) g = (o0, g1)" by force
  have same: "issues g1 = issues g" using assms l by (metis gh_sound_def snd_conv)
  show "issues (snd (find_open gh p f g)) = issues g"
    using same by (cases o0) (simp_all add: find_open_def l Let_def)
  assume none: "fst (find_open gh p f g) = Exit_ok None"
  then obtain rows where o: "o0 = Exit_ok rows" "find (\<lambda>r. snd r = ?t) rows = None"
    by (cases o0) (auto simp: find_open_def l Let_def)
  have "\<forall>n. (n, ?t) \<in> set (issues g) \<longrightarrow> (n, ?t) \<in> set rows"
    using assms l o(1) unfolding gh_sound_def by (metis fst_conv)
  moreover have "\<forall>r \<in> set rows. snd r \<noteq> ?t" using o(2) by (auto simp: find_None_iff)
  ultimately show "open_count (issues g) ?t = 0" by (force simp: open_count_def filter_empty_conv)
qed

lemma maybe_close_no_duplicates:
  assumes "gh_sound gh issues" and "no_duplicates (issues g)"
  shows "no_duplicates (issues (snd (maybe_close_issue gh p f c k g)))"
proof -
  have cm: "issues (snd (gh_comment gh n c g1)) = issues g1" for n g1 using assms(1) by (simp add: gh_sound_def)
  have cl: "no_duplicates (issues g1) \<Longrightarrow> no_duplicates (issues (snd (gh_close gh n k g1)))" for n g1
  proof -
    assume nd: "no_duplicates (issues g1)"
    from assms(1) have "issues (snd (gh_close gh n k g1)) = issues g1 \<or>
        issues (snd (gh_close gh n k g1)) = filter (\<lambda>i. fst i \<noteq> n) (issues g1)" by (simp add: gh_sound_def)
    then show ?thesis
      using nd open_count_filter [of "\<lambda>i. fst i \<noteq> n" "issues g1"]
      unfolding no_duplicates_def by (metis order.trans)
  qed
  obtain o1 g1 where f: "find_open gh p f g = (o1, g1)" by force
  have g1: "issues g1 = issues g" using find_open_issues(1) [OF assms(1), of p f g] by (simp add: f)
  show ?thesis
  proof (cases "\<exists>n. o1 = Exit_ok (Some n)")
    case True
    then obtain n where n: "o1 = Exit_ok (Some n)" by blast
    obtain o2 g2 where 2: "gh_comment gh n c g1 = (o2, g2)" by force
    obtain o3 g3 where 3: "gh_close gh n k g2 = (o3, g3)" by force
    have "issues g2 = issues g" using cm [of n g1] g1 by (simp add: 2)
    moreover from this have "no_duplicates (issues g3)" using cl [of g2 n] assms(2) by (simp add: 3)
    ultimately show ?thesis using assms(2) by (cases o2; cases o3) (simp_all add: maybe_close_issue_def f n 2 3)
  next
    case False
    then show ?thesis using g1 assms(2)
      by (auto simp: maybe_close_issue_def f split: gh_out.splits option.splits)
  qed
qed

lemma maybe_file_no_duplicates:
  assumes "gh_sound gh issues" and "no_duplicates (issues g)"
  shows "no_duplicates (issues (snd (maybe_file gh p f n b g)))"
proof -
  obtain o1 g1 where f: "find_open gh p f g = (o1, g1)" by force
  have g1: "issues g1 = issues g" using find_open_issues(1) [OF assms(1), of p f g] by (simp add: f)
  obtain o2 g2 where 2: "gh_create gh (issue_title p f) b g1 = (o2, g2)" by force
  have "no_duplicates (issues g2)" if "o1 = Exit_ok None"
  proof -
    have z: "open_count (issues g) (issue_title p f) = 0" using find_open_issues(2) [OF assms(1), of p f g] that by (simp add: f)
    from assms(1) have "issues (snd (gh_create gh (issue_title p f) b g1)) = issues g1 \<or>
        (\<exists>m. issues (snd (gh_create gh (issue_title p f) b g1)) = issues g1 @ [(m, issue_title p f)])"
      by (simp add: gh_sound_def)
    then have "issues g2 = issues g \<or> (\<exists>m. issues g2 = issues g @ [(m, issue_title p f)])" by (simp add: 2 g1)
    then show ?thesis using z assms(2) by (auto simp: no_duplicates_def open_count_def)
  qed
  then show ?thesis using g1 assms(2)
    by (auto simp: maybe_file_def f 2 split: gh_out.splits option.splits)
qed

lemma for_each_keeps:
  assumes "\<And>x w. P w \<Longrightarrow> P (snd (f x w))"
  shows "P w \<Longrightarrow> P (snd (for_each f xs w))"
proof (induction xs arbitrary: w)
  case (Cons x xs)
  obtain e w1 where x: "f x w = (e, w1)" by force
  have "P w1" using assms [OF Cons.prems, of x] by (simp add: x)
  with Cons.IH show ?case by (cases e) (simp_all add: x)
qed simp

lemma sweep_provider_no_duplicates:
  assumes "gh_sound gh issues" and "no_duplicates (issues (tracker w))"
  shows "no_duplicates (issues (tracker (snd (sweep_provider U gh skip deep x w))))"
proof -
  have a: "no_duplicates (issues (snd (act gh p r j g)))" if "no_duplicates (issues g)" for p r j g
    using maybe_close_no_duplicates [OF assms(1) that] maybe_file_no_duplicates [OF assms(1) that]
    by (cases "j_action j") (simp_all add: act_def)
  show ?thesis unfolding sweep_provider_def Let_def
    using assms(2) a [OF assms(2)] by (simp add: case_prod_beta)
qed

lemma sweep_lane_no_duplicates:
  assumes "gh_sound gh issues" and "no_duplicates (issues (tracker w))"
  shows "no_duplicates (issues (tracker (snd (sweep_lane gh skip s x w))))"
  unfolding sweep_lane_def Let_def
  using assms(2) maybe_close_no_duplicates [OF assms] maybe_file_no_duplicates [OF assms]
  by (simp add: case_prod_beta split: play_verdict_kind.splits)

text \<open>C11: However often the monitor runs, and even when calls of \<^verbatim>\<open>gh\<close> fail or a run is cut short, the tracker
  never gets a second open issue for the same provider and fault.\<close>

theorem no_duplicate_issues:
  assumes "gh_sound gh issues" and "no_duplicates (issues g)"
  shows "case run_once U gh skip registry day every injected health sts g of
      Inl (crash, g') \<Rightarrow> no_duplicates (issues g') | Inr w \<Rightarrow> no_duplicates (issues (tracker w))"
proof (cases "rotate_deep (plain_ids (map fst registry)) day every")
  case None
  then show ?thesis using assms(2) by (simp add: run_once_def)
next
  case (Some deep)
  let ?P = "\<lambda>w. no_duplicates (issues (tracker w))"
  obtain snap err where s: "read_playback injected health = (snap, err)" by force
  let ?w0 = "\<lparr>states = sts, tracker = g,
    w_report = \<lparr>p_runs = [], p_playback = [], p_attestation_error = None, p_failed = []\<rparr>\<rparr>"
  let ?reg = "filter (\<lambda>pa. fst pa \<notin> set excluded_provider_ids) registry"
  obtain e1 w1 where 1: "for_each (sweep_provider U gh skip deep) ?reg ?w0 = (e1, w1)" by force
  have p1: "?P w1"
    using for_each_keeps [of ?P "sweep_provider U gh skip deep", OF sweep_provider_no_duplicates [OF assms(1)], of ?w0 ?reg] assms(2)
    by (simp add: 1)
  have p2: "?P (snd (for_each (sweep_lane gh skip sn) xs w1))" for sn xs
    by (rule for_each_keeps [of ?P, OF sweep_lane_no_duplicates [OF assms(1)] p1])
  show ?thesis
  proof (cases snap)
    case None
    then show ?thesis using p1 by (cases e1) (simp_all add: run_once_def Some s 1 Let_def)
  next
    case (Some sn)
    obtain e2 w2 where 2: "for_each (sweep_lane gh skip sn) (sort_key fst (s_providers sn)) w1 = (e2, w2)" by force
    from p2 [of sn "sort_key fst (s_providers sn)"] have "?P w2" by (simp add: 2)
    with p1 show ?thesis
      by (cases e1; cases e2) (simp_all add: run_once_def \<open>rotate_deep _ day every = Some deep\<close> s Some 1 2 Let_def)
  qed
qed

section \<open>A tracker, and runs on it\<close>

text \<open>A tracker that always answers: its open issues, numbered from one.\<close>

definition hub :: "(ustr \<times> ustr) list gh" where
  "hub = \<lparr>gh_list = \<lambda>q g. (Exit_ok (filter (\<lambda>i. title_query (snd i) = q) g), g),
          gh_create = \<lambda>t b g. (Exit_ok (dec_nat (Suc (length g))), g @ [(dec_nat (Suc (length g)), t)]),
          gh_comment = \<lambda>n c g. (Exit_ok (), g),
          gh_close = \<lambda>n c g. (Exit_ok (), filter (\<lambda>i. fst i \<noteq> n) g)\<rparr>"

lemma hub_sound: "gh_sound hub id"
  by (auto simp: gh_sound_def hub_def title_query_def)

text \<open>Two providers: one whose listing cannot be reached, one that lists a card twice.\<close>

definition sample_card :: search_result where
  "sample_card = \<lparr>sr_id = u ''up:1'', provider = u ''up'', form = Movie, title = u ''T'', year = None, poster = None,
     url = u ''x'', styles = {}, genres = [], imdb_id = None\<rparr>"

definition down_adapter :: adapter where
  "down_adapter = \<lparr>a_name = u ''Down'', a_newest = Some (u ''new''), a_sections = [],
     a_browse = \<lambda>s. Provider_error (u ''unreachable'') [] (Some ([], u ''ReadTimeout'')), a_search = \<lambda>q. Answers [],
     a_content = \<lambda>i. Answers [], a_stream = \<lambda>i. Answers [], a_head = \<lambda>i. Answers 200\<rparr>"

definition up_adapter :: adapter where
  "up_adapter = down_adapter\<lparr>a_browse := \<lambda>s. Answers [sample_card, sample_card]\<rparr>"

lemma sample_serving:
  "serving ua_ucd \<lparr>l_provider = p, l_ok = True, l_error = None, l_cards = [sample_card, sample_card], l_kind = k\<rparr>"
  by (simp add: serving_def card_fields_ok_def min_cards_def strip_def ua_ucd_def u_def in_ranges_def sample_card_def)

theorem shape_drift_converges_witness:
  "j_ok (snd (judge_run ua_ucd (replicate 4 (\<lparr>l_provider = u ''up'', l_ok = True, l_error = None,
     l_cards = [sample_card, sample_card], l_kind = Probe_browse\<rparr>, None)) new_state) ! 2)"
  by (rule shape_drift_converges [OF sample_serving]) (simp_all add: deep_passed_def new_state_def)

theorem broken_never_recalibrates_witness:
  "\<not> j_ok (judge ua_ucd new_state (probe_listing ua_ucd (u ''down'') down_adapter) None)"
  by (rule broken_never_recalibrates [THEN conjunct1])
    (simp add: serving_def probe_listing_def listing_section_def down_adapter_def u_def)

theorem rotation_covers_witness:
  "\<exists>k picked. 0 \<le> k \<and> k < 2 \<and> rotate_deep [u ''a'', u ''uakino'', u ''b'', u ''c''] (7 + k) 2 = Some picked \<and> u ''c'' \<in> picked"
  by (rule rotation_covers) (simp_all add: excluded_provider_ids_def)

theorem no_duplicate_issues_witness:
  "case run_once ua_ucd hub False [(u ''down'', down_adapter)] 0 6 None (None :: unit health_answer option) [] [] of
      Inl (crash, g') \<Rightarrow> no_duplicates g' | Inr w \<Rightarrow> no_duplicates (tracker w)"
  using no_duplicate_issues [OF hub_sound, of "[]" ua_ucd False "[(u ''down'', down_adapter)]" 0 6 None "None :: unit health_answer option" "[]"]
  unfolding id_apply by (simp add: no_duplicates_def open_count_def del: id_apply)

text \<open>The promise that a tracker outage never crashes the sweep covers only a \<^verbatim>\<open>gh\<close> that exits: where the
  program is missing or runs into its timeout the exception is no \<^verbatim>\<open>RuntimeError\<close>, and the first healthy
  provider ends the whole run, before the states or the report are written.\<close>

theorem missing_gh_ends_run:
  assumes "\<And>q g. gh_list gh q g = (No_exit, g)" and "every \<noteq> 0"
    and "filter (\<lambda>pa. fst pa \<notin> set excluded_provider_ids) registry = (p, a) # rest"
    and "serving U (probe_listing U p a)" and "dget sts p = None"
    and "\<And>c. d_ok (probe_deep U p a c)"
  shows "run_once U gh False registry day every injected health sts g = Inl (Tracker_escaped, g)"
proof -
  obtain deep where d: "rotate_deep (plain_ids (map fst registry)) day every = Some deep"
    using assms(2) by (cases "plain_ids (plain_ids (map fst registry)) = []") (auto simp: rotate_deep_def Let_def)
  obtain snap err where s: "read_playback injected health = (snap, err)" by force
  let ?w0 = "\<lparr>states = sts, tracker = g,
    w_report = \<lparr>p_runs = [], p_playback = [], p_attestation_error = None, p_failed = []\<rparr>\<rparr>"
  let ?r = "probe_listing U p a"
  let ?d = "if p \<in> deep then (case l_cards ?r of [] \<Rightarrow> None | c # _ \<Rightarrow> Some (probe_deep U p a c)) else None"
  have st: "get_state sts p = new_state" using assms(5) by (simp add: get_state_def)
  have "verdict_for U ?r None = \<lparr>v_ok = True, v_reason = u ''baseline (first calibration)'', v_kind = Kind_ok\<rparr>"
    using assms(4) by (auto simp: verdict_for_def serving_def min_cards_def)
  then have "passes U new_state ?r ?d"
    using assms(6) by (auto simp: passes_def new_state_def deep_passed_def split: list.splits)
  from judge_pass [OF this] have j: "j_action (judge U new_state ?r ?d) = Close_recovered" by blast
  have "act gh p ?r (judge U new_state ?r ?d) g = (True, g)"
    unfolding act_def j by (simp add: maybe_close_issue_def find_open_def assms(1))
  then have "sweep_provider U gh False deep (p, a) ?w0 =
      (True, ?w0\<lparr>states := dset p (j_state (judge U new_state ?r ?d)) sts, tracker := g\<rparr>)"
    unfolding sweep_provider_def Let_def fst_conv snd_conv sweep.simps st by (simp only: if_False case_prod_conv) simp
  then show ?thesis by (simp add: run_once_def d s assms(3) Let_def)
qed

theorem missing_gh_ends_run_witness:
  "run_once ua_ucd (hub\<lparr>gh_list := \<lambda>q g. (No_exit, g)\<rparr>) False [(u ''up'', up_adapter)] 0 6 None (None :: unit health_answer option) [] []
     = Inl (Tracker_escaped, [])"
proof (rule missing_gh_ends_run)
  show "serving ua_ucd (probe_listing ua_ucd (u ''up'') up_adapter)"
    using sample_serving by (simp add: probe_listing_def listing_section_def up_adapter_def down_adapter_def u_def)
  show "filter (\<lambda>pa. fst pa \<notin> set excluded_provider_ids) [(u ''up'', up_adapter)] = (u ''up'', up_adapter) # []"
    by (simp add: excluded_provider_ids_def)
qed (simp_all add: probe_deep_def up_adapter_def down_adapter_def Let_def)

end
