(* ===== verification/User_State.thy ===== *)
theory User_State
  imports Versioned_Store
begin

text \<open>
  The user-state store, \<^verbatim>\<open>backend/cs_uk_api/user_state.py\<close>: favourites, played marks and the remembered
  dub of every series, written to the file by each operation before it returns.
\<close>

section \<open>State and its persisted form\<close>

definition max_marks :: nat where "max_marks = 256"
definition max_dub_memory :: nat where "max_dub_memory = 50"

record user_state =
  favorites :: "ustr set"
  played :: "ustr set"
  dub_memory :: "(ustr, ustr) pdict"

definition empty_user_state :: user_state where
  "empty_user_state = \<lparr>favorites = {}, played = {}, dub_memory = []\<rparr>"

definition clean_list :: "json \<Rightarrow> ustr set" where
  "clean_list raw = (case as_list raw of None \<Rightarrow> {} | Some xs \<Rightarrow> set (List.map_filter as_str xs))"

definition encode_user_state :: "user_state \<Rightarrow> json option" where
  "encode_user_state s =
     Some (JObject
       [(u ''favorites'', JList (map JStr (sorted_list_of_set (favorites s)))),
        (u ''played'', JList (map JStr (sorted_list_of_set (played s)))),
        (u ''dub_memory'', JObject (map (\<lambda>(k, v). (k, JStr v)) (dub_memory s)))])"

definition decode_user_state :: "json \<Rightarrow> user_state option" where
  "decode_user_state data =
     (case as_dict data of
        None \<Rightarrow> None
      | Some d \<Rightarrow>
          Some \<lparr>favorites = clean_list (jget d (u ''favorites'')), played = clean_list (jget d (u ''played'')),
                dub_memory = (case as_dict (jget d (u ''dub_memory'')) of
                    None \<Rightarrow> []
                  | Some m \<Rightarrow> List.map_filter (\<lambda>(k, v). map_option (Pair k) (as_str v)) m)\<rparr>)"

section \<open>Operations\<close>

definition trim_marks :: "ustr set \<Rightarrow> ustr set" where
  "trim_marks m =
     (if max_marks < card m then set (drop (card m - max_marks) (sorted_list_of_set m)) else m)"

definition trim :: "user_state \<Rightarrow> user_state" where
  "trim s = s\<lparr>favorites := trim_marks (favorites s), played := trim_marks (played s)\<rparr>"

definition set_favorite :: "ustr \<Rightarrow> bool \<Rightarrow> user_state \<Rightarrow> user_state" where
  "set_favorite i on s = trim (s\<lparr>favorites := (if on then insert i (favorites s) else favorites s - {i})\<rparr>)"

definition set_played :: "ustr \<Rightarrow> bool \<Rightarrow> user_state \<Rightarrow> user_state" where
  "set_played i on s = trim (s\<lparr>played := (if on then insert i (played s) else played s - {i})\<rparr>)"

definition remember_dub :: "ustr \<Rightarrow> ustr \<Rightarrow> user_state \<Rightarrow> user_state" where
  "remember_dub k label s =
     (let d = dpop k (dub_memory s) @ [(k, label)]
      in s\<lparr>dub_memory := drop (length d - max_dub_memory) d\<rparr>)"

definition dub_for :: "user_state \<Rightarrow> ustr \<Rightarrow> ustr option" where
  "dub_for s k = dget (dub_memory s) k"

definition clear_user_state :: "user_state \<Rightarrow> user_state" where
  "clear_user_state s = s\<lparr>favorites := {}, played := {}, dub_memory := []\<rparr>"

text \<open>The operations, with the file: \<open>written\<close> is whether the atomic write of this call goes through.  \<^verbatim>\<open>clear\<close>
  alone does not write.\<close>

datatype user_op = Op_favorite ustr bool | Op_played ustr bool | Op_dub ustr ustr | Op_flush | Op_clear

fun apply_op :: "user_op \<Rightarrow> user_state \<Rightarrow> user_state" where
  "apply_op (Op_favorite i on) s = set_favorite i on s"
| "apply_op (Op_played i on) s = set_played i on s"
| "apply_op (Op_dub k label) s = remember_dub k label s"
| "apply_op Op_flush s = s"
| "apply_op Op_clear s = clear_user_state s"

definition user_step :: "user_op \<times> bool \<Rightarrow> user_state \<times> file_content \<Rightarrow> user_state \<times> file_content" where
  "user_step ow sf =
     (let s = apply_op (fst ow) (fst sf)
      in (s, if fst ow = Op_clear then snd sf else save_store [1] encode_user_state (snd ow) s (snd sf)))"

definition user_run :: "(user_op \<times> bool) list \<Rightarrow> user_state \<times> file_content \<Rightarrow> user_state \<times> file_content" where
  "user_run ops sf = fold user_step ops sf"

section \<open>The invariant, and the file\<close>

definition user_ok :: "user_state \<Rightarrow> bool" where
  "user_ok s \<longleftrightarrow>
     finite (favorites s) \<and> finite (played s) \<and> card (favorites s) \<le> max_marks \<and> card (played s) \<le> max_marks \<and>
     dwf (dub_memory s) \<and> length (dub_memory s) \<le> max_dub_memory"

lemma trim_marks_ok:
  assumes "finite m"
  shows "finite (trim_marks m) \<and> card (trim_marks m) \<le> max_marks \<and> trim_marks m \<subseteq> m"
proof -
  have "card (set (drop (card m - max_marks) (sorted_list_of_set m))) \<le> card m - (card m - max_marks)"
    using card_length [of "drop (card m - max_marks) (sorted_list_of_set m)"] by simp
  moreover have "set (drop n (sorted_list_of_set m)) \<subseteq> m" for n
    using assms set_drop_subset [of n "sorted_list_of_set m"] by simp
  ultimately show ?thesis using assms by (auto simp: trim_marks_def)
qed

lemma apply_op_ok:
  assumes "user_ok s"
  shows "user_ok (apply_op op s)"
proof (cases op)
  case (Op_dub k label)
  have "dwf (dpop k (dub_memory s) @ [(k, label)])"
    using assms by (auto simp: user_ok_def dwf_def dkeys_dpop)
  from dwf_drop [OF this] have "dwf (dub_memory (remember_dub k label s)) \<and> length (dub_memory (remember_dub k label s)) \<le> max_dub_memory"
    by (simp add: remember_dub_def Let_def max_dub_memory_def del: drop_append)
  then show ?thesis using assms by (simp add: Op_dub user_ok_def) (simp add: remember_dub_def Let_def)
qed (use assms trim_marks_ok in \<open>simp_all add: user_ok_def set_favorite_def set_played_def trim_def clear_user_state_def\<close>)

lemma map_filter_JStr: "List.map_filter as_str (map JStr xs) = xs"
  by (induction xs) (simp_all add: List.map_filter_simps)

lemma map_filter_pairs:
  "List.map_filter (\<lambda>(k, v). map_option (Pair k) (as_str v)) (map (\<lambda>(k, v). (k, JStr v)) d) = d"
  by (induction d) (auto simp: List.map_filter_simps)

lemma decode_encode_user: "user_ok s \<Longrightarrow> \<exists>j. encode_user_state s = Some j \<and> decode_user_state j = Some s"
  by (simp add: encode_user_state_def decode_user_state_def clean_list_def map_filter_JStr map_filter_pairs user_ok_def)

interpretation user_file: store_adapter "[1]" encode_user_state decode_user_state id user_ok
  by unfold_locales (use decode_encode_user in simp_all)

text \<open>Every toggle is durable: in every state the store can reach, whatever writes failed before, at most 256
  marks of each kind and fifty dubs are kept, and once an operation other than \<^verbatim>\<open>clear\<close> has written, a restart
  loads exactly the state in memory.\<close>

theorem toggles_are_durable:
  assumes "op \<noteq> Op_clear"
  shows "case user_run (ops @ [(op, True)]) (empty_user_state, Absent) of
      (s, f) \<Rightarrow> user_ok s \<and> load_store [1] decode_user_state f = Inr (Some s)"
proof -
  have "user_ok (fst sf) \<Longrightarrow> user_ok (fst (user_run ops sf))" for sf
  proof (induction ops arbitrary: sf)
    case (Cons x xs)
    have "user_ok (fst (user_step x sf))" using apply_op_ok [OF Cons.prems] by (simp add: user_step_def Let_def)
    from Cons.IH [OF this] show ?case by (simp add: user_run_def)
  qed (simp add: user_run_def)
  then have "user_ok (fst (user_run ops (empty_user_state, Absent)))"
    by (simp add: user_ok_def empty_user_state_def)
  from apply_op_ok [OF this] have ok: "user_ok (apply_op op (fst (user_run ops (empty_user_state, Absent))))" .
  show ?thesis using ok user_file.load_save [OF ok] assms by (simp add: user_run_def user_step_def Let_def)
qed

theorem toggles_are_durable_witness:
  "load_store [1] decode_user_state
     (snd (user_run ([(Op_dub (u ''g'') (u ''x''), False)] @ [(Op_favorite (u ''a'') True, True)]) (empty_user_state, Absent))) =
   Inr (Some (fst (user_run ([(Op_dub (u ''g'') (u ''x''), False)] @ [(Op_favorite (u ''a'') True, True)]) (empty_user_state, Absent))))"
  using toggles_are_durable [of "Op_favorite (u ''a'') True" "[(Op_dub (u ''g'') (u ''x''), False)]"]
  by (simp add: case_prod_beta)

section \<open>Dub memory\<close>

text \<open>The unbounded memory: every series once, in the order of its last pick, with the label of that pick.\<close>

definition recency :: "(ustr \<times> ustr) list \<Rightarrow> (ustr, ustr) pdict" where
  "recency ps = fold (\<lambda>kv d. dpop (fst kv) d @ [kv]) ps []"

definition pick_all :: "(ustr \<times> ustr) list \<Rightarrow> user_state \<Rightarrow> user_state" where
  "pick_all ps s = fold (\<lambda>kv. remember_dub (fst kv) (snd kv)) ps s"

lemma recency_snoc: "recency (ps @ [kv]) = dpop (fst kv) (recency ps) @ [kv]"
  by (simp add: recency_def)

lemma dwf_recency: "dwf (recency ps)"
proof (induction ps rule: rev_induct)
  case (snoc kv ps)
  have "fst kv \<notin> fst ` set (dpop (fst kv) (recency ps))" by simp
  then show ?case using dwf_dpop [OF snoc, of "fst kv"] by (simp add: recency_snoc dwf_def)
qed (simp add: recency_def)

lemma dget_recency: "dget (recency ps) k = dget (rev ps) k"
proof (induction ps rule: rev_induct)
  case (snoc kv ps)
  have "k \<noteq> fst kv \<Longrightarrow> dget (dpop (fst kv) (recency ps) @ [kv]) k = dget (recency ps) k"
    by (cases kv) (simp add: map_add_def dget_dpop split: option.splits)
  moreover have "dget (dpop (fst kv) (recency ps) @ [kv]) (fst kv) = Some (snd kv)"
    by (cases kv) (simp add: map_add_def dget_dpop)
  ultimately show ?case using snoc by (cases kv) (auto simp: recency_snoc)
qed (simp add: recency_def)

lemma drop_to_last:
  assumes "m \<le> length ys"
  shows "drop (length (xs @ ys) - m) (xs @ ys) = drop (length ys - m) ys"
  using assms by simp

lemma bounded_step:
  assumes "dwf d"
  shows "(let e = dpop k (drop (length d - m) d) @ [(k, v)] in drop (length e - m) e) =
         (let e = dpop k d @ [(k, v)] in drop (length e - m) e)"
proof -
  let ?a = "take (length d - m) d" and ?b = "drop (length d - m) d"
  have split: "dpop k d = dpop k ?a @ dpop k ?b"
    unfolding dpop_def by (metis append_take_drop_id filter_append)
  show ?thesis
  proof (cases "length d \<le> m")
    case True
    then show ?thesis by (simp add: Let_def)
  next
    case False
    have "dwf ?b" using assms by (simp add: dwf_def drop_map [symmetric])
    then have "length ?b \<le> Suc (length (dpop k ?b))"
      using length_dpop [of ?b k] dpop_absent [of k ?b] by (cases "k \<in> set (dkeys ?b)") simp_all
    then have "m \<le> length (dpop k ?b @ [(k, v)])" using False by simp
    from drop_to_last [OF this, of "dpop k ?a"] show ?thesis by (simp add: Let_def split)
  qed
qed

text \<open>The dub memory is the most recent fifty of all picks: after any picks it holds, of the series in the
  order of their last pick, the last fifty with the labels of those picks.\<close>

theorem dub_memory_is_recency:
  "dub_memory (pick_all ps empty_user_state) = drop (length (recency ps) - max_dub_memory) (recency ps)"
proof (induction ps rule: rev_induct)
  case Nil
  then show ?case by (simp add: pick_all_def recency_def empty_user_state_def)
next
  case (snoc kv ps)
  from bounded_step [OF dwf_recency, of "fst kv" ps max_dub_memory "snd kv"] snoc show ?case
    by (simp add: pick_all_def remember_dub_def recency_snoc Let_def)
qed

text \<open>At the cap a mark can be lost as it is set: with 256 favourites, all of them later in the order of ids than
  the new one, the item just marked is the one that is dropped.\<close>

theorem mark_lost_at_cap:
  assumes "finite (favorites s)" and "card (favorites s) = max_marks" and "\<And>j. j \<in> favorites s \<Longrightarrow> i < j"
  shows "favorites (set_favorite i True s) = favorites s"
proof -
  have "i \<notin> favorites s" using assms(3) by blast
  moreover have "sorted_list_of_set (insert i (favorites s)) = i # sorted_list_of_set (favorites s)"
    using assms(1,3) \<open>i \<notin> favorites s\<close> by (simp add: insort_is_Cons less_imp_le)
  ultimately show ?thesis
    using assms(1,2) by (simp add: set_favorite_def trim_def trim_marks_def)
qed

text \<open>Two hundred and fifty-six favourites, all of them after the new one.\<close>

definition many_marks :: "ustr set" where
  "many_marks = dec_nat ` {0..<256}"

theorem mark_lost_at_cap_witness:
  "favorites (set_favorite [] True \<lparr>favorites = many_marks, played = {}, dub_memory = []\<rparr>) = many_marks"
proof -
  have "inj_on dec_nat {0..<256}" by (rule inj_onI) (metis nat_of_dec_dec_nat)
  then have c: "card many_marks = max_marks" by (simp add: many_marks_def card_image max_marks_def)
  have "[] < j" if "j \<in> many_marks" for j :: ustr
    using that by (cases j) (auto simp: many_marks_def dest: sym)
  then show ?thesis
    using mark_lost_at_cap [of "\<lparr>favorites = many_marks, played = {}, dub_memory = []\<rparr>" "[]"] c
    by (simp add: many_marks_def)
qed

end
