(* ===== verification/Http_Cache.thy ===== *)
theory Http_Cache
  imports Row_Kinds Complex_Main
begin

text \<open>
  The crawler's conditional GET, \<^verbatim>\<open>backend/cs_uk_api/http_cache.py\<close>: the table of validators and bodies and
  the transport that asks with them and answers a 304 from the table.  The origin server is an argument.
  Header names are compared in lower case, as \<^verbatim>\<open>httpx.Headers\<close> does; times are the clock's readings.
\<close>

section \<open>The table\<close>

definition max_body_bytes :: nat where "max_body_bytes = 4 * 1024 * 1024"
definition prune_after_s :: rat where "prune_after_s = 14 * 24 * 3600"

type_synonym headers = "(ustr \<times> ustr) list"

record cached_page =
  etag :: "ustr option"
  last_modified :: "ustr option"
  page_headers :: headers
  page_body :: "nat list"

text \<open>
  A row of \<^verbatim>\<open>pages\<close>.  Rows stand in the order of their \<^verbatim>\<open>rowid\<close>: an insertion goes to the end, an upsert of
  a known url keeps its place.  \<open>row_headers\<close> is \<open>None\<close> when the stored JSON no longer reads as a list of pairs.
\<close>

record page_row =
  row_url :: ustr
  row_etag :: "ustr option"
  row_modified :: "ustr option"
  row_headers :: "headers option"
  row_body :: "nat list"
  row_fetched :: rat

record cond_cache =
  rows :: "page_row list"
  max_bytes :: nat
  stored :: nat
  revalidated :: nat
  bytes_saved :: nat

definition row_of :: "ustr \<Rightarrow> cond_cache \<Rightarrow> page_row option" where
  "row_of link c = find (\<lambda>r. row_url r = link) (rows c)"

definition delete_row :: "ustr \<Rightarrow> cond_cache \<Rightarrow> cond_cache" where
  "delete_row link c = c\<lparr>rows := filter (\<lambda>r. row_url r \<noteq> link) (rows c)\<rparr>"

definition cond_get :: "ustr \<Rightarrow> cond_cache \<Rightarrow> cached_page option \<times> cond_cache" where
  "cond_get link c =
     (case row_of link c of
        None \<Rightarrow> (None, c)
      | Some r \<Rightarrow>
          (case row_headers r of
             None \<Rightarrow> (None, delete_row link c)
           | Some hs \<Rightarrow>
               (Some \<lparr>etag = row_etag r, last_modified = row_modified r, page_headers = hs, page_body = row_body r\<rparr>, c)))"

definition total_bytes :: "page_row list \<Rightarrow> nat" where
  "total_bytes rs = sum_list (map (\<lambda>r. length (row_body r)) rs)"

text \<open>\<^verbatim>\<open>ORDER BY fetched_at ASC, rowid ASC LIMIT 1\<close>, of a table with at least one row.\<close>

fun first_fetched :: "page_row \<Rightarrow> page_row list \<Rightarrow> page_row" where
  "first_fetched r [] = r"
| "first_fetched r (s # rs) = first_fetched (if row_fetched s < row_fetched r then s else r) rs"

lemma first_fetched_in: "first_fetched r rs \<in> set (r # rs)"
proof (induction rs arbitrary: r)
  case (Cons s rs)
  from Cons.IH [of "if row_fetched s < row_fetched r then s else r"] show ?case by (auto split: if_splits)
qed simp

text \<open>\<^verbatim>\<open>_enforce_size_cap\<close>: \<open>tot\<close> is the total the loop counts down.\<close>

function evict :: "nat \<Rightarrow> int \<Rightarrow> page_row list \<Rightarrow> page_row list" where
  "evict cap tot rs =
     (if tot \<le> int cap then rs
      else case rs of
        [] \<Rightarrow> []
      | r # rest \<Rightarrow>
          (let victim = first_fetched r rest
           in evict cap (tot - int (length (row_body victim))) (filter (\<lambda>s. row_url s \<noteq> row_url victim) rs)))"
  by pat_completeness auto

lemma filter_shorter: "x \<in> set xs \<Longrightarrow> \<not> P x \<Longrightarrow> length (filter P xs) < length xs"
  by (induction xs) (auto simp: le_imp_less_Suc)

termination evict
proof (relation "measure (\<lambda>(cap, tot, rs). length rs)")
  fix cap tot rs r rest victim
  assume "rs = r # rest" and "victim = first_fetched r rest"
  then have "victim \<in> set rs" using first_fetched_in [of r rest] by simp
  then show "((cap, tot - int (length (row_body victim)), filter (\<lambda>s. row_url s \<noteq> row_url victim) rs), cap, tot, rs)
      \<in> measure (\<lambda>(cap, tot, rs). length rs)" for tot :: int
    by (simp add: filter_shorter)
qed simp

declare evict.simps [simp del]

definition upsert :: "page_row \<Rightarrow> page_row list \<Rightarrow> page_row list" where
  "upsert r rs =
     (if \<exists>s \<in> set rs. row_url s = row_url r then map (\<lambda>s. if row_url s = row_url r then r else s) rs else rs @ [r])"

definition cond_put :: "rat \<Rightarrow> ustr \<Rightarrow> cached_page \<Rightarrow> cond_cache \<Rightarrow> cond_cache" where
  "cond_put now link p c =
     (let rs = upsert \<lparr>row_url = link, row_etag = etag p, row_modified = last_modified p, row_headers = Some (page_headers p),
                       row_body = page_body p, row_fetched = now\<rparr> (rows c)
      in c\<lparr>rows := evict (max_bytes c) (int (total_bytes rs)) rs, stored := stored c + 1\<rparr>)"

definition cond_touch :: "rat \<Rightarrow> ustr \<Rightarrow> ustr option \<Rightarrow> ustr option \<Rightarrow> cond_cache \<Rightarrow> cached_page option \<times> cond_cache" where
  "cond_touch now link e m c =
     (let c1 = c\<lparr>rows := map (\<lambda>r. if row_url r = link then r\<lparr>row_etag := e, row_modified := m, row_fetched := now\<rparr> else r) (rows c)\<rparr>
      in case cond_get link c1 of
           (None, c2) \<Rightarrow> (None, c2)
         | (Some p, c2) \<Rightarrow>
             (Some p, c2\<lparr>revalidated := revalidated c2 + 1, bytes_saved := bytes_saved c2 + length (page_body p)\<rparr>))"

definition prune :: "rat \<Rightarrow> cond_cache \<Rightarrow> cond_cache" where
  "prune now c = c\<lparr>rows := filter (\<lambda>r. \<not> row_fetched r < now - prune_after_s) (rows c)\<rparr>"

text \<open>\<^verbatim>\<open>ConditionalCache.__init__\<close> on the rows the database holds.\<close>

definition open_cache :: "rat \<Rightarrow> nat \<Rightarrow> page_row list \<Rightarrow> cond_cache" where
  "open_cache now cap rs = prune now \<lparr>rows = rs, max_bytes = cap, stored = 0, revalidated = 0, bytes_saved = 0\<rparr>"

section \<open>Dates\<close>

definition http_days :: "ustr list" where
  "http_days = map u [''Mon'', ''Tue'', ''Wed'', ''Thu'', ''Fri'', ''Sat'', ''Sun'']"

definition http_months :: "ustr list" where
  "http_months = map u [''Jan'', ''Feb'', ''Mar'', ''Apr'', ''May'', ''Jun'', ''Jul'', ''Aug'', ''Sep'', ''Oct'', ''Nov'', ''Dec'']"

definition slice :: "nat \<Rightarrow> nat \<Rightarrow> ustr \<Rightarrow> ustr" where
  "slice a n s = take n (drop a s)"

text \<open>\<^verbatim>\<open>_IMF_FIXDATE\<close>; its final \<^verbatim>\<open>$\<close> matches before a last newline too.\<close>

definition imf_fixdate :: "ucd \<Rightarrow> ustr \<Rightarrow> bool" where
  "imf_fixdate U s0 \<longleftrightarrow>
     (let s = (if length s0 = 30 \<and> drop 29 s0 = [10] then take 29 s0 else s0) in
      length s = 29 \<and> slice 0 3 s \<in> set http_days \<and> slice 3 2 s = u '', '' \<and> list_all (decimal U) (slice 5 2 s) \<and>
      slice 7 1 s = u '' '' \<and> slice 8 3 s \<in> set http_months \<and> slice 11 1 s = u '' '' \<and> list_all (decimal U) (slice 12 4 s) \<and>
      slice 16 1 s = u '' '' \<and> list_all (decimal U) (slice 17 2 s) \<and> slice 19 1 s = u '':'' \<and>
      list_all (decimal U) (slice 20 2 s) \<and> slice 22 1 s = u '':'' \<and> list_all (decimal U) (slice 23 2 s) \<and>
      slice 25 4 s = u '' GMT'')"

text \<open>
  \<^verbatim>\<open>parsedate_to_datetime\<close> of such a date raises exactly when \<^verbatim>\<open>datetime\<close> refuses its fields.  Years below one
  hundred are taken into the twentieth or twenty-first century first; a four-digit year is one only with two leading zeros.
\<close>

definition leap :: "nat \<Rightarrow> bool" where
  "leap y \<longleftrightarrow> y mod 4 = 0 \<and> (y mod 100 \<noteq> 0 \<or> y mod 400 = 0)"

definition month_length :: "nat \<Rightarrow> nat \<Rightarrow> nat" where
  "month_length y m = (if m = 2 then (if leap y then 29 else 28) else if m \<in> {4, 6, 9, 11} then 30 else 31)"

definition full_year :: "nat \<Rightarrow> nat" where
  "full_year y = (if y < 100 then (if 68 < y then y + 1900 else y + 2000) else y)"

fun index_of :: "'a \<Rightarrow> 'a list \<Rightarrow> nat" where
  "index_of x [] = 0"
| "index_of x (y # ys) = (if x = y then 0 else Suc (index_of x ys))"

definition date_in_range :: "ucd \<Rightarrow> ustr \<Rightarrow> bool" where
  "date_in_range U s \<longleftrightarrow>
     (let num = (\<lambda>a n. int_of_decimals U (slice a n s)); y = full_year (num 12 4); m = Suc (index_of (slice 8 3 s) http_months)
      in 1 \<le> num 5 2 \<and> num 5 2 \<le> month_length y m \<and> num 17 2 < 24 \<and> num 20 2 < 60 \<and> num 23 2 < 60)"

definition valid_http_date :: "ucd \<Rightarrow> ustr option \<Rightarrow> ustr option" where
  "valid_http_date U v =
     (case v of
        None \<Rightarrow> None
      | Some s \<Rightarrow> if imf_fixdate U s \<and> date_in_range U s then Some s else None)"

section \<open>The transport\<close>

record http_request =
  rq_get :: bool
  rq_link :: ustr
  if_none_match :: "ustr option"
  if_modified_since :: "ustr option"

record http_response =
  rs_status :: nat
  rs_headers :: headers
  rs_body :: "nat list"

definition header :: "ustr \<Rightarrow> http_response \<Rightarrow> ustr option" where
  "header name r =
     (case filter (\<lambda>kv. fst kv = name) (rs_headers r) of [] \<Rightarrow> None | hs \<Rightarrow> Some (join (u '', '') (map snd hs)))"

definition present :: "ustr option \<Rightarrow> bool" where
  "present v = (case v of None \<Rightarrow> False | Some s \<Rightarrow> s \<noteq> [])"

definition drop_headers :: "ustr list" where
  "drop_headers = map u [''content-encoding'', ''content-length'', ''transfer-encoding'', ''connection'']"

definition stored_headers :: "http_response \<Rightarrow> headers" where
  "stored_headers r = filter (\<lambda>kv. fst kv \<notin> set drop_headers) (rs_headers r)"

definition cacheable_content_type :: "ucd \<Rightarrow> ustr option \<Rightarrow> bool" where
  "cacheable_content_type U v =
     (if \<not> present v then True
      else (let l = lower U (the v) in starts_with (u ''text/'') l \<or> contains (u ''json'') l \<or> contains (u ''xml'') l))"

text \<open>The replayed page; \<^verbatim>\<open>httpx\<close> adds the length of the body to its headers.\<close>

definition replay :: "cached_page \<Rightarrow> http_response" where
  "replay p = \<lparr>rs_status = 200, rs_headers = page_headers p, rs_body = page_body p\<rparr>"

definition store_response :: "ucd \<Rightarrow> rat \<Rightarrow> ustr \<Rightarrow> http_response \<Rightarrow> cond_cache \<Rightarrow> cond_cache" where
  "store_response U now link r c =
     (let e = header (u ''etag'') r; m = valid_http_date U (header (u ''last-modified'') r) in
      if \<not> (present e \<or> present m) then c
      else if \<not> cacheable_content_type U (header (u ''content-type'') r) then c
      else if max_body_bytes < length (rs_body r) then c
      else cond_put now link \<lparr>etag = e, last_modified = m, page_headers = stored_headers r, page_body = rs_body r\<rparr> c)"

definition or_else :: "ustr option \<Rightarrow> ustr option \<Rightarrow> ustr option" where
  "or_else a b = (if present a then a else b)"

text \<open>\<^verbatim>\<open>handle_async_request\<close>: \<open>origin\<close> answers the request that is sent on.\<close>

definition handle ::
  "ucd \<Rightarrow> rat \<Rightarrow> (http_request \<Rightarrow> http_response) \<Rightarrow> http_request \<Rightarrow> cond_cache \<Rightarrow> http_response \<times> cond_cache" where
  "handle U now origin rq c =
     (let caller_conditional = (present (if_none_match rq) \<or> present (if_modified_since rq));
          (cached, c1) = (if rq_get rq \<and> \<not> caller_conditional then cond_get (rq_link rq) c else (None, c));
          sent = (case cached of
                    None \<Rightarrow> rq
                  | Some p \<Rightarrow> rq\<lparr>if_none_match := (if present (etag p) then etag p else if_none_match rq),
                                if_modified_since := (if present (last_modified p) then last_modified p else if_modified_since rq)\<rparr>);
          r = origin sent
      in case cached of
           Some p \<Rightarrow>
             if rs_status r = 304 then
               (let (q, c2) = cond_touch now (rq_link rq) (or_else (header (u ''etag'') r) (etag p))
                      (or_else (valid_http_date U (header (u ''last-modified'') r)) (last_modified p)) c1
                in (replay (case q of None \<Rightarrow> p | Some p' \<Rightarrow> p'), c2))
             else (r, if rq_get rq \<and> rs_status r = 200 then store_response U now (rq_link rq) r c1 else c1)
         | None \<Rightarrow> (r, if rq_get rq \<and> rs_status r = 200 then store_response U now (rq_link rq) r c1 else c1))"

section \<open>The size cap\<close>

lemma total_bytes_remove:
  assumes "distinct (map row_url rs)" and "v \<in> set rs"
  shows "total_bytes (filter (\<lambda>s. row_url s \<noteq> row_url v) rs) + length (row_body v) = total_bytes rs"
  using assms
proof (induction rs)
  case (Cons r rs)
  show ?case
  proof (cases "v = r")
    case True
    have "filter (\<lambda>s. row_url s \<noteq> row_url r) rs = rs"
      using Cons.prems(1) by (auto simp: filter_id_conv) (metis image_eqI)
    then show ?thesis by (simp add: True total_bytes_def)
  next
    case False
    then have "v \<in> set rs" "row_url r \<noteq> row_url v" using Cons.prems by auto
    then show ?thesis using Cons by (simp add: total_bytes_def)
  qed
qed simp

lemma evict_fits:
  "distinct (map row_url rs) \<Longrightarrow> tot = int (total_bytes rs) \<Longrightarrow>
     total_bytes (evict cap tot rs) \<le> cap \<and> set (evict cap tot rs) \<subseteq> set rs \<and> distinct (map row_url (evict cap tot rs))"
proof (induction cap tot rs rule: evict.induct)
  case (1 cap tot rs)
  show ?case
  proof (cases "tot \<le> int cap")
    case True
    then have "evict cap tot rs = rs" by (simp add: evict.simps [of cap tot rs])
    with 1(2,3) True show ?thesis by simp
  next
    case False
    then obtain r rest where rs: "rs = r # rest" using 1(3) by (cases rs) (auto simp: total_bytes_def)
    let ?v = "first_fetched r rest"
    let ?rs = "filter (\<lambda>s. row_url s \<noteq> row_url ?v) rs"
    have v: "?v \<in> set rs" using first_fetched_in [of r rest] by (simp add: rs)
    have step: "evict cap tot rs = evict cap (tot - int (length (row_body ?v))) ?rs"
      using False rs by (subst evict.simps) (simp add: Let_def)
    have "tot - int (length (row_body ?v)) = int (total_bytes ?rs)"
      using total_bytes_remove [OF 1(2) v] 1(3) by linarith
    moreover have "distinct (map row_url ?rs)" using 1(2) by (simp add: distinct_map_filter)
    ultimately have "total_bytes (evict cap (tot - int (length (row_body ?v))) ?rs) \<le> cap \<and>
        set (evict cap (tot - int (length (row_body ?v))) ?rs) \<subseteq> set ?rs \<and>
        distinct (map row_url (evict cap (tot - int (length (row_body ?v))) ?rs))"
      using 1(1) [OF False rs refl] by blast
    then show ?thesis unfolding step by auto
  qed
qed

lemma upsert_urls:
  "distinct (map row_url rs) \<Longrightarrow> distinct (map row_url (upsert r rs))"
proof -
  assume d: "distinct (map row_url rs)"
  have "map row_url (map (\<lambda>s. if row_url s = row_url r then r else s) rs) = map row_url rs" by simp
  with d show ?thesis by (auto simp: upsert_def simp del: map_map)
qed

text \<open>Storing a page never leaves more than the budget in the table, whatever was in it: the loop that evicts
  ends, drops rows only, and keeps one row per url.\<close>

theorem cache_within_budget:
  assumes "distinct (map row_url (rows c))"
  shows "total_bytes (rows (cond_put now link p c)) \<le> max_bytes c \<and> distinct (map row_url (rows (cond_put now link p c)))"
  using evict_fits [OF upsert_urls [OF assms] refl] by (simp add: cond_put_def Let_def)

theorem cache_within_budget_witness:
  "total_bytes (rows (cond_put 5 (u ''b'') \<lparr>etag = None, last_modified = None, page_headers = [], page_body = [1, 2, 3]\<rparr>
     \<lparr>rows = [\<lparr>row_url = u ''a'', row_etag = None, row_modified = None, row_headers = Some [], row_body = [1, 2], row_fetched = 1\<rparr>],
      max_bytes = 4, stored = 0, revalidated = 0, bytes_saved = 0\<rparr>)) \<le> 4"
  using cache_within_budget [of "\<lparr>rows = [\<lparr>row_url = u ''a'', row_etag = None, row_modified = None, row_headers = Some [],
      row_body = [1, 2], row_fetched = 1\<rparr>], max_bytes = 4, stored = 0, revalidated = 0, bytes_saved = 0\<rparr>"]
  by simp

section \<open>Transparency\<close>

text \<open>
  An origin that keeps the promise of the protocol.  A page has a current entity tag; the tag determines
  the representation, which carries it.  A request whose \<^verbatim>\<open>If-None-Match\<close> is the current tag gets a 304 with
  the tag, any other the representation.
\<close>

definition not_modified :: "ustr \<Rightarrow> http_response" where
  "not_modified tag = \<lparr>rs_status = 304, rs_headers = [(u ''etag'', tag)], rs_body = []\<rparr>"

definition origin_at :: "(ustr \<Rightarrow> ustr \<Rightarrow> http_response) \<Rightarrow> (ustr \<Rightarrow> ustr) \<Rightarrow> http_request \<Rightarrow> http_response" where
  "origin_at page tag rq =
     (let t = tag (rq_link rq) in if if_none_match rq = Some t then not_modified t else page (rq_link rq) t)"

definition tagged :: "(ustr \<Rightarrow> ustr \<Rightarrow> http_response) \<Rightarrow> bool" where
  "tagged page \<longleftrightarrow> (\<forall>l t. rs_status (page l t) = 200 \<and> (t \<noteq> [] \<longrightarrow> header (u ''etag'') (page l t) = Some t))"

definition plain_get :: "ustr \<Rightarrow> http_request" where
  "plain_get link = \<lparr>rq_get = True, rq_link = link, if_none_match = None, if_modified_since = None\<rparr>"

text \<open>A night's requests: each at a time, for a link, with the tags the origin has then.\<close>

fun night :: "ucd \<Rightarrow> (ustr \<Rightarrow> ustr \<Rightarrow> http_response) \<Rightarrow> (rat \<times> ustr \<times> (ustr \<Rightarrow> ustr)) list \<Rightarrow> cond_cache \<Rightarrow>
   http_response list \<times> cond_cache" where
  "night U page [] c = ([], c)"
| "night U page ((now, link, tag) # es) c =
     (let (r, c1) = handle U now (origin_at page tag) (plain_get link) c; (rs, c2) = night U page es c1 in (r # rs, c2))"

text \<open>Every row that can answer holds the representation its tag stands for.\<close>

definition row_good :: "(ustr \<Rightarrow> ustr \<Rightarrow> http_response) \<Rightarrow> page_row \<Rightarrow> bool" where
  "row_good page r \<longleftrightarrow>
     (\<exists>t. row_etag r = Some t \<and> t \<noteq> [] \<and> row_body r = rs_body (page (row_url r) t) \<and>
          (row_headers r = None \<or> row_headers r = Some (stored_headers (page (row_url r) t))))"

definition cache_good :: "(ustr \<Rightarrow> ustr \<Rightarrow> http_response) \<Rightarrow> cond_cache \<Rightarrow> bool" where
  "cache_good page c \<longleftrightarrow> distinct (map row_url (rows c)) \<and> (\<forall>r. r \<in> set (rows c) \<longrightarrow> row_good page r)"

lemma cond_get_good:
  assumes "cache_good page c" and "cond_get link c = (q, c1)"
  shows "cache_good page c1 \<and>
    (\<forall>p. q = Some p \<longrightarrow> c1 = c \<and> (\<exists>t. etag p = Some t \<and> t \<noteq> [] \<and> page_body p = rs_body (page link t) \<and>
       page_headers p = stored_headers (page link t)) \<and> row_of link c \<noteq> None)"
proof (cases "row_of link c")
  case None
  then show ?thesis using assms by (simp add: cond_get_def)
next
  case (Some r)
  then have r: "r \<in> set (rows c)" "row_url r = link" by (auto simp: row_of_def find_Some_iff)
  then have g: "row_good page r" using assms(1) by (simp add: cache_good_def)
  have "cache_good page (delete_row link c)"
    using assms(1) by (auto simp: cache_good_def delete_row_def distinct_map_filter)
  then show ?thesis using assms Some g r(2)
    by (auto simp: cond_get_def row_good_def split: option.splits)
qed

lemma touch_good:
  assumes "cache_good page c" and "t \<noteq> []" and "row_of link c = Some r" and "row_etag r = Some t"
    and "cond_touch now link (Some t) m c = (q, c1)"
  shows "cache_good page c1 \<and> (\<forall>p. q = Some p \<longrightarrow> page_body p = row_body r \<and> Some (page_headers p) = row_headers r)"
proof -
  let ?f = "\<lambda>s. if row_url s = link then s\<lparr>row_etag := Some t, row_modified := m, row_fetched := now\<rparr> else s"
  let ?c = "c\<lparr>rows := map ?f (rows c)\<rparr>"
  have r: "r \<in> set (rows c)" "row_url r = link" using assms(3) by (auto simp: row_of_def find_Some_iff)
  have d: "distinct (map row_url (rows c))" using assms(1) by (simp add: cache_good_def)
  have "row_good page (?f s)" if "s \<in> set (rows c)" for s
  proof (cases "row_url s = link")
    case True
    then have "s = r" using d r that by (metis (no_types, lifting) distinct_map inj_onD)
    then show ?thesis using assms(1,4) r that by (auto simp: cache_good_def row_good_def)
  qed (use assms(1) that in \<open>simp add: cache_good_def\<close>)
  moreover have "map row_url (map ?f (rows c)) = map row_url (rows c)" by simp
  ultimately have good: "cache_good page ?c" using d unfolding cache_good_def by (force simp del: map_map)
  have row: "row_of link ?c = Some (?f r)"
  proof -
    have fnd: "find (\<lambda>s. row_url s = link) (map ?f xs) = map_option ?f (find (\<lambda>s. row_url s = link) xs)" for xs
      by (induction xs) auto
    have "row_of link ?c = find (\<lambda>s. row_url s = link) (map ?f (rows c))" by (simp add: row_of_def)
    also have "\<dots> = map_option ?f (row_of link c)" unfolding row_of_def by (rule fnd)
    finally show ?thesis using assms(3) by simp
  qed
  obtain q0 c2 where g: "cond_get link ?c = (q0, c2)" by force
  from cond_get_good [OF good g] have "cache_good page c2" by blast
  moreover have "q0 = Some p \<Longrightarrow> page_body p = row_body r \<and> Some (page_headers p) = row_headers r" for p
    using g row r(2) by (auto simp: cond_get_def split: option.splits)
  ultimately show ?thesis
    using assms(5) g by (auto simp: cond_touch_def Let_def cache_good_def split: option.splits)
qed

lemma put_good:
  assumes "cache_good page c" and "t \<noteq> []"
  shows "cache_good page (cond_put now link \<lparr>etag = Some t, last_modified = m,
    page_headers = stored_headers (page link t), page_body = rs_body (page link t)\<rparr> c)"
proof -
  let ?r = "\<lparr>row_url = link, row_etag = Some t, row_modified = m, row_headers = Some (stored_headers (page link t)),
    row_body = rs_body (page link t), row_fetched = now\<rparr>"
  have "row_good page ?r" using assms(2) by (simp add: row_good_def)
  then have "\<forall>s. s \<in> set (upsert ?r (rows c)) \<longrightarrow> row_good page s"
    using assms(1) by (auto simp: upsert_def cache_good_def)
  moreover have "distinct (map row_url (upsert ?r (rows c)))"
    by (rule upsert_urls) (use assms(1) in \<open>simp add: cache_good_def\<close>)
  ultimately show ?thesis
    using evict_fits [of "upsert ?r (rows c)" _ "max_bytes c"] by (auto simp: cond_put_def Let_def cache_good_def)
qed

lemma store_good:
  assumes "cache_good page c" and "tagged page" and "t \<noteq> []"
  shows "cache_good page (store_response U now link (page link t) c)"
proof -
  have "header (u ''etag'') (page link t) = Some t" using assms(2,3) by (simp add: tagged_def)
  then show ?thesis using assms(1) put_good [OF assms(1,3)] by (simp add: store_response_def Let_def)
qed

lemma handle_transparent:
  assumes "cache_good page c" and "tagged page" and "tag link \<noteq> []"
    and "handle U now (origin_at page tag) (plain_get link) c = (r, c1)"
  shows "cache_good page c1 \<and> rs_status r = 200 \<and> rs_body r = rs_body (page link (tag link)) \<and>
    stored_headers r = stored_headers (page link (tag link))"
proof -
  let ?t = "tag link"
  obtain q c0 where g: "cond_get link c = (q, c0)" by force
  note good = cond_get_good [OF assms(1) g]
  have page200: "rs_status (page link ?t) = 200" using assms(2) by (simp add: tagged_def)
  have miss: "origin_at page tag rq = page link ?t \<Longrightarrow> rq_link rq = link \<Longrightarrow>
      cache_good page (store_response U now link (origin_at page tag rq) c0)" for rq
    using store_good [OF _ assms(2,3)] good by simp
  have e: "header (u ''etag'') (not_modified ?t) = Some ?t" by (simp add: header_def not_modified_def)
  show ?thesis
  proof (cases q)
    case None
    then show ?thesis using assms(4) g page200 miss [of "plain_get link"]
      by (auto simp: handle_def plain_get_def present_def origin_at_def Let_def)
  next
    case (Some p)
    with good obtain t where p: "c0 = c" "etag p = Some t" "t \<noteq> []" "page_body p = rs_body (page link t)"
      "page_headers p = stored_headers (page link t)" "row_of link c \<noteq> None" by blast
    show ?thesis
    proof (cases "t = ?t")
      case False
      then show ?thesis using assms(4) g Some p(1-3) page200 store_good [OF assms(1,2,3), of U now link]
        by (auto simp: handle_def plain_get_def present_def origin_at_def Let_def)
    next
      case True
      obtain r0 where r0: "row_of link c = Some r0" using p(6) by blast
      have r1: "row_etag r0 = Some t" "row_body r0 = page_body p" "row_headers r0 = Some (page_headers p)"
        using g r0 p(2) Some by (auto simp: cond_get_def split: option.splits)
      let ?m = "or_else (valid_http_date U (header (u ''last-modified'') (not_modified ?t))) (last_modified p)"
      obtain q1 c2 where t: "cond_touch now link (Some t) ?m c = (q1, c2)" by force
      note tg = touch_good [OF assms(1) p(3) r0 r1(1) t]
      have "(r, c1) = (replay (case q1 of None \<Rightarrow> p | Some p' \<Rightarrow> p'), c2)"
        using assms(4) g Some p(1,2,3) True t e
        by (simp add: handle_def plain_get_def present_def origin_at_def Let_def or_else_def not_modified_def)
      moreover have "rs_body (replay (case q1 of None \<Rightarrow> p | Some p' \<Rightarrow> p')) = page_body p \<and>
          rs_headers (replay (case q1 of None \<Rightarrow> p | Some p' \<Rightarrow> p')) = page_headers p"
        using tg r1 by (auto simp: replay_def split: option.splits)
      moreover have "rs_status (replay x) = 200" for x by (simp add: replay_def)
      ultimately show ?thesis using tg p(4,5) True by (simp add: stored_headers_def)
    qed
  qed
qed


definition sample_page :: "ustr \<Rightarrow> ustr \<Rightarrow> http_response" where
  "sample_page l t = \<lparr>rs_status = 200, rs_headers = [(u ''etag'', t)], rs_body = l @ t\<rparr>"


end
