(* ===== verification/Py_Url.thy ===== *)
theory Py_Url
  imports Wire_Identity Row_Kinds
begin

text \<open>
  \<^verbatim>\<open>urllib.parse\<close>, as the proxy uses it: \<^verbatim>\<open>urlsplit\<close>, \<^verbatim>\<open>urlparse\<close>, \<^verbatim>\<open>hostname\<close>, \<^verbatim>\<open>urljoin\<close> and \<^verbatim>\<open>quote\<close>
  with no safe characters.  A \<^verbatim>\<open>ValueError\<close> is \<open>Inl\<close>.  What the library checks of a bracketed address and of
  a network location that is not ASCII needs tables that are not in the repository: it is the argument \<open>V\<close>.
\<close>

record url_parts =
  scheme :: ustr
  netloc :: ustr
  path :: ustr
  params :: ustr
  query :: ustr
  fragment :: ustr

definition ascii_letter :: "nat \<Rightarrow> bool" where
  "ascii_letter c \<longleftrightarrow> 65 \<le> c \<and> c \<le> 90 \<or> 97 \<le> c \<and> c \<le> 122"

definition ascii_lower :: "ustr \<Rightarrow> ustr" where
  "ascii_lower s = map (\<lambda>c. if 65 \<le> c \<and> c \<le> 90 then c + 32 else c) s"

definition scheme_char :: "nat \<Rightarrow> bool" where
  "scheme_char c \<longleftrightarrow> ascii_letter c \<or> ascii_digit c \<or> c \<in> set (u ''+-.'')"

definition uses_relative :: "ustr list" where
  "uses_relative = map u ['''', ''ftp'', ''http'', ''gopher'', ''nntp'', ''imap'', ''wais'', ''file'', ''https'', ''shttp'', ''mms'',
     ''prospero'', ''rtsp'', ''rtsps'', ''rtspu'', ''sftp'', ''svn'', ''svn+ssh'', ''ws'', ''wss'']"

definition uses_netloc :: "ustr list" where
  "uses_netloc = map u ['''', ''ftp'', ''http'', ''gopher'', ''nntp'', ''telnet'', ''imap'', ''wais'', ''file'', ''mms'', ''https'',
     ''shttp'', ''snews'', ''prospero'', ''rtsp'', ''rtsps'', ''rtspu'', ''rsync'', ''svn'', ''svn+ssh'', ''sftp'', ''nfs'', ''git'',
     ''git+ssh'', ''ws'', ''wss'', ''itms-services'']"

definition uses_params :: "ustr list" where
  "uses_params = map u ['''', ''ftp'', ''hdl'', ''prospero'', ''http'', ''imap'', ''https'', ''shttp'', ''rtsp'', ''rtsps'', ''rtspu'',
     ''sip'', ''sips'', ''mms'', ''sftp'', ''tel'']"

text \<open>\<^verbatim>\<open>s.partition(c)\<close> with an empty tail when there is no \<open>c\<close>.\<close>

definition cut :: "nat \<Rightarrow> ustr \<Rightarrow> ustr \<times> ustr" where
  "cut c s = (case split_first c s of (a, None) \<Rightarrow> (a, []) | (a, Some b) \<Rightarrow> (a, b))"

definition split_scheme :: "ustr \<Rightarrow> ustr \<Rightarrow> ustr \<times> ustr" where
  "split_scheme dflt s =
     (case split_first 58 s of
        (c # a, Some b) \<Rightarrow> if ascii_letter c \<and> list_all scheme_char (c # a) then (ascii_lower (c # a), b) else (dflt, s)
      | _ \<Rightarrow> (dflt, s))"

definition urlsplit :: "(ustr \<Rightarrow> bool) \<Rightarrow> ustr \<Rightarrow> ustr \<Rightarrow> wire_error + url_parts" where
  "urlsplit V dflt s0 =
     (let s = filter (\<lambda>c. c \<notin> {9, 10, 13}) (dropWhile (\<lambda>c. c \<le> 32) s0);
          (sch, rest) = split_scheme dflt s;
          (net, rest1) = (if take 2 rest = u ''//'' then (takeWhile (\<lambda>c. c \<notin> set (u ''/?#'')) (drop 2 rest),
                            dropWhile (\<lambda>c. c \<notin> set (u ''/?#'')) (drop 2 rest)) else ([], rest));
          (rest2, frag) = cut 35 rest1; (pth, qry) = cut 63 rest2
      in if (91 \<in> set net) \<noteq> (93 \<in> set net) \<or> \<not> V net then Inl Value_error
         else Inr \<lparr>scheme = sch, netloc = net, path = pth, params = [], query = qry, fragment = frag\<rparr>)"

text \<open>\<^verbatim>\<open>_splitparams\<close>: at the first semicolon of the last path segment.\<close>

definition splitparams :: "ustr \<Rightarrow> ustr \<times> ustr" where
  "splitparams p =
     (case split_last 47 p of
        None \<Rightarrow> cut 59 p
      | Some (dir, seg) \<Rightarrow> (case cut 59 seg of (a, b) \<Rightarrow> (dir @ [47] @ a, b)))"

definition urlparse :: "(ustr \<Rightarrow> bool) \<Rightarrow> ustr \<Rightarrow> ustr \<Rightarrow> wire_error + url_parts" where
  "urlparse V dflt s =
     (case urlsplit V dflt s of
        Inl e \<Rightarrow> Inl e
      | Inr p \<Rightarrow>
          if scheme p \<in> set uses_params \<and> 59 \<in> set (path p)
          then Inr (p\<lparr>path := fst (splitparams (path p)), params := snd (splitparams (path p))\<rparr>)
          else Inr p)"

text \<open>The \<^verbatim>\<open>hostname\<close> of a parse result.\<close>

definition hostname :: "ucd \<Rightarrow> url_parts \<Rightarrow> ustr option" where
  "hostname U p =
     (let info = (case split_last 64 (netloc p) of None \<Rightarrow> netloc p | Some (_, i) \<Rightarrow> i);
          host = (case split_first 91 info of
                    (_, Some bracketed) \<Rightarrow> fst (cut 93 bracketed)
                  | (_, None) \<Rightarrow> fst (cut 58 info))
      in if host = [] then None
         else Some (case split_first 37 host of (a, None) \<Rightarrow> lower U a | (a, Some zone) \<Rightarrow> lower U a @ [37] @ zone))"

definition urlunparse :: "url_parts \<Rightarrow> ustr" where
  "urlunparse p =
     (let r0 = (if params p \<noteq> [] then path p @ [59] @ params p else path p);
          r1 = (if netloc p \<noteq> [] \<or> scheme p \<noteq> [] \<and> scheme p \<in> set uses_netloc \<and> take 2 r0 \<noteq> u ''//''
                then u ''//'' @ netloc p @ (if r0 \<noteq> [] \<and> take 1 r0 \<noteq> [47] then 47 # r0 else r0) else r0);
          r2 = (if scheme p \<noteq> [] then scheme p @ [58] @ r1 else r1);
          r3 = (if query p \<noteq> [] then r2 @ [63] @ query p else r2)
      in if fragment p \<noteq> [] then r3 @ [35] @ fragment p else r3)"

text \<open>Dot segments: \<open>acc\<close> is what is resolved so far, reversed.\<close>

fun resolve_dots :: "ustr list \<Rightarrow> ustr list \<Rightarrow> ustr list" where
  "resolve_dots acc [] = rev acc"
| "resolve_dots acc (s # ss) =
     (if s = u ''..'' then resolve_dots (case acc of [] \<Rightarrow> [] | _ # r \<Rightarrow> r) ss
      else if s = u ''.'' then resolve_dots acc ss
      else resolve_dots (s # acc) ss)"

definition inner_nonempty :: "ustr list \<Rightarrow> ustr list" where
  "inner_nonempty ss =
     (case ss of
        [] \<Rightarrow> []
      | x # xs \<Rightarrow> if xs = [] then [x] else x # filter (\<lambda>s. s \<noteq> []) (butlast xs) @ [last xs])"

definition urljoin :: "(ustr \<Rightarrow> bool) \<Rightarrow> ustr \<Rightarrow> ustr \<Rightarrow> wire_error + ustr" where
  "urljoin V base link =
     (if base = [] then Inr link
      else if link = [] then Inr base
      else case urlparse V [] base of
        Inl e \<Rightarrow> Inl e
      | Inr b \<Rightarrow>
          (case urlparse V (scheme b) link of
             Inl e \<Rightarrow> Inl e
           | Inr p \<Rightarrow>
               if scheme p \<noteq> scheme b \<or> scheme p \<notin> set uses_relative then Inr link
               else if scheme p \<in> set uses_netloc \<and> netloc p \<noteq> [] then Inr (urlunparse p)
               else
                 (let p1 = (if scheme p \<in> set uses_netloc then p\<lparr>netloc := netloc b\<rparr> else p) in
                  if path p = [] \<and> params p = [] then
                    Inr (urlunparse (p1\<lparr>path := path b, params := params b, query := (if query p = [] then query b else query p)\<rparr>))
                  else
                    (let base_parts = split_on 47 (path b);
                         dirs = (if last base_parts \<noteq> [] then butlast base_parts else base_parts);
                         segs = (if take 1 (path p) = [47] then split_on 47 (path p)
                                 else inner_nonempty (dirs @ split_on 47 (path p)));
                         done = resolve_dots [] segs @ (if last segs \<in> {u ''.'', u ''..''} then [[]] else []);
                         joined = join [47] done
                     in Inr (urlunparse (p1\<lparr>path := (if joined = [] then [47] else joined)\<rparr>))))))"

section \<open>Percent-encoding\<close>

text \<open>UTF-8, of a string without surrogates.\<close>

definition utf8_char :: "nat \<Rightarrow> nat list" where
  "utf8_char c =
     (if c < 128 then [c]
      else if c < 2048 then [192 + c div 64, 128 + c mod 64]
      else if c < 65536 then [224 + c div 4096, 128 + c div 64 mod 64, 128 + c mod 64]
      else [240 + c div 262144, 128 + c div 4096 mod 64, 128 + c div 64 mod 64, 128 + c mod 64])"

definition utf8 :: "ustr \<Rightarrow> nat list" where
  "utf8 s = concat (map utf8_char s)"

definition hex_digit :: "nat \<Rightarrow> nat" where
  "hex_digit n = (if n < 10 then 48 + n else 55 + n)"

definition always_safe :: "nat \<Rightarrow> bool" where
  "always_safe c \<longleftrightarrow> ascii_letter c \<or> ascii_digit c \<or> c \<in> set (u ''_.-~'')"

definition quote_byte :: "nat \<Rightarrow> ustr" where
  "quote_byte b = (if always_safe b then [b] else [37, hex_digit (b div 16), hex_digit (b mod 16)])"

definition quote :: "ustr \<Rightarrow> ustr" where
  "quote s = concat (map quote_byte (utf8 s))"

text \<open>Reading it back: the bytes a percent-decoder gives.\<close>

definition unhex :: "nat \<Rightarrow> nat" where
  "unhex c = (if c < 58 then c - 48 else c - 55)"

fun percent_decode :: "ustr \<Rightarrow> nat list" where
  "percent_decode (c # a # b # s) =
     (if c = 37 then (16 * unhex a + unhex b) # percent_decode s else c # percent_decode (a # b # s))"
| "percent_decode s = s"

lemma safe_not_percent: "always_safe c \<Longrightarrow> c \<noteq> 37"
  by (auto simp: always_safe_def ascii_letter_def ascii_digit_def u_def)

lemma percent_decode_plain: "c \<noteq> 37 \<Longrightarrow> percent_decode (c # s) = c # percent_decode s"
  by (cases s; cases "tl s") auto

lemma unhex_hex: "n < 16 \<Longrightarrow> unhex (hex_digit n) = n"
  by (simp add: unhex_def hex_digit_def)

lemma decode_quote_byte: "b < 256 \<Longrightarrow> percent_decode (quote_byte b @ s) = b # percent_decode s"
  by (auto simp: quote_byte_def percent_decode_plain safe_not_percent unhex_hex)

lemma utf8_bytes: "\<forall>c \<in> set s. c < 1114112 \<Longrightarrow> \<forall>b \<in> set (utf8 s). b < 256"
  by (induction s) (auto simp: utf8_def utf8_char_def split: if_splits)

lemma quote_decodes:
  assumes "\<forall>c \<in> set s. c < 1114112"
  shows "percent_decode (quote s) = utf8 s"
proof -
  have "\<forall>b \<in> set bs. b < 256 \<Longrightarrow> percent_decode (concat (map quote_byte bs)) = bs" for bs
    by (induction bs) (simp_all add: decode_quote_byte)
  then show ?thesis using utf8_bytes [OF assms] by (simp add: quote_def)
qed

lemma hex_digit_safe: "n < 16 \<Longrightarrow> always_safe (hex_digit n)"
  by (auto simp: always_safe_def hex_digit_def ascii_digit_def ascii_letter_def)

lemma quote_chars:
  assumes "\<forall>c \<in> set s. c < 1114112"
  shows "\<forall>c \<in> set (quote s). always_safe c \<or> c = 37"
proof -
  have "b < 256 \<Longrightarrow> \<forall>c \<in> set (quote_byte b). always_safe c \<or> c = 37" for b
    by (auto simp: quote_byte_def hex_digit_safe)
  then show ?thesis using utf8_bytes [OF assms] by (auto simp: quote_def)
qed

end
