(* ===== verification/Hls_Proxy.thy ===== *)
theory Hls_Proxy
  imports Py_Url Complex_Main
begin

text \<open>
  The byte and playlist proxy of the stream routes, \<^verbatim>\<open>backend/cs_uk_api/jellyfin/hls_proxy.py\<close>.  The upstream
  is an argument: what \<^verbatim>\<open>httpx\<close> answers for a URL and a map of headers.  An exception that escapes a
  function is \<open>Inl\<close>; \<open>Inr None\<close> is the \<^verbatim>\<open>None\<close> its callers turn into a 404.
\<close>

section \<open>Hosts\<close>

datatype escape = Bad_url | Bad_request_url

definition max_proxy_hops :: nat where "max_proxy_hops = 5"

definition lift_url :: "wire_error + 'a \<Rightarrow> escape + 'a" where
  "lift_url r = (case r of Inl _ \<Rightarrow> Inl Bad_url | Inr a \<Rightarrow> Inr a)"

definition cdn_host :: "(ustr \<Rightarrow> bool) \<Rightarrow> ucd \<Rightarrow> ustr \<Rightarrow> escape + ustr option" where
  "cdn_host V U link =
     (case urlparse V [] link of
        Inl _ \<Rightarrow> Inl Bad_url
      | Inr p \<Rightarrow> Inr (case hostname U p of None \<Rightarrow> None | Some h \<Rightarrow> if h = [] then None else Some (lower U h)))"

definition registrable_domain :: "ustr \<Rightarrow> ustr" where
  "registrable_domain host =
     (let labels = split_on 46 host in
      if length labels \<le> 2 then host else join [46] (drop (length labels - 2) labels))"

definition stream_target_allowed :: "(ustr \<Rightarrow> bool) \<Rightarrow> ucd \<Rightarrow> ustr \<Rightarrow> ustr \<Rightarrow> ustr set \<Rightarrow> escape + bool" where
  "stream_target_allowed V U link cdn allowed =
     (case urlparse V [] link of
        Inl _ \<Rightarrow> Inl Bad_url
      | Inr p \<Rightarrow>
          Inr (scheme p \<in> {u ''http'', u ''https''} \<and>
               (case hostname U p of
                  None \<Rightarrow> False
                | Some h \<Rightarrow>
                    registrable_domain (lower U h) = registrable_domain cdn \<or> registrable_domain (lower U h) \<in> allowed)))"

section \<open>Streams\<close>

datatype stream_type = Mp4 | Mkv | Webm | M3u8 | Hls | Dash

record stream =
  st_url :: ustr
  st_type :: stream_type
  st_headers :: "(ustr, ustr) pdict"
  st_allowed :: "ustr set"

text \<open>\<^verbatim>\<open>_STREAM_CTYPE.get(type, "application/octet-stream")\<close>.\<close>

definition stream_ctype :: "stream_type \<Rightarrow> ustr" where
  "stream_ctype t =
     (case t of
        Mp4 \<Rightarrow> u ''video/mp4'' | Mkv \<Rightarrow> u ''video/x-matroska'' | Webm \<Rightarrow> u ''video/webm''
      | M3u8 \<Rightarrow> u ''application/vnd.apple.mpegurl'' | Hls \<Rightarrow> u ''application/vnd.apple.mpegurl''
      | Dash \<Rightarrow> u ''application/octet-stream'')"

definition is_hls_stream :: "stream \<Rightarrow> bool" where
  "is_hls_stream s \<longleftrightarrow> st_type s \<in> {M3u8, Hls} \<or> ends_with (u ''.m3u8'') (st_url s)"

section \<open>Playlists\<close>

text \<open>\<^verbatim>\<open>str.splitlines()\<close>.\<close>

definition line_break :: "nat \<Rightarrow> bool" where
  "line_break c \<longleftrightarrow> c \<in> {10, 11, 12, 13, 28, 29, 30, 133, 8232, 8233}"

fun splitlines_from :: "ustr \<Rightarrow> ustr \<Rightarrow> ustr list" where
  "splitlines_from acc [] = (if acc = [] then [] else [rev acc])"
| "splitlines_from acc (c # cs) =
     (if line_break c then
        rev acc # (case cs of d # ds \<Rightarrow> if c = 13 \<and> d = 10 then splitlines_from [] ds else splitlines_from [] cs | [] \<Rightarrow> [])
      else splitlines_from (c # acc) cs)"

definition splitlines :: "ustr \<Rightarrow> ustr list" where
  "splitlines s = splitlines_from [] s"

definition segment_url :: "ustr \<Rightarrow> ustr \<Rightarrow> ustr" where
  "segment_url item upstream = u ''/Videos/'' @ item @ u ''/segment?url='' @ quote upstream"

text \<open>\<^verbatim>\<open>_URI_ATTR_RE.sub\<close>, with a replacement that may raise.\<close>

definition uri_open :: ustr where "uri_open = u ''URI='' @ [34]"

lemma split_first_length: "split_first c s = (a, Some b) \<Longrightarrow> length b < length s"
  using split_first_Some [of c s a b] by auto

function sub_uris :: "(ustr \<Rightarrow> escape + ustr) \<Rightarrow> ustr \<Rightarrow> escape + ustr" where
  "sub_uris f s =
     (case s of
        [] \<Rightarrow> Inr []
      | c # cs \<Rightarrow>
          if starts_with uri_open s then
            (case split_first 34 (drop (length uri_open) s) of
               (ref, Some rest) \<Rightarrow>
                 (case f ref of
                    Inl e \<Rightarrow> Inl e
                  | Inr new \<Rightarrow> (case sub_uris f rest of Inl e \<Rightarrow> Inl e | Inr r \<Rightarrow> Inr (uri_open @ new @ [34] @ r)))
             | (_, None) \<Rightarrow> (case sub_uris f cs of Inl e \<Rightarrow> Inl e | Inr r \<Rightarrow> Inr (c # r)))
          else (case sub_uris f cs of Inl e \<Rightarrow> Inl e | Inr r \<Rightarrow> Inr (c # r)))"
  by pat_completeness auto
termination
proof (relation "measure (\<lambda>(f, s). length s)")
  fix f :: "ustr \<Rightarrow> escape + ustr" and s c cs x ref y rest new
  assume "(ref, y) = split_first 34 (drop (length uri_open) s)" "y = Some rest" "s = c # cs"
  then have "length rest < length (drop (length uri_open) s)" using split_first_length by metis
  then show "((f, rest), f, s) \<in> measure (\<lambda>(f, s). length s)" by simp
qed auto

declare sub_uris.simps [simp del]

definition reference :: "(ustr \<Rightarrow> bool) \<Rightarrow> ustr \<Rightarrow> ustr \<Rightarrow> ustr \<Rightarrow> escape + ustr" where
  "reference V manifest item ref =
     (case lift_url (urljoin V manifest ref) of Inl e \<Rightarrow> Inl e | Inr absolute \<Rightarrow> Inr (segment_url item absolute))"

definition rewrite_line :: "(ustr \<Rightarrow> bool) \<Rightarrow> ucd \<Rightarrow> ustr \<Rightarrow> ustr \<Rightarrow> ustr \<Rightarrow> escape + ustr" where
  "rewrite_line V U manifest item line =
     (let s = strip U line in
      if s = [] then Inr []
      else if starts_with (u ''#'') s then sub_uris (reference V manifest item) line
      else reference V manifest item s)"

fun map_or_raise :: "('a \<Rightarrow> escape + 'b) \<Rightarrow> 'a list \<Rightarrow> escape + 'b list" where
  "map_or_raise f [] = Inr []"
| "map_or_raise f (x # xs) =
     (case f x of Inl e \<Rightarrow> Inl e | Inr y \<Rightarrow> (case map_or_raise f xs of Inl e \<Rightarrow> Inl e | Inr ys \<Rightarrow> Inr (y # ys)))"

definition rewrite_m3u8 :: "(ustr \<Rightarrow> bool) \<Rightarrow> ucd \<Rightarrow> ustr \<Rightarrow> ustr \<Rightarrow> ustr \<Rightarrow> escape + ustr" where
  "rewrite_m3u8 V U body manifest item =
     (case map_or_raise (rewrite_line V U manifest item) (splitlines body) of
        Inl e \<Rightarrow> Inl e
      | Inr ls \<Rightarrow> Inr (join [10] ls @ [10]))"

section \<open>The memo of the segment route\<close>

type_synonym target = "ustr \<times> (ustr, ustr) pdict \<times> ustr set"
type_synonym memo = "(ustr, rat \<times> target) pdict"

definition memo_ttl_s :: rat where "memo_ttl_s = 15 * 60"

definition memo_stream :: "rat \<Rightarrow> ustr \<Rightarrow> target \<Rightarrow> memo \<Rightarrow> memo" where
  "memo_stream now item t m = dset item (now, t) m"

text \<open>\<^verbatim>\<open>resolve\<close> is what the injected resolver answers; the last component is whether it was called.\<close>

definition resolve_target ::
  "(ustr \<Rightarrow> bool) \<Rightarrow> ucd \<Rightarrow> rat \<Rightarrow> (ustr \<Rightarrow> stream option) \<Rightarrow> ustr \<Rightarrow> memo \<Rightarrow> (escape + target option) \<times> memo" where
  "resolve_target V U now resolve item m =
     (case resolve item of
        None \<Rightarrow> (Inr None, m)
      | Some s \<Rightarrow>
          (case cdn_host V U (st_url s) of
             Inl e \<Rightarrow> (Inl e, m)
           | Inr None \<Rightarrow> (Inr None, m)
           | Inr (Some h) \<Rightarrow>
               (Inr (Some (h, st_headers s, st_allowed s)), memo_stream now item (h, st_headers s, st_allowed s) m)))"

definition proxy_target ::
  "(ustr \<Rightarrow> bool) \<Rightarrow> ucd \<Rightarrow> rat \<Rightarrow> (ustr \<Rightarrow> stream option) \<Rightarrow> ustr \<Rightarrow> memo \<Rightarrow> (escape + target option) \<times> memo \<times> bool" where
  "proxy_target V U now resolve item m =
     (case dget m item of
        Some (born, t) \<Rightarrow>
          if now - born < memo_ttl_s then (Inr (Some t), m, False)
          else (case resolve_target V U now resolve item m of (r, m1) \<Rightarrow> (r, m1, True))
      | None \<Rightarrow> (case resolve_target V U now resolve item m of (r, m1) \<Rightarrow> (r, m1, True)))"

section \<open>The upstream\<close>

record upstream =
  up_status :: nat
  up_headers :: "(ustr, ustr) pdict"
  up_body :: ustr

text \<open>The upstream's headers under the names the proxy asks for; its body is a text where it is a playlist.

  An \<^verbatim>\<open>httpx.HTTPError\<close> is caught; an \<^verbatim>\<open>httpx.InvalidURL\<close> is none and is not.\<close>

datatype fetched = Fetch_error | Fetch_invalid_url | Fetched upstream

type_synonym web = "ustr \<Rightarrow> (ustr, ustr) pdict \<Rightarrow> fetched"

datatype wire = Opened ustr | Closed ustr

function open_upstream ::
  "(ustr \<Rightarrow> bool) \<Rightarrow> ucd \<Rightarrow> web \<Rightarrow> (ustr, ustr) pdict \<Rightarrow> ustr option \<Rightarrow> ustr \<Rightarrow> ustr set \<Rightarrow> nat \<Rightarrow> ustr \<Rightarrow>
   (escape + upstream option) \<times> wire list" where
  "open_upstream V U web hs rng cdn allowed hops link =
     (if max_proxy_hops < hops then (Inr None, [])
      else case stream_target_allowed V U link cdn allowed of
        Inl e \<Rightarrow> (Inl e, [])
      | Inr False \<Rightarrow> (Inr None, [])
      | Inr True \<Rightarrow>
          (case web link (case rng of None \<Rightarrow> hs | Some r \<Rightarrow> dset (u ''Range'') r hs) of
             Fetch_error \<Rightarrow> (Inr None, [])
           | Fetch_invalid_url \<Rightarrow> (Inl Bad_request_url, [])
           | Fetched up \<Rightarrow>
               if 300 \<le> up_status up \<and> up_status up < 400 then
                 (case dget (up_headers up) (u ''Location'') of
                    None \<Rightarrow> (Inr None, [Opened link, Closed link])
                  | Some loc \<Rightarrow>
                      (case lift_url (urljoin V link loc) of
                         Inl e \<Rightarrow> (Inl e, [Opened link, Closed link])
                       | Inr link1 \<Rightarrow>
                           (let (r, tr) = open_upstream V U web hs rng cdn allowed (Suc hops) link1
                            in (r, Opened link # Closed link # tr))))
               else if up_status up < 200 \<or> 300 \<le> up_status up then (Inr None, [Opened link, Closed link])
               else (Inr (Some up), [Opened link])))"
  by pat_completeness auto
termination by (relation "measure (\<lambda>(V, U, web, hs, rng, cdn, allowed, hops, link). Suc max_proxy_hops - hops)") auto

declare open_upstream.simps [simp del]

function fetch_manifest ::
  "(ustr \<Rightarrow> bool) \<Rightarrow> ucd \<Rightarrow> web \<Rightarrow> (ustr, ustr) pdict \<Rightarrow> ustr \<Rightarrow> ustr set \<Rightarrow> nat \<Rightarrow> ustr \<Rightarrow>
   (escape + upstream option) \<times> ustr list" where
  "fetch_manifest V U web hs cdn allowed hops link =
     (if max_proxy_hops < hops then (Inr None, [])
      else case stream_target_allowed V U link cdn allowed of
        Inl e \<Rightarrow> (Inl e, [])
      | Inr False \<Rightarrow> (Inr None, [])
      | Inr True \<Rightarrow>
          (case web link hs of
             Fetch_error \<Rightarrow> (Inr None, [link])
           | Fetch_invalid_url \<Rightarrow> (Inl Bad_request_url, [link])
           | Fetched up \<Rightarrow>
               if 300 \<le> up_status up \<and> up_status up < 400 then
                 (case dget (up_headers up) (u ''Location'') of
                    None \<Rightarrow> (Inr None, [link])
                  | Some loc \<Rightarrow>
                      (case lift_url (urljoin V link loc) of
                         Inl e \<Rightarrow> (Inl e, [link])
                       | Inr link1 \<Rightarrow>
                           (let (r, tr) = fetch_manifest V U web hs cdn allowed (Suc hops) link1 in (r, link # tr))))
               else if up_status up \<noteq> 200 then (Inr None, [link])
               else (Inr (Some up), [link])))"
  by pat_completeness auto
termination by (relation "measure (\<lambda>(V, U, web, hs, cdn, allowed, hops, link). Suc max_proxy_hops - hops)") auto

declare fetch_manifest.simps [simp del]

section \<open>Responses\<close>

record proxied =
  px_status :: nat
  px_headers :: "(ustr, ustr) pdict"
  px_body :: ustr

definition streaming_response :: "upstream \<Rightarrow> ustr \<Rightarrow> proxied" where
  "streaming_response up fallback =
     (let names = [u ''Content-Type'', u ''Content-Range'', u ''Accept-Ranges''];
          hs = List.map_filter (\<lambda>n. map_option (Pair n) (dget (up_headers up) n)) names
      in \<lparr>px_status = up_status up,
          px_headers = (if u ''Content-Type'' \<in> set (dkeys hs) then hs else dset (u ''Content-Type'') fallback hs),
          px_body = up_body up\<rparr>)"

definition playlist_response :: "ustr \<Rightarrow> ustr option \<Rightarrow> proxied" where
  "playlist_response body disposition =
     \<lparr>px_status = 200,
      px_headers = (case disposition of None \<Rightarrow> [] | Some d \<Rightarrow> [(u ''Content-Disposition'', d)]) @ [(u ''Content-Type'', stream_ctype M3u8)],
      px_body = body\<rparr>"

definition with_disposition :: "ustr option \<Rightarrow> proxied \<Rightarrow> proxied" where
  "with_disposition d r = (case d of None \<Rightarrow> r | Some v \<Rightarrow> r\<lparr>px_headers := dset (u ''Content-Disposition'') v (px_headers r)\<rparr>)"

definition proxy_stream ::
  "(ustr \<Rightarrow> bool) \<Rightarrow> ucd \<Rightarrow> web \<Rightarrow> rat \<Rightarrow> ustr \<Rightarrow> stream \<Rightarrow> ustr option \<Rightarrow> ustr option \<Rightarrow> memo \<Rightarrow>
   (escape + proxied option) \<times> memo" where
  "proxy_stream V U web now item s rng disposition m =
     (case cdn_host V U (st_url s) of
        Inl e \<Rightarrow> (Inl e, m)
      | Inr None \<Rightarrow> (Inr None, m)
      | Inr (Some h) \<Rightarrow>
          (let m1 = memo_stream now item (h, st_headers s, st_allowed s) m in
           if is_hls_stream s then
             (case fst (fetch_manifest V U web (st_headers s) h (st_allowed s) 0 (st_url s)) of
                Inl e \<Rightarrow> (Inl e, m1)
              | Inr None \<Rightarrow> (Inr None, m1)
              | Inr (Some up) \<Rightarrow>
                  (case rewrite_m3u8 V U (up_body up) (st_url s) item of
                     Inl e \<Rightarrow> (Inl e, m1)
                   | Inr body \<Rightarrow> (Inr (Some (playlist_response body disposition)), m1)))
           else
             (case fst (open_upstream V U web (st_headers s) rng h (st_allowed s) 0 (st_url s)) of
                Inl e \<Rightarrow> (Inl e, m1)
              | Inr None \<Rightarrow> (Inr None, m1)
              | Inr (Some up) \<Rightarrow> (Inr (Some (with_disposition disposition (streaming_response up (stream_ctype (st_type s))))), m1))))"

definition proxy_download ::
  "(ustr \<Rightarrow> bool) \<Rightarrow> ucd \<Rightarrow> web \<Rightarrow> rat \<Rightarrow> ustr \<Rightarrow> stream \<Rightarrow> ustr \<Rightarrow> memo \<Rightarrow> (escape + proxied option) \<times> memo" where
  "proxy_download V U web now item s disposition m =
     (if st_headers s = [] then
        (case cdn_host V U (st_url s) of
           Inl e \<Rightarrow> (Inl e, m)
         | Inr None \<Rightarrow> (Inr None, m)
         | Inr (Some h) \<Rightarrow>
             (case fst (open_upstream V U web [] None h (st_allowed s) 0 (st_url s)) of
                Inl e \<Rightarrow> (Inl e, m)
              | Inr None \<Rightarrow> (Inr None, m)
              | Inr (Some up) \<Rightarrow> (Inr (Some (with_disposition (Some disposition) (streaming_response up (stream_ctype (st_type s))))), m)))
      else proxy_stream V U web now item s None (Some disposition) m)"

definition rstrip_slash :: "ustr \<Rightarrow> ustr" where
  "rstrip_slash s = rev (dropWhile (\<lambda>c. c = 47) (rev s))"

definition serve_segment ::
  "(ustr \<Rightarrow> bool) \<Rightarrow> ucd \<Rightarrow> web \<Rightarrow> ustr \<Rightarrow> ustr \<Rightarrow> target \<Rightarrow> escape + proxied option" where
  "serve_segment V U web item link t =
     (case t of (cdn, hs, allowed) \<Rightarrow>
        if ends_with (u ''.m3u8'') (lower U (rstrip_slash link)) then
          (case fst (fetch_manifest V U web hs cdn allowed 0 link) of
             Inl e \<Rightarrow> Inl e
           | Inr None \<Rightarrow> Inr None
           | Inr (Some up) \<Rightarrow>
               (case rewrite_m3u8 V U (up_body up) link item of
                  Inl e \<Rightarrow> Inl e | Inr body \<Rightarrow> Inr (Some (playlist_response body None))))
        else
          (case fst (open_upstream V U web hs None cdn allowed 0 link) of
             Inl e \<Rightarrow> Inl e
           | Inr None \<Rightarrow> Inr None
           | Inr (Some up) \<Rightarrow> Inr (Some (streaming_response up (u ''application/octet-stream'')))))"

section \<open>What the proxy may reach\<close>

fun is_open :: "wire \<Rightarrow> bool" where
  "is_open (Opened l) = True"
| "is_open (Closed l) = False"

definition reachable :: "(ustr \<Rightarrow> bool) \<Rightarrow> ucd \<Rightarrow> ustr \<Rightarrow> ustr set \<Rightarrow> ustr set" where
  "reachable V U cdn allowed = {l. stream_target_allowed V U l cdn allowed = Inr True}"

lemma open_upstream_trace:
  "open_upstream V U web hs rng cdn allowed hops link = (r, tr) \<Longrightarrow>
     length (filter is_open tr) \<le> Suc max_proxy_hops - hops \<and>
     {l. Opened l \<in> set tr} \<subseteq> reachable V U cdn allowed \<and>
     length (filter is_open tr) = length (filter (\<lambda>w. \<not> is_open w) tr) + (if \<exists>up. r = Inr (Some up) then 1 else 0)"
proof (induction V U web hs rng cdn allowed hops link arbitrary: r tr rule: open_upstream.induct)
  case (1 V U web hs rng cdn allowed hops link)
  show ?case
  proof (cases "hops \<le> max_proxy_hops \<and> stream_target_allowed V U link cdn allowed = Inr True")
    case False
    then have "tr = [] \<and> (r = Inr None \<or> (\<exists>e. r = Inl e))"
      using "1.prems" by (subst (asm) open_upstream.simps) (auto split: if_splits sum.splits bool.splits)
    then show ?thesis by auto
  next
    case True
    then have hop: "\<not> max_proxy_hops < hops" and ok: "stream_target_allowed V U link cdn allowed = Inr True" by auto
    have reach: "link \<in> reachable V U cdn allowed" using ok by (simp add: reachable_def)
    let ?hs = "case rng of None \<Rightarrow> hs | Some x \<Rightarrow> dset (u ''Range'') x hs"
    show ?thesis
    proof (cases "web link ?hs")
      case (Fetched up)
      show ?thesis
      proof (cases "\<exists>loc l1. 300 \<le> up_status up \<and> up_status up < 400 \<and> dget (up_headers up) (u ''Location'') = Some loc \<and>
          lift_url (urljoin V link loc) = Inr l1")
        case True
        then obtain loc l1 where redirect: "300 \<le> up_status up \<and> up_status up < 400"
          "dget (up_headers up) (u ''Location'') = Some loc" "lift_url (urljoin V link loc) = Inr l1" by blast
        obtain r1 tr1 where rec: "open_upstream V U web hs rng cdn allowed (Suc hops) l1 = (r1, tr1)" by force
        have eq: "r = r1 \<and> tr = Opened link # Closed link # tr1"
          using "1.prems" hop ok Fetched redirect rec by (subst (asm) open_upstream.simps) simp
        from "1.IH" [OF hop ok _ Fetched redirect(1) redirect(2) redirect(3) rec] reach hop show ?thesis
          unfolding eq [THEN conjunct1] eq [THEN conjunct2] by auto
      next
        case False
        then have "tr = [Opened link, Closed link] \<and> \<not> (\<exists>up. r = Inr (Some up)) \<or> tr = [Opened link] \<and> r = Inr (Some up)"
          using "1.prems" hop ok Fetched
          by (subst (asm) open_upstream.simps) (auto split: if_splits option.splits sum.splits)
        then show ?thesis using reach hop by auto
      qed
    qed (use "1.prems" hop ok in \<open>subst (asm) open_upstream.simps, auto\<close>)+
  qed
qed

lemma fetch_manifest_trace:
  "fetch_manifest V U web hs cdn allowed hops link = (r, tr) \<Longrightarrow>
     length tr \<le> Suc max_proxy_hops - hops \<and> set tr \<subseteq> reachable V U cdn allowed"
proof (induction V U web hs cdn allowed hops link arbitrary: r tr rule: fetch_manifest.induct)
  case (1 V U web hs cdn allowed hops link)
  show ?case
  proof (cases "hops \<le> max_proxy_hops \<and> stream_target_allowed V U link cdn allowed = Inr True")
    case False
    then have "tr = []"
      using "1.prems" by (subst (asm) fetch_manifest.simps) (auto split: if_splits sum.splits bool.splits)
    then show ?thesis by auto
  next
    case True
    then have hop: "\<not> max_proxy_hops < hops" and ok: "stream_target_allowed V U link cdn allowed = Inr True" by auto
    have reach: "link \<in> reachable V U cdn allowed" using ok by (simp add: reachable_def)
    show ?thesis
    proof (cases "\<exists>up loc l1. web link hs = Fetched up \<and> (300 \<le> up_status up \<and> up_status up < 400) \<and>
        dget (up_headers up) (u ''Location'') = Some loc \<and> lift_url (urljoin V link loc) = Inr l1")
      case True
      then obtain up loc l1 where redirect: "web link hs = Fetched up" "300 \<le> up_status up \<and> up_status up < 400"
        "dget (up_headers up) (u ''Location'') = Some loc" "lift_url (urljoin V link loc) = Inr l1" by blast
      obtain r1 tr1 where rec: "fetch_manifest V U web hs cdn allowed (Suc hops) l1 = (r1, tr1)" by force
      have eq: "tr = link # tr1"
        using "1.prems" hop ok redirect rec by (subst (asm) fetch_manifest.simps) simp
      from "1.IH" [OF hop ok _ redirect rec] reach hop show ?thesis unfolding eq by auto
    next
      case False
      then have "tr = [link]"
        using "1.prems" hop ok
        by (subst (asm) fetch_manifest.simps) (auto split: if_splits option.splits sum.splits fetched.splits)
      then show ?thesis using reach hop by auto
    qed
  qed
qed


section \<open>Rewritten playlists\<close>

definition valid_text :: "ustr \<Rightarrow> bool" where
  "valid_text s \<longleftrightarrow> list_all (\<lambda>c. c < 1114112) s"

text \<open>What stands for a line of the upstream's playlist.\<close>

definition rewritten :: "(ustr \<Rightarrow> bool) \<Rightarrow> ucd \<Rightarrow> ustr \<Rightarrow> ustr \<Rightarrow> ustr \<Rightarrow> ustr \<Rightarrow> bool" where
  "rewritten V U manifest item line l \<longleftrightarrow>
     (if strip U line = [] then l = []
      else if starts_with (u ''#'') (strip U line) then sub_uris (reference V manifest item) line = Inr l
      else \<exists>a q. urljoin V manifest (strip U line) = Inr a \<and> l = u ''/Videos/'' @ item @ u ''/segment?url='' @ q \<and>
        (valid_text a \<longrightarrow> percent_decode q = utf8 a \<and> list_all (\<lambda>c. always_safe c \<or> c = 37) q))"

lemma map_or_raise_all2: "map_or_raise f xs = Inr ys \<Longrightarrow> list_all2 (\<lambda>x y. f x = Inr y) xs ys"
  by (induction xs arbitrary: ys) (auto split: sum.splits)

text \<open>A rewritten playlist keeps the client on the backend: line by line, a blank line stays blank, the URIs of a
  tag are replaced in place, and any other line becomes a segment URL of the item whose parameter, one safe
  token, decodes to the bytes of the absolute reference.\<close>

theorem playlist_stays_on_backend:
  assumes "rewrite_m3u8 V U body manifest item = Inr out"
  shows "\<exists>ls. out = join [10] ls @ [10] \<and> list_all2 (rewritten V U manifest item) (splitlines body) ls"
proof -
  obtain ls where ls: "map_or_raise (rewrite_line V U manifest item) (splitlines body) = Inr ls" "out = join [10] ls @ [10]"
    using assms by (auto simp: rewrite_m3u8_def split: sum.splits)
  have "rewritten V U manifest item line l" if "rewrite_line V U manifest item line = Inr l" for line l
  proof (cases "strip U line = [] \<or> starts_with (u ''#'') (strip U line)")
    case True
    then show ?thesis using that by (auto simp: rewritten_def rewrite_line_def Let_def split: if_splits)
  next
    case False
    then have "reference V manifest item (strip U line) = Inr l" using that by (simp add: rewrite_line_def Let_def)
    then obtain a where "urljoin V manifest (strip U line) = Inr a" "l = segment_url item a"
      by (auto simp: reference_def lift_url_def split: sum.splits)
    then show ?thesis using False quote_decodes [of a] quote_chars [of a]
      by (auto simp: rewritten_def segment_url_def valid_text_def list_all_iff)
  qed
  then have "list_all2 (rewritten V U manifest item) (splitlines body) ls"
    using map_or_raise_all2 [OF ls(1)] by (auto elim: list.rel_mono_strong)
  with ls(2) show ?thesis by blast
qed

text \<open>A network location without brackets, and an upstream that has moved its playlist.\<close>

definition any_netloc :: "ustr \<Rightarrow> bool" where
  "any_netloc n = True"

definition moved_manifest :: web where
  "moved_manifest link hs =
     (if link = u ''http://c.ex/a/m.m3u8'' then Fetched \<lparr>up_status = 302, up_headers = [(u ''Location'', u ''/b/m.m3u8'')], up_body = []\<rparr>
      else if link = u ''http://c.ex/b/m.m3u8'' then Fetched \<lparr>up_status = 200, up_headers = [], up_body = u ''s.ts''\<rparr>
      else Fetch_error)"

theorem playlist_stays_on_backend_witness:
  "\<exists>ls. u ''/Videos/i/segment?url=http%3A%2F%2Fc.ex%2Fa%2Fs.ts'' @ [10] = join [10] ls @ [10] \<and>
     list_all2 (rewritten any_netloc ua_ucd (u ''http://c.ex/a/m.m3u8'') (u ''i'')) (splitlines (u ''s.ts'')) ls"
proof (rule playlist_stays_on_backend)
  show "rewrite_m3u8 any_netloc ua_ucd (u ''s.ts'') (u ''http://c.ex/a/m.m3u8'') (u ''i'') =
    Inr (u ''/Videos/i/segment?url=http%3A%2F%2Fc.ex%2Fa%2Fs.ts'' @ [10])"
    by code_simp
qed

section \<open>Where the proxy goes wrong\<close>

text \<open>A playlist that was fetched through a redirect is rewritten against the URL before the redirect: its
  relative reference \<^verbatim>\<open>s.ts\<close>, which lives beside the playlist under \<^verbatim>\<open>/b/\<close>, is sent to \<^verbatim>\<open>/a/\<close>.\<close>

theorem redirected_playlist_wrong_base:
  "fst (proxy_stream any_netloc ua_ucd moved_manifest 0 (u ''i'')
     \<lparr>st_url = u ''http://c.ex/a/m.m3u8'', st_type = M3u8, st_headers = [], st_allowed = {}\<rparr> None None []) =
   Inr (Some (playlist_response (u ''/Videos/i/segment?url=http%3A%2F%2Fc.ex%2Fa%2Fs.ts'' @ [10]) None))"
  by code_simp

text \<open>The host check compares the last two labels, which of an address are its last two numbers: the proxy of
  an item served from \<^verbatim>\<open>5.9.1.2\<close> may reach \<^verbatim>\<open>127.0.1.2\<close>, a loopback address.\<close>

theorem address_hosts_share_a_domain:
  "stream_target_allowed any_netloc ua_ucd (u ''http://127.0.1.2/x'') (u ''5.9.1.2'') {} = Inr True"
  by code_simp

lemma open_bracket_url: "urlparse V [] (u ''http://['') = Inl Value_error"
  by (simp add: urlparse_def urlsplit_def split_scheme_def cut_def ascii_letter_def scheme_char_def u_def)

text \<open>The segment route raises instead of answering 404 when its parameter has an unbalanced bracket: the
  \<^verbatim>\<open>ValueError\<close> of \<^verbatim>\<open>urlparse\<close> is not caught.\<close>

theorem bad_segment_url_escapes:
  "serve_segment V U web item (u ''http://['') (cdn, hs, allowed) = Inl Bad_url"
proof -
  have "stream_target_allowed V U (u ''http://['') cdn allowed = Inl Bad_url"
    by (simp add: stream_target_allowed_def open_bracket_url)
  then show ?thesis
    by (simp add: serve_segment_def fetch_manifest.simps [of V U web hs cdn allowed 0] open_upstream.simps [of V U web hs None cdn allowed 0]
        max_proxy_hops_def)
qed

end
