(* ===== verification/Fetch.thy ===== *)
theory Fetch
  imports Py_Url Json
begin

text \<open>
  The one fetch path of the providers: \<^verbatim>\<open>safe_get\<close> and \<^verbatim>\<open>provider_safe_get\<close> of
  \<^verbatim>\<open>backend/cs_uk_api/http_client.py\<close>, and \<^verbatim>\<open>get_json\<close> and \<^verbatim>\<open>get_html\<close> of \<^verbatim>\<open>providers/base.py\<close>.

  The upstream is an argument: what the shared client answers for a request, given every request made
  before it.  The requests made are threaded as a list, so that theorems can speak of all of them.
  \<^verbatim>\<open>safe_get\<close> calls itself for every redirect; its first argument is the number of nested calls the
  interpreter still allows, after which it raises \<^verbatim>\<open>RecursionError\<close>.
\<close>

section \<open>The upstream\<close>

record get_request =
  gr_url :: ustr
  gr_headers :: "(ustr, ustr) pdict option"
  gr_params :: "(ustr, ustr) pdict option"

text \<open>What \<^verbatim>\<open>response.json()\<close> does: a value, a \<^verbatim>\<open>JSONDecodeError\<close>, or a \<^verbatim>\<open>UnicodeDecodeError\<close>.\<close>

datatype body = Parsed json | Not_json | Undecodable

record response =
  rs_status :: int
  rs_location :: "ustr option"
  rs_text :: ustr
  rs_json :: body

text \<open>A failure of \<^verbatim>\<open>http.get\<close> is an \<^verbatim>\<open>httpx.HTTPError\<close> or another exception, such as \<^verbatim>\<open>httpx.InvalidURL\<close>.\<close>

datatype http_answer = Answered response | Transport_fault | Client_raises

type_synonym fetch_upstream = "get_request list \<Rightarrow> get_request \<Rightarrow> http_answer"

text \<open>
  Exceptions: \<open>Http_fault\<close> is \<^verbatim>\<open>httpx.HTTPError\<close>, \<open>Provider_fault c e\<close> a \<^verbatim>\<open>ProviderError\<close> with code \<open>c\<close> and
  \<^verbatim>\<open>engine_path\<close> flag \<open>e\<close>, \<open>Other_fault\<close> every other one (\<^verbatim>\<open>ValueError\<close>, \<^verbatim>\<open>InvalidURL\<close>, \<^verbatim>\<open>RecursionError\<close>).
  Messages, which only reach the log, are left out.
\<close>

datatype fault = Http_fault | Provider_fault ustr bool | Other_fault

definition not_found :: fault where "not_found = Provider_fault (u ''not_found'') False"
definition parse_failed :: fault where "parse_failed = Provider_fault (u ''parse_failed'') False"
definition unreachable :: fault where "unreachable = Provider_fault (u ''unreachable'') False"

section \<open>Fetching\<close>

fun safe_get ::
  "nat \<Rightarrow> (ustr \<Rightarrow> bool) \<Rightarrow> fetch_upstream \<Rightarrow> ustr set \<Rightarrow> (ustr, ustr) pdict option \<Rightarrow> (ustr, ustr) pdict option \<Rightarrow>
   ustr \<Rightarrow> get_request list \<Rightarrow> (fault + response) \<times> get_request list" where
  "safe_get 0 V up allowed hs ps link sent = (Inl Other_fault, sent)"
| "safe_get (Suc n) V up allowed hs ps link sent =
     (case urlparse V [] link of
        Inl _ \<Rightarrow> (Inl Other_fault, sent)
      | Inr p \<Rightarrow>
          if netloc p \<notin> allowed then (Inl not_found, sent)
          else
            (let rq = \<lparr>gr_url = link, gr_headers = hs, gr_params = ps\<rparr>; sent' = sent @ [rq] in
             case up sent rq of
               Transport_fault \<Rightarrow> (Inl Http_fault, sent')
             | Client_raises \<Rightarrow> (Inl Other_fault, sent')
             | Answered r \<Rightarrow>
                 if 300 \<le> rs_status r \<and> rs_status r < 400 then
                   (case rs_location r of
                      None \<Rightarrow> (Inr r, sent')
                    | Some l \<Rightarrow>
                        if l = [] then (Inr r, sent')
                        else
                          (case urljoin V link l of
                             Inl _ \<Rightarrow> (Inl Other_fault, sent')
                           | Inr resolved \<Rightarrow>
                               (case urlparse V [] resolved of
                                  Inl _ \<Rightarrow> (Inl Other_fault, sent')
                                | Inr q \<Rightarrow>
                                    if netloc q \<notin> allowed then (Inl not_found, sent')
                                    else safe_get n V up allowed hs None resolved sent')))
                 else (Inr r, sent')))"

text \<open>The allowlist of \<^verbatim>\<open>provider_safe_get\<close> is the provider's declaration.\<close>

record fetcher =
  budget :: nat
  netloc_ok :: "ustr \<Rightarrow> bool"
  fetch_from :: fetch_upstream
  allowed_hosts :: "ustr set"

definition provider_safe_get ::
  "fetcher \<Rightarrow> (ustr, ustr) pdict option \<Rightarrow> (ustr, ustr) pdict option \<Rightarrow> ustr \<Rightarrow> get_request list \<Rightarrow>
   (fault + response) \<times> get_request list" where
  "provider_safe_get F hs ps link sent =
     safe_get (budget F) (netloc_ok F) (fetch_from F) (allowed_hosts F) hs ps link sent"

text \<open>The status ladder that \<^verbatim>\<open>get_json\<close> and \<^verbatim>\<open>get_html\<close> share.\<close>

definition checked :: "(fault + response) \<Rightarrow> fault + response" where
  "checked r =
     (case r of
        Inl Http_fault \<Rightarrow> Inl unreachable
      | Inl f \<Rightarrow> Inl f
      | Inr a \<Rightarrow>
          if rs_status a \<ge> 500 then Inl (Provider_fault (u ''upstream_unreachable'') False)
          else if rs_status a \<noteq> 200 then Inl not_found else Inr a)"

definition get_json ::
  "fetcher \<Rightarrow> (ustr, ustr) pdict option \<Rightarrow> ustr \<Rightarrow> get_request list \<Rightarrow> (fault + json) \<times> get_request list" where
  "get_json F hs link sent =
     (case provider_safe_get F hs None link sent of
        (r, sent') \<Rightarrow>
          (case checked r of
             Inl f \<Rightarrow> (Inl f, sent')
           | Inr a \<Rightarrow>
               (case rs_json a of
                  Parsed j \<Rightarrow> (Inr j, sent')
                | Not_json \<Rightarrow> (Inl parse_failed, sent')
                | Undecodable \<Rightarrow> (Inl Other_fault, sent'))))"

definition get_html ::
  "fetcher \<Rightarrow> (ustr, ustr) pdict option \<Rightarrow> ustr \<Rightarrow> get_request list \<Rightarrow> (fault + ustr) \<times> get_request list" where
  "get_html F hs link sent =
     (case provider_safe_get F hs None link sent of
        (r, sent') \<Rightarrow> (case checked r of Inl f \<Rightarrow> (Inl f, sent') | Inr a \<Rightarrow> (Inr (rs_text a), sent')))"

section \<open>Confinement\<close>

definition host_allowed :: "(ustr \<Rightarrow> bool) \<Rightarrow> ustr set \<Rightarrow> ustr \<Rightarrow> bool" where
  "host_allowed V allowed link \<longleftrightarrow> (case urlparse V [] link of Inl _ \<Rightarrow> False | Inr p \<Rightarrow> netloc p \<in> allowed)"

text \<open>\<open>sent'\<close> extends \<open>sent\<close> by at most \<open>n\<close> requests, all of them to allowed hosts.\<close>

definition confined :: "(ustr \<Rightarrow> bool) \<Rightarrow> ustr set \<Rightarrow> nat \<Rightarrow> get_request list \<Rightarrow> get_request list \<Rightarrow> bool" where
  "confined V allowed n sent sent' \<longleftrightarrow>
     take (length sent) sent' = sent \<and> length (drop (length sent) sent') \<le> n \<and>
     list_all (\<lambda>rq. host_allowed V allowed (gr_url rq)) (drop (length sent) sent')"

lemma confined_refl [simp]: "confined V allowed n sent sent"
  by (simp add: confined_def)

lemma confined_snoc:
  "host_allowed V allowed (gr_url rq) \<Longrightarrow> confined V allowed (Suc n) sent (sent @ [rq])"
  by (simp add: confined_def)

lemma confined_append: "confined V allowed n sent sent' \<longleftrightarrow>
    (\<exists>new. sent' = sent @ new \<and> length new \<le> n \<and> list_all (\<lambda>rq. host_allowed V allowed (gr_url rq)) new)"
  unfolding confined_def by (metis append_eq_conv_conj append_take_drop_id)

lemma confined_trans:
  "confined V allowed m sent sent' \<Longrightarrow> confined V allowed n sent' sent'' \<Longrightarrow> confined V allowed (m + n) sent sent''"
  by (fastforce simp: confined_append)

lemma safe_get_confined:
  "confined V allowed n sent (snd (safe_get n V up allowed hs ps link sent))"
proof (induction n arbitrary: ps link sent)
  case (Suc n)
  show ?case
  proof (cases "host_allowed V allowed link")
    case True
    let ?rq = "\<lparr>gr_url = link, gr_headers = hs, gr_params = ps\<rparr>"
    have one: "confined V allowed 1 sent (sent @ [?rq])"
      using True confined_snoc [of V allowed ?rq 0 sent] by simp
    then have some: "confined V allowed (Suc n) sent (sent @ [?rq])"
      by (auto simp: confined_append)
    have next_hop: "confined V allowed (Suc n) sent (snd (safe_get n V up allowed hs None l (sent @ [?rq])))" for l
      using confined_trans [OF one Suc.IH] by simp
    show ?thesis
      using True some next_hop
      by (auto simp: host_allowed_def Let_def split: sum.splits http_answer.splits option.splits)
  next
    case False
    then show ?thesis by (auto simp: host_allowed_def split: sum.splits)
  qed
qed simp

text \<open>C38: Every request that is ever sent, the first and the one after each redirect, goes to a host the
  caller allowed, and their number is bounded by the recursion budget alone.\<close>

theorem fetch_confined:
  "confined V allowed n sent (snd (safe_get n V up allowed hs ps link sent))"
  by (rule safe_get_confined)

lemma get_json_confined: "confined (netloc_ok F) (allowed_hosts F) (budget F) sent (snd (get_json F hs link sent))"
  using safe_get_confined [of "netloc_ok F" "allowed_hosts F" "budget F" sent "fetch_from F" hs None link]
  by (auto simp: get_json_def provider_safe_get_def split: prod.splits sum.splits body.splits)

section \<open>Redirects\<close>

text \<open>\<open>hops_to V up allowed hs u ps us r\<close>: from \<open>u\<close>, the upstream redirects along \<open>us\<close> and then answers \<open>r\<close>.\<close>

inductive hops_to ::
  "(ustr \<Rightarrow> bool) \<Rightarrow> fetch_upstream \<Rightarrow> ustr set \<Rightarrow> (ustr, ustr) pdict option \<Rightarrow> ustr \<Rightarrow> (ustr, ustr) pdict option \<Rightarrow>
   ustr list \<Rightarrow> response \<Rightarrow> bool" for V up allowed hs where
  Final: "host_allowed V allowed link \<Longrightarrow>
    \<forall>sent. up sent \<lparr>gr_url = link, gr_headers = hs, gr_params = ps\<rparr> = Answered r \<Longrightarrow>
    \<not> (300 \<le> rs_status r \<and> rs_status r < 400) \<or> rs_location r \<in> {None, Some []} \<Longrightarrow>
    hops_to V up allowed hs link ps [] r"
| Hop: "host_allowed V allowed link \<Longrightarrow>
    \<forall>sent. up sent \<lparr>gr_url = link, gr_headers = hs, gr_params = ps\<rparr> = Answered r \<Longrightarrow>
    300 \<le> rs_status r \<Longrightarrow> rs_status r < 400 \<Longrightarrow> rs_location r = Some l \<Longrightarrow> l \<noteq> [] \<Longrightarrow>
    urljoin V link l = Inr link' \<Longrightarrow> hops_to V up allowed hs link' None us r' \<Longrightarrow>
    hops_to V up allowed hs link ps (link' # us) r'"

inductive_cases hops_toE: "hops_to V up allowed hs link ps us r"

lemma hops_to_allowed: "hops_to V up allowed hs link ps us r \<Longrightarrow> host_allowed V allowed link"
  by (erule hops_toE)

text \<open>A chain of redirects within the budget is followed to its end: one request per hop, the
  parameters on the first alone, the headers on all.\<close>

theorem redirects_are_followed:
  assumes "hops_to V up allowed hs link ps us r" and "length us < n"
  shows "safe_get n V up allowed hs ps link sent =
    (Inr r, sent @ \<lparr>gr_url = link, gr_headers = hs, gr_params = ps\<rparr> #
       map (\<lambda>l. \<lparr>gr_url = l, gr_headers = hs, gr_params = None\<rparr>) us)"
  using assms
proof (induction arbitrary: n sent rule: hops_to.induct)
  case (Final link ps r)
  then obtain k where "n = Suc k" by (cases n) auto
  with Final show ?case
    by (auto simp: host_allowed_def Let_def split: sum.splits option.splits)
next
  case (Hop link ps r l link' us r')
  then obtain k where k: "n = Suc k" "length us < k" by (cases n) auto
  have "host_allowed V allowed link'" using Hop.hyps(8) by (rule hops_to_allowed)
  with Hop k show ?case
    by (auto simp: host_allowed_def Let_def split: sum.splits)
qed

text \<open>A page that redirects to itself is fetched until the interpreter's recursion limit, and then
  an exception escapes that is neither an \<^verbatim>\<open>HTTPError\<close> nor a \<^verbatim>\<open>ProviderError\<close>.\<close>

theorem redirect_loop_escapes:
  assumes "host_allowed V allowed link" and "urljoin V link l = Inr link" and "l \<noteq> []"
    and "\<forall>sent. up sent \<lparr>gr_url = link, gr_headers = hs, gr_params = None\<rparr> = Answered r"
    and "300 \<le> rs_status r" and "rs_status r < 400" and "rs_location r = Some l"
  shows "safe_get n V up allowed hs None link sent =
    (Inl Other_fault, sent @ replicate n \<lparr>gr_url = link, gr_headers = hs, gr_params = None\<rparr>)"
proof (induction n arbitrary: sent)
  case (Suc n)
  with assms show ?case
    by (auto simp: host_allowed_def Let_def split: sum.splits)
qed simp

definition sample_link :: ustr where "sample_link = u ''https://yts.gg/x''"

definition loop_upstream :: fetch_upstream where
  "loop_upstream sent rq =
     Answered \<lparr>rs_status = 302, rs_location = Some sample_link, rs_text = [], rs_json = Not_json\<rparr>"

theorem redirect_loop_escapes_witness:
  "fst (safe_get 1000 (\<lambda>_. True) loop_upstream {u ''yts.gg''} None None sample_link []) = Inl Other_fault"
proof -
  have "host_allowed (\<lambda>_. True) {u ''yts.gg''} sample_link" by code_simp
  moreover have "urljoin (\<lambda>_. True) sample_link sample_link = Inr sample_link" by code_simp
  moreover have "sample_link \<noteq> []" by (simp add: sample_link_def u_def)
  ultimately show ?thesis
    using redirect_loop_escapes [of "\<lambda>_. True" "{u ''yts.gg''}" sample_link sample_link loop_upstream None
        "\<lparr>rs_status = 302, rs_location = Some sample_link, rs_text = [], rs_json = Not_json\<rparr>" 1000 "[]"]
    by (simp add: loop_upstream_def)
qed

definition hop_upstream :: fetch_upstream where
  "hop_upstream sent rq =
     Answered (if gr_url rq = sample_link
       then \<lparr>rs_status = 302, rs_location = Some (u ''/y''), rs_text = [], rs_json = Not_json\<rparr>
       else \<lparr>rs_status = 200, rs_location = None, rs_text = u ''ok'', rs_json = Not_json\<rparr>)"

theorem redirects_are_followed_witness:
  "fst (safe_get 2 (\<lambda>_. True) hop_upstream {u ''yts.gg''} None None sample_link []) =
     Inr \<lparr>rs_status = 200, rs_location = None, rs_text = u ''ok'', rs_json = Not_json\<rparr>"
proof -
  have h: "host_allowed (\<lambda>_. True) {u ''yts.gg''} sample_link" "host_allowed (\<lambda>_. True) {u ''yts.gg''} (u ''https://yts.gg/y'')"
    "urljoin (\<lambda>_. True) sample_link (u ''/y'') = Inr (u ''https://yts.gg/y'')" by code_simp+
  have ne: "u ''https://yts.gg/y'' \<noteq> sample_link" "u ''/y'' \<noteq> []" by (simp_all add: sample_link_def u_def)
  have "hops_to (\<lambda>_. True) hop_upstream {u ''yts.gg''} None (u ''https://yts.gg/y'') None []
      \<lparr>rs_status = 200, rs_location = None, rs_text = u ''ok'', rs_json = Not_json\<rparr>"
    by (rule hops_to.Final) (use h ne in \<open>simp_all add: hop_upstream_def\<close>)
  with h ne have "hops_to (\<lambda>_. True) hop_upstream {u ''yts.gg''} None sample_link None [u ''https://yts.gg/y'']
      \<lparr>rs_status = 200, rs_location = None, rs_text = u ''ok'', rs_json = Not_json\<rparr>"
    by (intro hops_to.Hop [where l = "u ''/y''"]) (auto simp: hop_upstream_def)
  from redirects_are_followed [OF this, of 2 "[]"] show ?thesis by simp
qed

end
