(* ===== verification/Lru.thy ===== *)
theory Lru
  imports Py_Prelude
begin

text \<open>
  The bounded \<^verbatim>\<open>OrderedDict\<close> that the English lane keeps twice: the torrent entries of
  \<^verbatim>\<open>providers/yts.py\<close> and the show cache of \<^verbatim>\<open>providers/popcorn.py\<close>.  Assigning a key, moving it to
  the end and popping from the front while there are too many; a use that only moves the key.
\<close>

section \<open>The operations\<close>

text \<open>\<^verbatim>\<open>d.move_to_end(k)\<close>, of a key that is present.\<close>

definition move_to_end :: "'k \<Rightarrow> ('k, 'v) pdict \<Rightarrow> ('k, 'v) pdict" where
  "move_to_end k d = (case dget d k of None \<Rightarrow> d | Some v \<Rightarrow> dpop k d @ [(k, v)])"

text \<open>\<^verbatim>\<open>while len(d) > bound: d.popitem(last=False)\<close>.\<close>

fun pop_oldest :: "nat \<Rightarrow> ('k, 'v) pdict \<Rightarrow> ('k, 'v) pdict" where
  "pop_oldest bound [] = []"
| "pop_oldest bound (e # d) = (if length (e # d) > bound then pop_oldest bound d else e # d)"

definition lru_put :: "nat \<Rightarrow> 'k \<Rightarrow> 'v \<Rightarrow> ('k, 'v) pdict \<Rightarrow> ('k, 'v) pdict" where
  "lru_put bound k v d = pop_oldest bound (move_to_end k (dset k v d))"

section \<open>What they do\<close>

lemma pop_oldest_drop: "pop_oldest bound d = drop (length d - bound) d"
proof (induction d)
  case (Cons e d)
  then show ?case by (cases "bound < length (e # d)") (auto simp: Suc_diff_le less_Suc_eq_le)
qed simp

lemma dpop_dset: "dpop k (dset k v d) = dpop k d"
  by (induction k v d rule: dset.induct) (auto simp: dpop_def)

lemma lru_put_eq: "lru_put bound k v d = drop (Suc (length (dpop k d)) - bound) (dpop k d @ [(k, v)])"
  by (simp add: lru_put_def move_to_end_def dget_dset dpop_dset pop_oldest_drop)

lemma move_to_end_Some: "dget d k = Some v \<Longrightarrow> move_to_end k d = dpop k d @ [(k, v)]"
  by (simp add: move_to_end_def)

lemma length_lru_put: "length (lru_put bound k v d) \<le> bound"
  by (simp add: lru_put_eq)

lemma dget_drop_dwf: "dwf d \<Longrightarrow> dget (drop n d) k = Some v \<Longrightarrow> dget d k = Some v"
  by (metis dwf_def distinct_drop drop_map in_set_dropD map_of_eq_Some_iff)

lemma dwf_dpop_app: "dwf d \<Longrightarrow> dwf (dpop k d @ [(k, v)])"
  by (auto simp: dwf_def dkeys_dpop)

lemma dget_dpop_app: "dget (dpop k d @ [(k, v)]) = (dget d)(k \<mapsto> v)"
  by (rule ext) (simp add: dget_dpop map_add_def split: option.splits)

lemma dwf_lru_put [intro]: "dwf d \<Longrightarrow> dwf (lru_put bound k v d)"
  unfolding lru_put_eq by (intro dwf_drop dwf_dpop_app)

lemma dwf_move_to_end [intro]: "dwf d \<Longrightarrow> dwf (move_to_end k d)"
  by (auto simp: move_to_end_def dwf_dpop_app split: option.splits)

lemma dget_move_to_end [simp]: "dget (move_to_end k d) = dget d"
  by (cases "dget d k") (simp_all only: move_to_end_def option.case dget_dpop_app fun_upd_idem)

lemma length_move_to_end: "dwf d \<Longrightarrow> length (move_to_end k d) = length d"
proof (cases "dget d k")
  case (Some v)
  assume "dwf d"
  with Some length_dpop [of d k] show ?thesis
    by (metis length_append_singleton move_to_end_Some option.distinct(1) map_of_eq_None_iff image_set)
qed (simp add: move_to_end_def)

lemma lru_put_other:
  assumes "dwf d" and "dget (lru_put bound k v d) j = Some w" and "j \<noteq> k"
  shows "dget d j = Some w"
proof -
  from assms(2) have "dget (dpop k d @ [(k, v)]) j = Some w"
    unfolding lru_put_eq by (rule dget_drop_dwf [OF dwf_dpop_app [OF assms(1)]])
  then have "((dget d)(k \<mapsto> v)) j = Some w" by (simp only: dget_dpop_app)
  with assms(3) show ?thesis by simp
qed

lemma lru_put_same: "0 < bound \<Longrightarrow> dwf d \<Longrightarrow> dget (lru_put bound k v d) k = Some v"
proof -
  assume "0 < bound" and wf: "dwf d"
  then have "(k, v) \<in> set (lru_put bound k v d)"
    unfolding lru_put_eq by (cases bound) simp_all
  with dwf_lru_put [OF wf] show ?thesis by (simp only: dget_Some_in)
qed

section \<open>Survival\<close>

datatype ('k, 'v) lru_op = Lru_put 'k 'v | Lru_use 'k

fun lru_step :: "nat \<Rightarrow> ('k, 'v) pdict \<Rightarrow> ('k, 'v) lru_op \<Rightarrow> ('k, 'v) pdict" where
  "lru_step bound d (Lru_put k v) = lru_put bound k v d"
| "lru_step bound d (Lru_use k) = move_to_end k d"

fun op_key :: "('k, 'v) lru_op \<Rightarrow> 'k" where
  "op_key (Lru_put k v) = k"
| "op_key (Lru_use k) = k"

text \<open>Everything behind \<open>k\<close> has been used since \<open>k\<close> was.\<close>

definition stands :: "'k \<Rightarrow> 'v \<Rightarrow> 'k set \<Rightarrow> ('k, 'v) pdict \<Rightarrow> bool" where
  "stands k v S d \<longleftrightarrow> dwf d \<and> (\<exists>a b. d = a @ (k, v) # b \<and> fst ` set b \<subseteq> S)"

lemma dpop_app: "dpop j (a @ b) = dpop j a @ dpop j b"
  by (simp add: dpop_def)

lemma stands_append:
  assumes "stands k v S d" and "j \<noteq> k"
  shows "\<exists>a b. dpop j d @ [(j, w)] = a @ (k, v) # b \<and> fst ` set b \<subseteq> insert j S"
proof -
  from assms obtain a b where "d = a @ (k, v) # b" "fst ` set b \<subseteq> S" by (auto simp: stands_def)
  with assms(2) have "dpop j d @ [(j, w)] = dpop j a @ (k, v) # (dpop j b @ [(j, w)])"
    "fst ` set (dpop j b @ [(j, w)]) \<subseteq> insert j S"
    by (auto simp: dpop_def)
  then show ?thesis by blast
qed

lemma stands_step:
  assumes st: "stands k v S d" and ne: "op_key e \<noteq> k" and fin: "finite S"
    and le: "card (insert (op_key e) S) < bound"
  shows "stands k v (insert (op_key e) S) (lru_step bound d e)"
proof (cases e)
  case (Lru_use j)
  show ?thesis
  proof (cases "dget d j")
    case None
    with st Lru_use show ?thesis by (auto simp: stands_def move_to_end_def)
  next
    case (Some w)
    with Lru_use ne stands_append [OF st, of j w] st show ?thesis
      by (simp add: stands_def move_to_end_Some dwf_dpop_app)
  qed
next
  case (Lru_put j w)
  with ne stands_append [OF st, of j w] obtain a b
    where ab: "dpop j d @ [(j, w)] = a @ (k, v) # b" "fst ` set b \<subseteq> insert j S" by auto
  have wf: "dwf (dpop j d @ [(j, w)])" using st by (simp add: stands_def dwf_dpop_app)
  then have "distinct (map fst b)" by (simp add: ab dwf_def)
  then have "length b = card (fst ` set b)" by (metis distinct_card image_set length_map)
  also have "\<dots> \<le> card (insert j S)" using ab(2) fin by (simp add: card_mono)
  finally have "length b < bound" using le Lru_put by simp
  then have n: "Suc (length (dpop j d)) - bound \<le> length a"
    using arg_cong [OF ab(1), of length] by simp
  have "lru_put bound j w d = drop (Suc (length (dpop j d)) - bound) a @ (k, v) # b"
    unfolding lru_put_eq ab(1) using n by simp
  moreover have "dwf (lru_put bound j w d)" using st by (auto simp: stands_def)
  ultimately show ?thesis using ab(2) Lru_put by (auto simp: stands_def)
qed

text \<open>An entry survives as long as fewer than \<open>bound\<close> other keys are used after it.\<close>

theorem lru_survives:
  assumes "stands k v S d" and "finite S" and "k \<notin> set (map op_key es)"
    and "card (S \<union> set (map op_key es)) < bound"
  shows "dget (foldl (lru_step bound) d es) k = Some v"
  using assms
proof (induction es arbitrary: S d)
  case Nil
  then have "dwf d" "(k, v) \<in> set d" by (auto simp: stands_def)
  then show ?case by (simp only: foldl.simps dget_Some_in)
next
  case (Cons e es)
  have "card (insert (op_key e) S) \<le> card (S \<union> set (map op_key (e # es)))"
    by (rule card_mono) (use Cons.prems(2) in auto)
  with Cons.prems have "stands k v (insert (op_key e) S) (lru_step bound d e)"
    by (intro stands_step) auto
  with Cons.IH [of "insert (op_key e) S" "lru_step bound d e"] Cons.prems show ?case by simp
qed

lemma stands_put: "dwf d \<Longrightarrow> 0 < bound \<Longrightarrow> stands k v {} (lru_put bound k v d)"
proof -
  assume wf: "dwf d" and "0 < bound"
  then have "Suc (length (dpop k d)) - bound \<le> length (dpop k d)" by simp
  then have "lru_put bound k v d = drop (Suc (length (dpop k d)) - bound) (dpop k d) @ (k, v) # []"
    by (simp add: lru_put_eq)
  with dwf_lru_put [OF wf] show ?thesis unfolding stands_def by fastforce
qed

lemma lru_step_ok:
  "dwf d \<Longrightarrow> length d \<le> bound \<Longrightarrow> dwf (lru_step bound d e) \<and> length (lru_step bound d e) \<le> bound"
  by (cases e) (auto simp: length_lru_put length_move_to_end)

end
