(* ===== verification/Popcorn.thy ===== *)
theory Popcorn
  imports Fetch Lru Py_Float
begin

text \<open>
  The English lane's upstream conversation, \<^verbatim>\<open>backend/cs_uk_api/providers/popcorn.py\<close>: the guards and
  normalizers of both payload dialects, the URLs, and the client with its session cache of shows.
  Payloads are \<open>json\<close> values, fetches go through \<open>get_json\<close> of the composing provider, and \<open>now\<close> is the
  monotonic clock's reading.
\<close>

section \<open>Payload guards\<close>

definition then_do :: "fault + 'a \<Rightarrow> ('a \<Rightarrow> fault + 'b) \<Rightarrow> fault + 'b" where
  "then_do r f = (case r of Inl e \<Rightarrow> Inl e | Inr a \<Rightarrow> f a)"

lemma then_do_simps [simp]: "then_do (Inl e) f = Inl e" "then_do (Inr a) f = f a"
  by (simp_all add: then_do_def)

text \<open>A list comprehension whose body may raise.\<close>

fun traverse :: "('a \<Rightarrow> fault + 'b) \<Rightarrow> 'a list \<Rightarrow> fault + 'b list" where
  "traverse f [] = Inr []"
| "traverse f (x # xs) = then_do (f x) (\<lambda>y. then_do (traverse f xs) (\<lambda>ys. Inr (y # ys)))"

type_synonym jdict = "(ustr, json) pdict"

definition truthy :: "json \<Rightarrow> bool" where
  "truthy j =
     (case j of
        JNull \<Rightarrow> False | JBool b \<Rightarrow> b | JInt i \<Rightarrow> i \<noteq> 0 | JFloat r \<Rightarrow> r \<noteq> 0 | JStr s \<Rightarrow> s \<noteq> []
      | JList xs \<Rightarrow> xs \<noteq> [] | JObject d \<Rightarrow> d \<noteq> [])"

definition require_object :: "json \<Rightarrow> fault + jdict" where
  "require_object j = (case as_dict j of None \<Rightarrow> Inl parse_failed | Some d \<Rightarrow> Inr d)"

definition require_str :: "ucd \<Rightarrow> json \<Rightarrow> fault + ustr" where
  "require_str U j =
     (case as_str j of None \<Rightarrow> Inl parse_failed | Some s \<Rightarrow> if strip U s = [] then Inl parse_failed else Inr s)"

definition display_title :: "ucd \<Rightarrow> jdict \<Rightarrow> fault + ustr" where
  "display_title U movie =
     (let t = jget movie (u ''title_english'')
      in require_str U (if truthy t then t else jget movie (u ''title'')))"

definition year_of :: "jdict \<Rightarrow> int option" where
  "year_of movie = as_int (jget movie (u ''year''))"

definition genres_of :: "jdict \<Rightarrow> ustr list" where
  "genres_of movie =
     (case as_list (jget movie (u ''genres'')) of
        None \<Rightarrow> []
      | Some gs \<Rightarrow> filter (\<lambda>g. g \<noteq> []) (List.map_filter as_str gs))"

definition str_or_none :: "json \<Rightarrow> ustr option" where
  "str_or_none j = (case as_str j of None \<Rightarrow> None | Some s \<Rightarrow> if s = [] then None else Some s)"

definition poster_of :: "jdict \<Rightarrow> ustr option" where
  "poster_of movie = str_or_none (jget movie (u ''medium_cover_image''))"

text \<open>\<^verbatim>\<open>float(x)\<close> of an integer or a float.\<close>

definition to_float :: "number \<Rightarrow> rat" where
  "to_float n = (case n of Num_int i \<Rightarrow> f_of_int i | Num_float r \<Rightarrow> r)"

definition rating_of :: "jdict \<Rightarrow> rat option" where
  "rating_of movie = map_option to_float (as_number (jget movie (u ''rating'')))"

definition description_of :: "ucd \<Rightarrow> jdict \<Rightarrow> ustr" where
  "description_of U movie =
     (case find (\<lambda>k. case as_str (jget movie k) of None \<Rightarrow> False | Some s \<Rightarrow> strip U s \<noteq> [])
             [u ''description_full'', u ''synopsis'', u ''summary''] of
        None \<Rightarrow> []
      | Some k \<Rightarrow> (case as_str (jget movie k) of None \<Rightarrow> [] | Some s \<Rightarrow> s))"

text \<open>\<^verbatim>\<open>[x for x in xs if isinstance(x, dict)]\<close>.\<close>

definition dicts_of :: "json list \<Rightarrow> jdict list" where
  "dicts_of xs = List.map_filter as_dict xs"

definition torrent_entries_of :: "jdict \<Rightarrow> jdict list" where
  "torrent_entries_of movie = (case as_list (jget movie (u ''torrents'')) of None \<Rightarrow> [] | Some ts \<Rightarrow> dicts_of ts)"

definition data_of :: "json \<Rightarrow> fault + jdict" where
  "data_of payload = then_do (require_object payload) (\<lambda>d. require_object (jget d (u ''data'')))"

definition movies_of_list :: "json \<Rightarrow> fault + jdict list" where
  "movies_of_list payload =
     then_do (data_of payload) (\<lambda>data.
       (case jget data (u ''movies'') of
          JNull \<Rightarrow> Inr []
        | JList ms \<Rightarrow> Inr (dicts_of ms)
        | _ \<Rightarrow> Inl parse_failed))"

definition movie_of_details :: "json \<Rightarrow> fault + jdict" where
  "movie_of_details payload = then_do (data_of payload) (\<lambda>data. require_object (jget data (u ''movie'')))"

record popcorn_movie =
  pm_imdb :: "ustr option"
  pm_title :: ustr
  pm_year :: "int option"
  pm_genres :: "ustr list"
  pm_poster :: "ustr option"
  pm_rating :: "rat option"
  pm_description :: ustr
  pm_torrents :: "jdict list"

definition movie_record :: "ucd \<Rightarrow> jdict \<Rightarrow> fault + popcorn_movie" where
  "movie_record U movie =
     then_do (display_title U movie) (\<lambda>t.
       Inr \<lparr>pm_imdb = as_str (jget movie (u ''imdb_code'')), pm_title = t, pm_year = year_of movie,
            pm_genres = genres_of movie, pm_poster = poster_of movie, pm_rating = rating_of movie,
            pm_description = description_of U movie, pm_torrents = torrent_entries_of movie\<rparr>)"

definition shows_of_page :: "json \<Rightarrow> fault + jdict list" where
  "shows_of_page payload =
     (case payload of JNull \<Rightarrow> Inr [] | JList ss \<Rightarrow> Inr (dicts_of ss) | _ \<Rightarrow> Inl parse_failed)"

definition show_of_details :: "json \<Rightarrow> fault + jdict" where
  "show_of_details payload = require_object payload"

definition episodes_of_show :: "jdict \<Rightarrow> fault + jdict list" where
  "episodes_of_show sh =
     (case as_list (jget sh (u ''episodes'')) of None \<Rightarrow> Inl parse_failed | Some es \<Rightarrow> Inr (dicts_of es))"

definition episode_title :: "ucd \<Rightarrow> jdict \<Rightarrow> ustr \<Rightarrow> ustr" where
  "episode_title U ep fallback =
     (case as_str (jget ep (u ''title'')) of
        None \<Rightarrow> fallback | Some s \<Rightarrow> if strip U s = [] then fallback else s)"

definition episode_overview :: "jdict \<Rightarrow> ustr" where
  "episode_overview ep = (case as_str (jget ep (u ''overview'')) of None \<Rightarrow> [] | Some s \<Rightarrow> s)"

definition show_poster_of :: "jdict \<Rightarrow> ustr option" where
  "show_poster_of sh =
     (case as_dict (jget sh (u ''images'')) of None \<Rightarrow> None | Some d \<Rightarrow> str_or_none (jget d (u ''poster'')))"

text \<open>\<^verbatim>\<open>str.isdigit\<close> accepts more than \<^verbatim>\<open>int\<close> does: the conversion may raise.\<close>

definition show_year_of :: "ucd \<Rightarrow> jdict \<Rightarrow> fault + int option" where
  "show_year_of U sh =
     (case jget sh (u ''year'') of
        JInt i \<Rightarrow> Inr (Some i)
      | JStr s \<Rightarrow>
          if s \<noteq> [] \<and> list_all (digit U) s \<and> length s = 4
          then (case py_int U s of Inl _ \<Rightarrow> Inl Other_fault | Inr n \<Rightarrow> Inr (Some n))
          else Inr None
      | _ \<Rightarrow> Inr None)"

definition number_or_none :: "json \<Rightarrow> rat option" where
  "number_or_none j = (case j of JInt i \<Rightarrow> Some (f_of_int i) | JFloat r \<Rightarrow> Some r | _ \<Rightarrow> None)"

definition show_rating_of :: "jdict \<Rightarrow> rat option" where
  "show_rating_of sh =
     (case jget sh (u ''rating'') of
        JObject d \<Rightarrow> number_or_none (jget d (u ''percentage''))
      | j \<Rightarrow> number_or_none j)"

section \<open>URLs\<close>

text \<open>\<^verbatim>\<open>urlencode\<close>, with \<^verbatim>\<open>quote_plus\<close> on keys and values.\<close>

definition quote_plus :: "ustr \<Rightarrow> ustr" where
  "quote_plus s = concat (map (\<lambda>b. if b = 32 then [43] else quote_byte b) (utf8 s))"

definition urlencode :: "(ustr, ustr) pdict \<Rightarrow> ustr" where
  "urlencode ps = join (u ''&'') (map (\<lambda>(k, v). quote_plus k @ u ''='' @ quote_plus v) ps)"

record popcorn =
  pc_base :: ustr
  pc_movie_base :: ustr
  pc_fetch :: fetcher

definition new_popcorn :: "ucd \<Rightarrow> fetcher \<Rightarrow> ustr option \<Rightarrow> ustr option \<Rightarrow> popcorn" where
  "new_popcorn U F base movie_base =
     \<lparr>pc_base = strip U (case base of None \<Rightarrow> [] | Some b \<Rightarrow> b),
      pc_movie_base = strip U (case movie_base of None \<Rightarrow> [] | Some b \<Rightarrow> b), pc_fetch = F\<rparr>"

definition require_base :: "popcorn \<Rightarrow> fault + ustr" where
  "require_base P = (if pc_base P = [] then Inl unreachable else Inr (pc_base P))"

definition require_movie_base :: "popcorn \<Rightarrow> fault + ustr" where
  "require_movie_base P = (if pc_movie_base P = [] then Inl unreachable else Inr (pc_movie_base P))"

definition movie_list_path :: ustr where "movie_list_path = u ''/api/v2/list_movies.json''"
definition movie_details_path :: ustr where "movie_details_path = u ''/api/v2/movie_details.json''"

definition show_url :: "popcorn \<Rightarrow> ustr \<Rightarrow> ustr" where
  "show_url P imdb = pc_base P @ u ''/show/'' @ imdb"

definition movie_url :: "popcorn \<Rightarrow> ustr \<Rightarrow> fault + ustr" where
  "movie_url P imdb =
     then_do (require_movie_base P) (\<lambda>b. Inr (b @ movie_details_path @ u ''?'' @ urlencode [(u ''imdb_id'', imdb)]))"

section \<open>The conversation\<close>

text \<open>A fetch and what is made of its payload; a URL that cannot be built is not fetched.\<close>

definition fetch_as ::
  "popcorn \<Rightarrow> fault + ustr \<Rightarrow> (json \<Rightarrow> fault + 'a) \<Rightarrow> get_request list \<Rightarrow> (fault + 'a) \<times> get_request list" where
  "fetch_as P link f sent =
     (case link of
        Inl e \<Rightarrow> (Inl e, sent)
      | Inr l \<Rightarrow> (case get_json (pc_fetch P) None l sent of (r, sent') \<Rightarrow> (then_do r f, sent')))"

definition get_shows ::
  "popcorn \<Rightarrow> ustr \<Rightarrow> ustr \<Rightarrow> get_request list \<Rightarrow> (fault + jdict list) \<times> get_request list" where
  "get_shows P pth qry sent =
     fetch_as P (then_do (require_base P) (\<lambda>b. Inr (b @ pth @ u ''?'' @ qry))) shows_of_page sent"

definition shows_path :: "int \<Rightarrow> ustr" where
  "shows_path n = u ''/shows/'' @ dec_int n"

definition search_shows :: "popcorn \<Rightarrow> ustr \<Rightarrow> get_request list \<Rightarrow> (fault + jdict list) \<times> get_request list" where
  "search_shows P q sent = get_shows P (shows_path 1) (u ''sort=name&keywords='' @ quote q) sent"

definition updated_shows :: "popcorn \<Rightarrow> int \<Rightarrow> get_request list \<Rightarrow> (fault + jdict list) \<times> get_request list" where
  "updated_shows P n sent = get_shows P (shows_path n) (u ''sort=updated&order=-1'') sent"

definition show_cache_ttl_s :: rat where "show_cache_ttl_s = 300"
definition show_cache_max :: nat where "show_cache_max = 64"

type_synonym show_cache = "(ustr, rat \<times> jdict) pdict"

definition popcorn_show ::
  "popcorn \<Rightarrow> rat \<Rightarrow> ustr \<Rightarrow> show_cache \<Rightarrow> get_request list \<Rightarrow>
   (fault + jdict option) \<times> show_cache \<times> get_request list" where
  "popcorn_show P now imdb cache sent =
     (let fetched = (case fetch_as P (Inr (show_url P imdb)) show_of_details sent of
            (Inl e, sent') \<Rightarrow> (Inl e, cache, sent')
          | (Inr sh, sent') \<Rightarrow> (Inr (Some sh), lru_put show_cache_max imdb (now, sh) cache, sent'))
      in if pc_base P = [] then (Inr None, cache, sent)
         else case dget cache imdb of
           None \<Rightarrow> fetched
         | Some (ts, sh) \<Rightarrow>
             if f_sub now ts < show_cache_ttl_s then (Inr (Some sh), move_to_end imdb cache, sent) else fetched)"

record movie_listing =
  ml_movies :: "popcorn_movie list"
  ml_movie_count :: "int option"
  ml_limit :: "int option"

definition listing_of :: "ucd \<Rightarrow> json \<Rightarrow> fault + movie_listing" where
  "listing_of U payload =
     then_do (data_of payload) (\<lambda>data.
       then_do (movies_of_list payload) (\<lambda>ms.
         then_do (traverse (movie_record U) ms) (\<lambda>rs.
           Inr \<lparr>ml_movies = rs, ml_movie_count = as_int (jget data (u ''movie_count'')),
                ml_limit = as_int (jget data (u ''limit''))\<rparr>)))"

definition popcorn_movies ::
  "ucd \<Rightarrow> popcorn \<Rightarrow> (ustr, ustr) pdict \<Rightarrow> get_request list \<Rightarrow> (fault + movie_listing) \<times> get_request list" where
  "popcorn_movies U P ps sent =
     fetch_as P (then_do (require_movie_base P) (\<lambda>b. Inr (b @ movie_list_path @ u ''?'' @ urlencode ps)))
       (listing_of U) sent"

definition popcorn_movie_details ::
  "ucd \<Rightarrow> popcorn \<Rightarrow> ustr \<Rightarrow> get_request list \<Rightarrow> (fault + popcorn_movie) \<times> get_request list" where
  "popcorn_movie_details U P imdb sent =
     fetch_as P (movie_url P imdb) (\<lambda>j. then_do (movie_of_details j) (movie_record U)) sent"

section \<open>Listings\<close>

lemma traverse_raises: "x \<in> set xs \<Longrightarrow> f x = Inl e \<Longrightarrow> \<exists>e'. traverse f xs = Inl e'"
proof (induction xs)
  case (Cons y ys)
  show ?case
  proof (cases "f y")
    case (Inr z)
    with Cons.prems have "x \<in> set ys" by auto
    from Cons.IH [OF this Cons.prems(2)] Inr show ?thesis by auto
  qed simp
qed simp

text \<open>One movie without a title sinks the whole listing, although the provider's card builder means to
  skip what it cannot identify.\<close>

theorem untitled_movie_sinks_listing:
  assumes "movies_of_list payload = Inr ms" and "m \<in> set ms" and "display_title U m = Inl parse_failed"
  shows "\<exists>e. listing_of U payload = Inl e"
proof -
  have "movie_record U m = Inl parse_failed" using assms(3) by (simp add: movie_record_def)
  with traverse_raises [OF assms(2)] obtain e where "traverse (movie_record U) ms = Inl e" by blast
  moreover obtain data where "data_of payload = Inr data"
    using assms(1) by (cases "data_of payload") (auto simp: movies_of_list_def)
  ultimately show ?thesis using assms(1) by (simp add: listing_of_def)
qed

definition sample_listing :: json where
  "sample_listing =
     JObject [(u ''data'', JObject [(u ''movie_count'', JInt 2), (u ''limit'', JInt 50),
       (u ''movies'', JList [JObject [(u ''title'', JStr (u ''Dune'')), (u ''imdb_code'', JStr (u ''tt1160419''))],
                             JObject [(u ''imdb_code'', JStr (u ''tt0000001''))]])])]"

theorem untitled_movie_sinks_listing_witness: "\<exists>e. listing_of ua_ucd sample_listing = Inl e"
proof (rule untitled_movie_sinks_listing)
  show "movies_of_list sample_listing = Inr [[(u ''title'', JStr (u ''Dune'')), (u ''imdb_code'', JStr (u ''tt1160419''))],
      [(u ''imdb_code'', JStr (u ''tt0000001''))]]" by code_simp
  show "[(u ''imdb_code'', JStr (u ''tt0000001''))] \<in>
      set [[(u ''title'', JStr (u ''Dune'')), (u ''imdb_code'', JStr (u ''tt1160419''))],
           [(u ''imdb_code'', JStr (u ''tt0000001''))]]" by simp
  show "display_title ua_ucd [(u ''imdb_code'', JStr (u ''tt0000001''))] = Inl parse_failed" by code_simp
qed

section \<open>The session cache\<close>

lemma popcorn_show_hit:
  "pc_base P \<noteq> [] \<Longrightarrow> dget cache imdb = Some (ts, sh) \<Longrightarrow> f_sub now ts < show_cache_ttl_s \<Longrightarrow>
   popcorn_show P now imdb cache sent = (Inr (Some sh), move_to_end imdb cache, sent)"
  by (simp add: popcorn_show_def)

text \<open>A look-up leaves the cache as it is, moves a key or puts one.\<close>

lemma popcorn_show_ops:
  "\<exists>es. fst (snd (popcorn_show P now imdb cache sent)) = foldl (lru_step show_cache_max) cache es \<and>
        set (map op_key es) \<subseteq> {imdb}"
proof -
  have "fst (snd (popcorn_show P now imdb cache sent)) \<in>
      {cache, move_to_end imdb cache} \<union> {lru_put show_cache_max imdb v cache |v. True}"
    by (auto simp: popcorn_show_def Let_def split: option.splits prod.splits sum.splits)
  then consider "fst (snd (popcorn_show P now imdb cache sent)) = foldl (lru_step show_cache_max) cache []"
    | "fst (snd (popcorn_show P now imdb cache sent)) = foldl (lru_step show_cache_max) cache [Lru_use imdb]"
    | v where "fst (snd (popcorn_show P now imdb cache sent)) = foldl (lru_step show_cache_max) cache [Lru_put imdb v]"
    by auto
  then show ?thesis
  proof cases
    case 1
    then show ?thesis by (intro exI [of _ "[]"]) simp
  next
    case 2
    then show ?thesis by (intro exI [of _ "[Lru_use imdb]"]) simp
  next
    case (3 v)
    then show ?thesis by (intro exI [of _ "[Lru_put imdb v]"]) simp
  qed
qed

text \<open>A run of look-ups: the times and the ids.\<close>

definition show_run ::
  "popcorn \<Rightarrow> (rat \<times> ustr) list \<Rightarrow> show_cache \<times> get_request list \<Rightarrow> show_cache \<times> get_request list" where
  "show_run P looks st = foldl (\<lambda>(cache, sent) (now, imdb). snd (popcorn_show P now imdb cache sent)) st looks"

lemma show_run_ops:
  "\<exists>es. fst (show_run P looks st) = foldl (lru_step show_cache_max) (fst st) es \<and>
        set (map op_key es) \<subseteq> snd ` set looks"
proof (induction looks arbitrary: st)
  case Nil
  show ?case by (intro exI [of _ "[]"]) (simp add: show_run_def)
next
  case (Cons l looks)
  obtain now imdb cache sent where l: "l = (now, imdb)" and st: "st = (cache, sent)" by fastforce
  obtain es where es: "fst (snd (popcorn_show P now imdb cache sent)) = foldl (lru_step show_cache_max) cache es"
    "set (map op_key es) \<subseteq> {imdb}" using popcorn_show_ops by blast
  from Cons.IH [of "snd (popcorn_show P now imdb cache sent)"] obtain es' where
    "fst (show_run P looks (snd (popcorn_show P now imdb cache sent))) =
       foldl (lru_step show_cache_max) (fst (snd (popcorn_show P now imdb cache sent))) es'"
    "set (map op_key es') \<subseteq> snd ` set looks" by blast
  with es show ?case
    by (intro exI [of _ "es @ es'"]) (auto simp: l st show_run_def)
qed

text \<open>A show that was fetched is answered from memory, with no request at all, at every later reading of
  the clock inside the TTL, as long as fewer than 64 other shows are looked up in between: playback
  survives an outage of the upstream.\<close>

theorem playback_survives_outage:
  assumes "pc_base P \<noteq> []" and "dwf cache"
    and "fst (fetch_as P (Inr (show_url P imdb)) show_of_details sent) = Inr sh"
    and "dget cache imdb = None"
    and "imdb \<notin> snd ` set looks" and "card (snd ` set looks) < show_cache_max"
    and "f_sub now t < show_cache_ttl_s"
  shows "let st = show_run P looks (snd (popcorn_show P t imdb cache sent)) in
    fst (popcorn_show P now imdb (fst st) sent') = Inr (Some sh) \<and>
    snd (snd (popcorn_show P now imdb (fst st) sent')) = sent'"
proof -
  let ?st = "show_run P looks (snd (popcorn_show P t imdb cache sent))"
  have put: "fst (snd (popcorn_show P t imdb cache sent)) = lru_put show_cache_max imdb (t, sh) cache"
    using assms(1,3,4) by (auto simp: popcorn_show_def Let_def split: prod.splits)
  have stands: "stands imdb (t, sh) {} (lru_put show_cache_max imdb (t, sh) cache)"
    using assms(2) by (rule stands_put) (simp add: show_cache_max_def)
  obtain es where es: "fst ?st = foldl (lru_step show_cache_max) (fst (snd (popcorn_show P t imdb cache sent))) es"
    "set (map op_key es) \<subseteq> snd ` set looks" using show_run_ops by blast
  have "card (set (map op_key es)) \<le> card (snd ` set looks)" by (rule card_mono) (use es(2) in auto)
  then have "card ({} \<union> set (map op_key es)) < show_cache_max" using assms(6) by simp
  moreover have "imdb \<notin> set (map op_key es)" using es(2) assms(5) by blast
  ultimately have "dget (fst ?st) imdb = Some (t, sh)"
    using lru_survives [OF stands] by (simp add: es(1) put)
  from popcorn_show_hit [OF assms(1) this assms(7)] show ?thesis by (simp add: Let_def)
qed

definition sample_popcorn :: popcorn where
  "sample_popcorn =
     \<lparr>pc_base = u ''https://pop.lan'', pc_movie_base = u ''https://yts.gg'',
      pc_fetch = \<lparr>budget = 900, netloc_ok = (\<lambda>_. True),
        fetch_from = (\<lambda>sent rq.
          if sent \<noteq> [] then Transport_fault
          else Answered \<lparr>rs_status = 200, rs_location = None, rs_text = [], rs_json = Parsed (JObject [(u ''title'', JStr (u ''X''))])\<rparr>),
        allowed_hosts = {u ''pop.lan''}\<rparr>\<rparr>"

theorem playback_survives_outage_witness:
  "fst (popcorn_show sample_popcorn 299 (u ''tt0000001'')
     (fst (show_run sample_popcorn [(7, u ''tt0000002'')] (snd (popcorn_show sample_popcorn 0 (u ''tt0000001'') [] [])))) []) =
   Inr (Some [(u ''title'', JStr (u ''X''))])"
proof -
  have f: "fst (fetch_as sample_popcorn (Inr (show_url sample_popcorn (u ''tt0000001''))) show_of_details []) =
      Inr [(u ''title'', JStr (u ''X''))]" by code_simp
  have t: "f_sub 299 0 < show_cache_ttl_s" by code_simp
  have "pc_base sample_popcorn \<noteq> []" by (simp add: sample_popcorn_def u_def)
  then show ?thesis
    using playback_survives_outage [of sample_popcorn "[]" "u ''tt0000001''" "[]" "[(u ''title'', JStr (u ''X''))]"
        "[(7, u ''tt0000002'')]" 299 0 "[]"] f t
    by (simp add: show_cache_max_def Let_def)
qed

end
