(* ===== verification/Torrent_Engine.thy ===== *)
theory Torrent_Engine
  imports Hls_Proxy Fetch
begin

text \<open>
  The torrent engine's adapter, \<^verbatim>\<open>backend/cs_uk_api/torrent_engine.py\<close>: the file and subtitle picks, the
  three HTTP calls of \<^verbatim>\<open>BitPlayClient.ensure_session\<close> and how each answer is blamed, on the torrent, on
  the engine, or on nobody (an exception the callers do not expect).

  BitPlay is an argument: what it answers to a call, given the calls made before it.  The calls are
  threaded as a list.  Strings of its answers are taken to be free of lone surrogates, which
  \<^verbatim>\<open>quote\<close> could not encode.
\<close>

section \<open>The seam\<close>

record engine_stream =
  es_url :: ustr
  es_container :: stream_type
  es_seekable :: bool
  es_subtitle_url :: "ustr option"

text \<open>
  \<open>Rejected r\<close> is \<^verbatim>\<open>EngineRejected\<close> with its \<^verbatim>\<open>retryable\<close> flag, \<open>Unavailable\<close> an \<^verbatim>\<open>EnginePathError\<close>,
  \<open>Unexpected\<close> any other exception.
\<close>

datatype engine_fault = Rejected bool | Unavailable | Unexpected

section \<open>File picks\<close>

definition direct_container_by_ext :: "(ustr, stream_type) pdict" where
  "direct_container_by_ext = [(u ''.mp4'', Mp4), (u ''.m4v'', Mp4), (u ''.mkv'', Mkv), (u ''.webm'', Webm)]"

definition video_extensions :: "ustr list" where
  "video_extensions = dkeys direct_container_by_ext @ map u [''.avi'', ''.mov'', ''.mpg'', ''.mpeg'', ''.ts'', ''.wmv'', ''.flv'']"

text \<open>\<^verbatim>\<open>os.path.splitext\<close>: at the last dot of the last component, unless only dots come before it.\<close>

definition splitext :: "ustr \<Rightarrow> ustr \<times> ustr" where
  "splitext p =
     (let (dir, base) = (case split_last 47 p of None \<Rightarrow> ([], p) | Some (d, b) \<Rightarrow> (d @ [47], b)) in
      case split_last 46 base of
        None \<Rightarrow> (p, [])
      | Some (stem, ext) \<Rightarrow> if list_all (\<lambda>c. c = 46) stem then (p, []) else (dir @ stem, 46 # ext))"

definition ext_of :: "ucd \<Rightarrow> ustr \<Rightarrow> ustr" where
  "ext_of U name = lower U (snd (splitext name))"

text \<open>\<open>None\<close> is the \<^verbatim>\<open>IndexError\<close> of an empty list, which \<^verbatim>\<open>_list_files\<close> never answers.\<close>

definition select_file :: "ucd \<Rightarrow> (int \<times> ustr) list \<Rightarrow> ustr option \<Rightarrow> (int \<times> ustr) option" where
  "select_file U files hint =
     (let hinted = (case hint of
            None \<Rightarrow> None
          | Some h \<Rightarrow> if h = [] then None else find (\<lambda>e. contains (lower U h) (lower U (snd e))) files)
      in case hinted of
           Some e \<Rightarrow> Some e
         | None \<Rightarrow>
             (case find (\<lambda>e. ext_of U (snd e) \<in> set video_extensions) files of
                Some e \<Rightarrow> Some e
              | None \<Rightarrow> (case files of [] \<Rightarrow> None | e # _ \<Rightarrow> Some e)))"

definition subtitle_extensions :: "ustr list" where "subtitle_extensions = [u ''.srt'']"

definition select_subtitle :: "ucd \<Rightarrow> (int \<times> ustr) list \<Rightarrow> int option" where
  "select_subtitle U files =
     (let srts = filter (\<lambda>e. ext_of U (snd e) \<in> set subtitle_extensions) files in
      case srts of
        [] \<Rightarrow> None
      | first # _ \<Rightarrow>
          (case find (\<lambda>e. let stem = lower U (fst (splitext (snd e)))
                           in ends_with (u ''.en'') stem \<or> contains (u ''.en.'') stem) srts of
             Some e \<Rightarrow> Some (fst e)
           | None \<Rightarrow> Some (fst first)))"

section \<open>BitPlay\<close>

datatype engine_call = Add_torrent ustr ustr | List_files ustr | Probe ustr

text \<open>A read timeout is the one \<^verbatim>\<open>HTTPError\<close> the client tells apart.\<close>

datatype engine_answer = Replied int body | Read_timeout | Engine_http_fault | Engine_raises

text \<open>The probe's answer: the chunks that arrive until the stream ends or fails.\<close>

datatype probe_answer = Probed int "nat list list" | Probe_fault | Probe_raises

record bitplay =
  bp_reply :: "engine_call list \<Rightarrow> engine_call \<Rightarrow> engine_answer"
  bp_probe :: "engine_call list \<Rightarrow> ustr \<Rightarrow> probe_answer"

definition ensure_ok :: "int \<Rightarrow> engine_fault option" where
  "ensure_ok status =
     (if 200 \<le> status \<and> status < 300 then None
      else if status \<in> {400, 504} then Some (Rejected (status = 504))
      else Some Unavailable)"

text \<open>\<^verbatim>\<open>resp.json()\<close> is not guarded: a body that is no JSON is a \<^verbatim>\<open>ValueError\<close>.\<close>

definition engine_json :: "body \<Rightarrow> engine_fault + json" where
  "engine_json b = (case b of Parsed j \<Rightarrow> Inr j | Not_json \<Rightarrow> Inl Unexpected | Undecodable \<Rightarrow> Inl Unexpected)"

definition session_id_of :: "json \<Rightarrow> engine_fault + ustr" where
  "session_id_of payload =
     (case as_dict payload of
        None \<Rightarrow> Inl Unavailable
      | Some d \<Rightarrow>
          (case as_str (jget d (u ''sessionId'')) of
             None \<Rightarrow> Inl Unavailable
           | Some s \<Rightarrow> if s = [] then Inl Unavailable else Inr s))"

definition torrent_path :: ustr where "torrent_path = u ''/api/v1/torrent/''"

definition add_torrent ::
  "bitplay \<Rightarrow> ustr \<Rightarrow> ustr \<Rightarrow> engine_call list \<Rightarrow> (engine_fault + ustr) \<times> engine_call list" where
  "add_torrent B base magnet cs =
     (let call = Add_torrent (base @ torrent_path @ u ''add'') magnet; cs' = cs @ [call] in
      case bp_reply B cs call of
        Read_timeout \<Rightarrow> (Inl (Rejected True), cs')
      | Engine_http_fault \<Rightarrow> (Inl Unavailable, cs')
      | Engine_raises \<Rightarrow> (Inl Unexpected, cs')
      | Replied status b \<Rightarrow>
          (case ensure_ok status of
             Some f \<Rightarrow> (Inl f, cs')
           | None \<Rightarrow> (case engine_json b of Inl f \<Rightarrow> (Inl f, cs') | Inr j \<Rightarrow> (session_id_of j, cs'))))"

definition file_entry :: "json \<Rightarrow> (int \<times> ustr) option" where
  "file_entry j =
     (case as_dict j of
        None \<Rightarrow> None
      | Some d \<Rightarrow>
          (case (jget d (u ''index''), jget d (u ''name'')) of
             (JInt i, JStr s) \<Rightarrow> if s = [] then None else Some (i, s)
           | _ \<Rightarrow> None))"

text \<open>The loop over the raw entries: the first malformed one raises.\<close>

fun file_entries :: "json list \<Rightarrow> engine_fault + (int \<times> ustr) list" where
  "file_entries [] = Inr []"
| "file_entries (j # js) =
     (case file_entry j of
        None \<Rightarrow> Inl Unavailable
      | Some e \<Rightarrow> (case file_entries js of Inl f \<Rightarrow> Inl f | Inr es \<Rightarrow> Inr (e # es)))"

definition files_of :: "json \<Rightarrow> engine_fault + (int \<times> ustr) list" where
  "files_of raw =
     (case as_list raw of
        None \<Rightarrow> Inl Unavailable
      | Some js \<Rightarrow> if js = [] then Inl Unavailable else file_entries js)"

definition list_files ::
  "bitplay \<Rightarrow> ustr \<Rightarrow> ustr \<Rightarrow> engine_call list \<Rightarrow> (engine_fault + (int \<times> ustr) list) \<times> engine_call list" where
  "list_files B base sid cs =
     (let call = List_files (base @ torrent_path @ quote sid); cs' = cs @ [call] in
      case bp_reply B cs call of
        Read_timeout \<Rightarrow> (Inl Unavailable, cs')
      | Engine_http_fault \<Rightarrow> (Inl Unavailable, cs')
      | Engine_raises \<Rightarrow> (Inl Unexpected, cs')
      | Replied status b \<Rightarrow>
          (case ensure_ok status of
             Some f \<Rightarrow> (Inl f, cs')
           | None \<Rightarrow> (case engine_json b of Inl f \<Rightarrow> (Inl f, cs') | Inr j \<Rightarrow> (files_of j, cs'))))"

definition speaks :: "probe_answer \<Rightarrow> bool" where
  "speaks a = (case a of Probed status chunks \<Rightarrow> status \<in> {200, 206} \<and> list_ex (\<lambda>c. c \<noteq> []) chunks | _ \<Rightarrow> False)"

definition stream_speaks ::
  "bitplay \<Rightarrow> ustr \<Rightarrow> engine_call list \<Rightarrow> (engine_fault + bool) \<times> engine_call list" where
  "stream_speaks B link cs =
     (case bp_probe B cs link of
        Probe_raises \<Rightarrow> (Inl Unexpected, cs @ [Probe link])
      | a \<Rightarrow> (Inr (speaks a), cs @ [Probe link]))"

definition file_url :: "ustr \<Rightarrow> ustr \<Rightarrow> string \<Rightarrow> int \<Rightarrow> ustr" where
  "file_url base sid kind i = base @ torrent_path @ quote sid @ u ''/'' @ u kind @ u ''/'' @ dec_int i"

text \<open>The stream of a session whose files are known.\<close>

definition session_stream :: "ucd \<Rightarrow> ustr \<Rightarrow> ustr \<Rightarrow> (int \<times> ustr) list \<Rightarrow> int \<times> ustr \<Rightarrow> engine_stream" where
  "session_stream U base sid files pick =
     (let direct = dget direct_container_by_ext (ext_of U (snd pick)) in
      \<lparr>es_url = (case direct of Some _ \<Rightarrow> file_url base sid ''stream'' (fst pick)
                              | None \<Rightarrow> file_url base sid ''remux'' (fst pick)),
       es_container = (case direct of Some c \<Rightarrow> c | None \<Rightarrow> Mp4),
       es_seekable = (direct \<noteq> None),
       es_subtitle_url = map_option (\<lambda>i. file_url base sid ''stream'' i @ u ''?format=vtt'') (select_subtitle U files)\<rparr>)"

definition ensure_session ::
  "ucd \<Rightarrow> bitplay \<Rightarrow> ustr \<Rightarrow> ustr \<Rightarrow> ustr option \<Rightarrow> engine_call list \<Rightarrow>
   (engine_fault + engine_stream) \<times> engine_call list" where
  "ensure_session U B base_url identifier hint cs =
     (let base = rstrip_slash base_url in
      case add_torrent B base identifier cs of
        (Inl f, cs1) \<Rightarrow> (Inl f, cs1)
      | (Inr sid, cs1) \<Rightarrow>
          (case list_files B base sid cs1 of
             (Inl f, cs2) \<Rightarrow> (Inl f, cs2)
           | (Inr files, cs2) \<Rightarrow>
               (case select_file U files hint of
                  None \<Rightarrow> (Inl Unexpected, cs2)
                | Some pick \<Rightarrow>
                    (let s = session_stream U base sid files pick in
                     case stream_speaks B (es_url s) cs2 of
                       (Inl f, cs3) \<Rightarrow> (Inl f, cs3)
                     | (Inr ok, cs3) \<Rightarrow> (if ok then Inr s else Inl (Rejected True), cs3)))))"

section \<open>Configuration and liveness\<close>

record engine_settings =
  torrent_engine_url :: "ustr option"
  torrent_engine_user :: "ustr option"
  torrent_engine_password :: "ustr option"

definition engine_url :: "ucd \<Rightarrow> engine_settings \<Rightarrow> ustr" where
  "engine_url U s = strip U (case torrent_engine_url s of None \<Rightarrow> [] | Some l \<Rightarrow> l)"

definition truthy_str :: "ustr option \<Rightarrow> bool" where
  "truthy_str s \<longleftrightarrow> s \<noteq> None \<and> s \<noteq> Some []"

text \<open>The base URL and the credentials of the client that \<^verbatim>\<open>build_engine_from_settings\<close> makes.\<close>

definition build_engine_from_settings :: "ucd \<Rightarrow> engine_settings \<Rightarrow> (ustr \<times> (ustr \<times> ustr) option) option" where
  "build_engine_from_settings U s =
     (if engine_url U s = [] then None
      else Some (rstrip_slash (engine_url U s),
        (case (torrent_engine_user s, torrent_engine_password s) of
           (Some a, Some b) \<Rightarrow> if a \<noteq> [] \<and> b \<noteq> [] then Some (a, b) else None
         | _ \<Rightarrow> None)))"

definition engine_configured :: "(ustr \<Rightarrow> bool) \<Rightarrow> ucd \<Rightarrow> engine_settings \<Rightarrow> wire_error + bool" where
  "engine_configured V U s =
     (if engine_url U s = [] then Inr False
      else (case urlparse V [] (engine_url U s) of
              Inl e \<Rightarrow> Inl e
            | Inr p \<Rightarrow> Inr (scheme p \<in> {u ''http'', u ''https''})))"

definition engine_half_configured :: "ucd \<Rightarrow> engine_settings \<Rightarrow> bool" where
  "engine_half_configured U s \<longleftrightarrow>
     engine_url U s \<noteq> [] \<and> truthy_str (torrent_engine_user s) \<noteq> truthy_str (torrent_engine_password s)"

section \<open>What a session promises\<close>

definition sid_base :: "ustr \<Rightarrow> ustr \<Rightarrow> ustr" where
  "sid_base base_url sid = rstrip_slash base_url @ torrent_path @ quote sid"

lemma add_torrent_Inr:
  "add_torrent B base m cs = (Inr sid, cs') \<Longrightarrow> cs' = cs @ [Add_torrent (base @ torrent_path @ u ''add'') m]"
  by (auto simp: add_torrent_def Let_def split: engine_answer.splits option.splits sum.splits)

lemma list_files_Inr:
  "list_files B base sid cs = (Inr files, cs') \<Longrightarrow> cs' = cs @ [List_files (base @ torrent_path @ quote sid)]"
  by (auto simp: list_files_def Let_def split: engine_answer.splits option.splits sum.splits)

lemma stream_speaks_Inr:
  "stream_speaks B l cs = (Inr ok, cs') \<Longrightarrow> cs' = cs @ [Probe l] \<and> ok = speaks (bp_probe B cs l)"
  by (auto simp: stream_speaks_def split: probe_answer.splits)

lemma stream_not_remux: "\<not> starts_with (a @ u ''/stream/'') (a @ u ''/remux/'' @ b)"
  by (simp add: starts_with_def u_def)

lemma session_stream_spec:
  fixes U base sid files pick
  defines "s \<equiv> session_stream U base sid files pick" and "d \<equiv> base @ torrent_path @ quote sid"
  shows "starts_with (d @ u ''/'') (es_url s)"
    and "es_seekable s \<longleftrightarrow> starts_with (d @ u ''/stream/'') (es_url s)"
    and "\<not> es_seekable s \<Longrightarrow> es_container s = Mp4"
proof -
  have "starts_with (d @ u ''/'') (d @ u ''/'' @ r)" "starts_with (d @ u ''/stream/'') (d @ u ''/stream/'' @ r)" for r
    by (simp_all only: starts_with_app append_assoc [symmetric])
  then show "starts_with (d @ u ''/'') (es_url s)"
    by (simp add: s_def d_def session_stream_def file_url_def Let_def split: option.splits)
  have sr: "d @ u ''/'' @ u ''stream'' @ u ''/'' @ r = (d @ u ''/stream/'') @ r"
    "d @ u ''/'' @ u ''remux'' @ u ''/'' @ r = d @ u ''/remux/'' @ r" for r
    by (simp_all add: u_def)
  have "es_url s = d @ u ''/'' @ u (if es_seekable s then ''stream'' else ''remux'') @ u ''/'' @ dec_int (fst pick)"
    by (simp add: s_def d_def session_stream_def file_url_def Let_def split: option.splits)
  then show "es_seekable s \<longleftrightarrow> starts_with (d @ u ''/stream/'') (es_url s)"
    using sr stream_not_remux [of d] by (cases "es_seekable s") (simp_all only: if_True if_False starts_with_app simp_thms)
  show "\<not> es_seekable s \<Longrightarrow> es_container s = Mp4"
    by (simp add: s_def session_stream_def Let_def split: option.splits)
qed

text \<open>A stream the adapter answers was probed last, at the very URL it hands out, and spoke; it lies
  under the session's own path, and it is announced seekable exactly when the engine serves its bytes
  natively, a remuxed one being announced as MP4.\<close>

theorem ensured_stream_is_live:
  assumes "ensure_session U B base_url identifier hint cs = (Inr s, cs')"
  shows "\<exists>sid. cs' = cs @ [Add_torrent (rstrip_slash base_url @ torrent_path @ u ''add'') identifier,
        List_files (sid_base base_url sid), Probe (es_url s)]
    \<and> speaks (bp_probe B (butlast cs') (es_url s))
    \<and> starts_with (sid_base base_url sid @ u ''/'') (es_url s)
    \<and> (es_seekable s \<longleftrightarrow> starts_with (sid_base base_url sid @ u ''/stream/'') (es_url s))
    \<and> (es_seekable s \<or> es_container s = Mp4)"
proof -
  let ?base = "rstrip_slash base_url"
  from assms obtain sid cs1 files cs2 pick where
    a: "add_torrent B ?base identifier cs = (Inr sid, cs1)" and
    l: "list_files B ?base sid cs1 = (Inr files, cs2)" and
    p: "stream_speaks B (es_url s) cs2 = (Inr True, cs')" and
    s: "s = session_stream U ?base sid files pick"
    by (auto simp: ensure_session_def Let_def split: prod.splits sum.splits option.splits if_splits)
  have cs2: "cs2 = cs @ [Add_torrent (?base @ torrent_path @ u ''add'') identifier, List_files (sid_base base_url sid)]"
    using add_torrent_Inr [OF a] list_files_Inr [OF l] by (simp add: sid_base_def)
  moreover have "cs' = cs2 @ [Probe (es_url s)]" "speaks (bp_probe B (butlast cs') (es_url s))"
    using stream_speaks_Inr [OF p] by auto
  ultimately show ?thesis
    using session_stream_spec [where base = "?base" and sid = sid and U = U and files = files and pick = pick]
    by (intro exI [of _ sid]) (simp add: s [symmetric] sid_base_def, blast)
qed

definition sample_bitplay :: bitplay where
  "sample_bitplay =
     \<lparr>bp_reply = (\<lambda>_ c. case c of
          Add_torrent _ _ \<Rightarrow> Replied 200 (Parsed (JObject [(u ''sessionId'', JStr (u ''ab''))]))
        | _ \<Rightarrow> Replied 200 (Parsed (JList [JObject [(u ''index'', JInt 0), (u ''name'', JStr (u ''a.txt''))],
            JObject [(u ''index'', JInt 1), (u ''name'', JStr (u ''d/b.mkv''))],
            JObject [(u ''index'', JInt 2), (u ''name'', JStr (u ''b.en.srt''))]]))),
      bp_probe = (\<lambda>_ _. Probed 206 [[], [26, 69]])\<rparr>"

theorem ensured_stream_is_live_witness:
  "\<exists>s cs'. ensure_session ua_ucd sample_bitplay (u ''http://lan:3347/'') (u ''magnet:x'') None [] = (Inr s, cs') \<and>
     es_url s = u ''http://lan:3347/api/v1/torrent/ab/stream/1'' \<and>
     es_subtitle_url s = Some (u ''http://lan:3347/api/v1/torrent/ab/stream/2?format=vtt'') \<and>
     speaks (bp_probe sample_bitplay (butlast cs') (es_url s))"
proof -
  let ?r = "ensure_session ua_ucd sample_bitplay (u ''http://lan:3347/'') (u ''magnet:x'') None []"
  let ?s = "\<lparr>es_url = u ''http://lan:3347/api/v1/torrent/ab/stream/1'', es_container = Mkv, es_seekable = True,
      es_subtitle_url = Some (u ''http://lan:3347/api/v1/torrent/ab/stream/2?format=vtt'')\<rparr>"
  have "fst ?r = Inr ?s" by code_simp
  then obtain cs' where r: "?r = (Inr ?s, cs')" by (cases ?r) auto
  from ensured_stream_is_live [OF r] have "speaks (bp_probe sample_bitplay (butlast cs') (es_url ?s))" by blast
  with r show ?thesis by auto
qed

text \<open>The statuses that blame the torrent, by whether they may be retried.\<close>

definition blames_torrent :: "engine_answer \<Rightarrow> bool \<Rightarrow> bool" where
  "blames_torrent a r \<longleftrightarrow> (\<exists>b. a = Replied (if r then 504 else 400) b)"

lemma ensure_ok_cases: "ensure_ok n = Some (Rejected r) \<longleftrightarrow> n = (if r then 504 else 400)"
  by (auto simp: ensure_ok_def)

lemma session_id_not_rejected: "session_id_of j \<noteq> Inl (Rejected r)"
  by (auto simp: session_id_of_def split: option.splits)

lemma file_entries_not_rejected: "file_entries js \<noteq> Inl (Rejected r)"
  by (induction js) (auto split: option.splits sum.splits)

lemma engine_json_not_rejected: "engine_json b \<noteq> Inl (Rejected r)"
  by (auto simp: engine_json_def split: body.splits)

lemmas not_rejected = session_id_not_rejected file_entries_not_rejected engine_json_not_rejected

lemma add_torrent_rejected:
  "fst (add_torrent B base m cs) = Inl (Rejected r) \<longleftrightarrow>
     (let a = bp_reply B cs (Add_torrent (base @ torrent_path @ u ''add'') m) in blames_torrent a r \<or> r \<and> a = Read_timeout)"
  by (auto simp: add_torrent_def Let_def blames_torrent_def ensure_ok_cases not_rejected
      split: engine_answer.splits option.splits sum.splits)
    (auto simp: ensure_ok_def not_rejected split: if_splits)

lemma list_files_rejected:
  "fst (list_files B base sid cs) = Inl (Rejected r) \<longleftrightarrow>
     blames_torrent (bp_reply B cs (List_files (base @ torrent_path @ quote sid))) r"
  by (auto simp: list_files_def Let_def blames_torrent_def ensure_ok_cases files_of_def not_rejected
      split: engine_answer.splits option.splits sum.splits)
    (auto simp: ensure_ok_def files_of_def not_rejected split: if_splits)

lemma select_file_some: "files \<noteq> [] \<Longrightarrow> select_file U files hint \<noteq> None"
  by (auto simp: select_file_def Let_def split: option.splits list.splits)

lemma file_entries_length: "file_entries js = Inr es \<Longrightarrow> length es = length js"
  by (induction js arbitrary: es) (auto split: option.splits sum.splits)

lemma list_files_nonempty: "list_files B base sid cs = (Inr files, cs') \<Longrightarrow> files \<noteq> []"
  by (auto simp: list_files_def files_of_def Let_def dest: file_entries_length
      split: engine_answer.splits option.splits sum.splits if_splits)

text \<open>What the adapter would hand out once the session is added and its files are listed.\<close>

definition pending_stream ::
  "ucd \<Rightarrow> bitplay \<Rightarrow> ustr \<Rightarrow> ustr \<Rightarrow> ustr option \<Rightarrow> engine_call list \<Rightarrow> (engine_stream \<times> engine_call list) option" where
  "pending_stream U B base_url identifier hint cs =
     (case add_torrent B (rstrip_slash base_url) identifier cs of
        (Inl f, _) \<Rightarrow> None
      | (Inr sid, cs1) \<Rightarrow>
          (case list_files B (rstrip_slash base_url) sid cs1 of
             (Inl f, _) \<Rightarrow> None
           | (Inr files, cs2) \<Rightarrow>
               map_option (\<lambda>pick. (session_stream U (rstrip_slash base_url) sid files pick, cs2)) (select_file U files hint)))"

lemma ensure_session_pending:
  "ensure_session U B base_url identifier hint cs =
     (case add_torrent B (rstrip_slash base_url) identifier cs of
        (Inl f, cs1) \<Rightarrow> (Inl f, cs1)
      | (Inr sid, cs1) \<Rightarrow>
          (case list_files B (rstrip_slash base_url) sid cs1 of
             (Inl f, cs2) \<Rightarrow> (Inl f, cs2)
           | (Inr files, cs2) \<Rightarrow>
               (case pending_stream U B base_url identifier hint cs of
                  None \<Rightarrow> (Inl Unexpected, cs2)
                | Some (s, cs2) \<Rightarrow>
                    (case stream_speaks B (es_url s) cs2 of
                       (Inl f, cs3) \<Rightarrow> (Inl f, cs3)
                     | (Inr ok, cs3) \<Rightarrow> (if ok then Inr s else Inl (Rejected True), cs3)))))"
  by (auto simp: ensure_session_def pending_stream_def Let_def split: prod.splits sum.splits option.splits)

definition silent :: "probe_answer \<Rightarrow> bool" where
  "silent a \<longleftrightarrow> a \<noteq> Probe_raises \<and> \<not> speaks a"

lemma stream_speaks_silent: "fst (stream_speaks B l cs) = Inr False \<longleftrightarrow> silent (bp_probe B cs l)"
  by (auto simp: stream_speaks_def silent_def split: probe_answer.splits)

lemma stream_speaks_not_rejected: "fst (stream_speaks B l cs) \<noteq> Inl (Rejected r)"
  by (auto simp: stream_speaks_def split: probe_answer.splits)

text \<open>Exactly these answers are the torrent's fault: the add timing out, a 400 or a 504 to the add or to
  the listing, or a stream that stays silent; all but the 400 may be retried.\<close>

theorem rejection_causes:
  "fst (ensure_session U B base_url identifier hint cs) = Inl (Rejected r) \<longleftrightarrow>
     (let add = Add_torrent (rstrip_slash base_url @ torrent_path @ u ''add'') identifier in
      blames_torrent (bp_reply B cs add) r \<or>
      r \<and> bp_reply B cs add = Read_timeout \<or>
      (\<exists>sid. fst (add_torrent B (rstrip_slash base_url) identifier cs) = Inr sid \<and>
         blames_torrent (bp_reply B (cs @ [add]) (List_files (sid_base base_url sid))) r) \<or>
      r \<and> (\<exists>s cs2. pending_stream U B base_url identifier hint cs = Some (s, cs2) \<and> silent (bp_probe B cs2 (es_url s))))"
proof -
  let ?b = "rstrip_slash base_url"
  let ?add = "Add_torrent (?b @ torrent_path @ u ''add'') identifier"
  obtain ra cs1 where a: "add_torrent B ?b identifier cs = (ra, cs1)" by force
  show ?thesis
  proof (cases ra)
    case (Inl f)
    with a add_torrent_rejected [of B "?b" "identifier" cs r] show ?thesis
      by (auto simp: ensure_session_pending pending_stream_def Let_def)
  next
    case (Inr sid)
    then have cs1: "cs1 = cs @ [?add]" using a add_torrent_Inr by blast
    have na: "\<not> blames_torrent (bp_reply B cs ?add) r" "\<not> (r \<and> bp_reply B cs ?add = Read_timeout)"
      using a Inr add_torrent_rejected [of B "?b" "identifier" cs r] by (auto simp: Let_def)
    obtain rl cs2 where l: "list_files B ?b sid cs1 = (rl, cs2)" by force
    have lr: "rl = Inl (Rejected r) \<longleftrightarrow> blames_torrent (bp_reply B (cs @ [?add]) (List_files (sid_base base_url sid))) r"
      using list_files_rejected [of B "?b" sid cs1 r] l by (simp add: cs1 sid_base_def)
    show ?thesis
    proof (cases rl)
      case (Inl f)
      with a l lr na \<open>ra = Inr sid\<close> show ?thesis
        by (auto simp: ensure_session_pending pending_stream_def Let_def)
    next
      case (Inr files)
      with l list_files_nonempty [of B "?b" sid cs1] select_file_some [of files U hint] obtain pick
        where "select_file U files hint = Some pick" by auto
      with a l Inr \<open>ra = Inr sid\<close> obtain s where p: "pending_stream U B base_url identifier hint cs = Some (s, cs2)"
        by (simp add: pending_stream_def)
      obtain rp cs3 where s: "stream_speaks B (es_url s) cs2 = (rp, cs3)" by force
      have "rp \<noteq> Inl (Rejected r)" "rp = Inr False \<longleftrightarrow> silent (bp_probe B cs2 (es_url s))"
        using stream_speaks_not_rejected [of B "es_url s" cs2 r] stream_speaks_silent [of B "es_url s" cs2] s
        by simp_all
      with a l lr na p s Inr \<open>ra = Inr sid\<close> show ?thesis
        by (auto simp: ensure_session_pending Let_def split: sum.splits)
    qed
  qed
qed

text \<open>A success status with a body that is no JSON is none of the adapter's typed verdicts: the parse
  error escapes \<open>ensure_session\<close>.\<close>

theorem garbled_reply_escapes:
  assumes "bp_reply B cs (Add_torrent (rstrip_slash base_url @ torrent_path @ u ''add'') identifier) = Replied 200 Not_json"
  shows "fst (ensure_session U B base_url identifier hint cs) = Inl Unexpected"
  using assms by (simp add: ensure_session_def add_torrent_def ensure_ok_def engine_json_def Let_def)

theorem garbled_reply_escapes_witness:
  "fst (ensure_session ua_ucd \<lparr>bp_reply = (\<lambda>_ _. Replied 200 Not_json), bp_probe = (\<lambda>_ _. Probe_fault)\<rparr>
     (u ''http://lan'') (u ''magnet:x'') None []) = Inl Unexpected"
  by (rule garbled_reply_escapes) simp

end
