(* ===== verification/Torrent_Lane.thy ===== *)
theory Torrent_Lane
  imports Torrent_Engine "HOL-Library.Product_Lexorder"
begin

text \<open>
  The torrent lane's conversation, \<^verbatim>\<open>backend/cs_uk_api/torrent_lane.py\<close>: candidates from raw entries, the
  quality policy, the bounded fallback over an engine, the magnets, the wire shape and the grammar of
  the playable ids.  The engine is the seam \<^verbatim>\<open>TorrentEngine\<close>: any function of an identifier, a file hint and
  a state of its own; \<open>Torrent_Engine\<close> is the one the program installs.

  The specification of a play is the protocol \<open>conversation\<close>: which calls may follow which answers, and
  what they entitle the caller to.
\<close>

section \<open>Candidates and policy\<close>

record torrent_candidate =
  quality :: ustr
  info_hash :: ustr
  seeds :: int

definition quality_preference :: "ustr list" where
  "quality_preference = [u ''1080p'', u ''720p'']"

definition max_session_attempts :: nat where "max_session_attempts = 3"
definition same_candidate_attempts :: nat where "same_candidate_attempts = 2"

text \<open>\<^verbatim>\<open>index\<close>, or the length when it raises.\<close>

definition quality_rank :: "ustr \<Rightarrow> nat" where
  "quality_rank q = length (takeWhile (\<lambda>p. p \<noteq> q) quality_preference)"

definition policy_key :: "torrent_candidate \<Rightarrow> nat \<times> int" where
  "policy_key c = (quality_rank (quality c), - seeds c)"

text \<open>\<^verbatim>\<open>min(candidates, key=_policy_key)\<close> replaces its pick only by a smaller one.\<close>

definition better :: "torrent_candidate \<Rightarrow> torrent_candidate \<Rightarrow> torrent_candidate" where
  "better b c = (if policy_key c < policy_key b then c else b)"

definition select_torrent :: "torrent_candidate list \<Rightarrow> torrent_candidate option" where
  "select_torrent cs = (case cs of [] \<Rightarrow> None | c # r \<Rightarrow> Some (foldl better c r))"

definition seeds_of :: "json \<Rightarrow> int" where
  "seeds_of j = (case j of JInt i \<Rightarrow> i | _ \<Rightarrow> 0)"

definition nonempty_str :: "json \<Rightarrow> ustr option" where
  "nonempty_str j = (case j of JStr s \<Rightarrow> if s = [] then None else Some s | _ \<Rightarrow> None)"

definition torrent_candidate_of :: "json \<Rightarrow> torrent_candidate option" where
  "torrent_candidate_of entry =
     (case as_dict entry of
        None \<Rightarrow> None
      | Some d \<Rightarrow>
          (case (nonempty_str (jget d (u ''quality'')), nonempty_str (jget d (u ''hash''))) of
             (Some q, Some h) \<Rightarrow> Some \<lparr>quality = q, info_hash = h, seeds = seeds_of (jget d (u ''seeds''))\<rparr>
           | _ \<Rightarrow> None))"

definition torrent_candidates :: "json list \<Rightarrow> torrent_candidate list" where
  "torrent_candidates torrents = List.map_filter torrent_candidate_of torrents"

section \<open>Playing\<close>

definition trackers :: "ustr list" where
  "trackers =
     [u ''udp://tracker.opentrackr.org:1337/announce'',
      u ''udp://tracker.openbittorrent.com:6969/announce'',
      u ''udp://exodus.desync.com:6969/announce'']"

definition build_magnet :: "ustr \<Rightarrow> ustr" where
  "build_magnet h =
     u ''magnet:?xt=urn:btih:'' @ h @ u ''&'' @ join (u ''&'') (map (\<lambda>t. u ''tr='' @ quote t) trackers)"

definition identifier_of :: "torrent_candidate \<Rightarrow> ustr" where
  "identifier_of c =
     (if starts_with (u ''magnet:'') (info_hash c) then info_hash c else build_magnet (info_hash c))"

record torrent_stream = stream +
  st_seekable :: "bool option"
  st_subtitle_url :: "ustr option"

definition torrent_stream_response :: "engine_stream \<Rightarrow> torrent_stream" where
  "torrent_stream_response r =
     \<lparr>st_url = es_url r, st_type = es_container r, st_headers = [], st_allowed = {},
      st_seekable = Some (es_seekable r), st_subtitle_url = es_subtitle_url r\<rparr>"

type_synonym engine_answer_t = "engine_fault + engine_stream"
type_synonym 'e engine = "ustr \<Rightarrow> ustr option \<Rightarrow> 'e \<Rightarrow> engine_answer_t \<times> 'e"

definition engine_path_fault :: fault where
  "engine_path_fault = Provider_fault (u ''unreachable'') True"

text \<open>What the tries of one candidate end in: a stream, the next candidate, or an exception.\<close>

datatype verdict = Served engine_stream | Spent | Raised fault

text \<open>The inner loop, with the number of tries left.\<close>

fun try_same :: "'e engine \<Rightarrow> ustr \<Rightarrow> ustr option \<Rightarrow> nat \<Rightarrow> 'e \<Rightarrow> verdict \<times> 'e" where
  "try_same eng i hint 0 e = (Spent, e)"
| "try_same eng i hint (Suc n) e =
     (case eng i hint e of
        (Inr s, e') \<Rightarrow> (Served s, e')
      | (Inl (Rejected retryable), e') \<Rightarrow>
          if retryable \<and> 0 < n then try_same eng i hint n e' else (Spent, e')
      | (Inl Unavailable, e') \<Rightarrow> (Raised engine_path_fault, e')
      | (Inl Unexpected, e') \<Rightarrow> (Raised Other_fault, e'))"

fun try_candidates ::
  "'e engine \<Rightarrow> ustr option \<Rightarrow> torrent_candidate list \<Rightarrow> 'e \<Rightarrow> (fault + torrent_stream) \<times> 'e" where
  "try_candidates eng hint [] e = (Inl not_found, e)"
| "try_candidates eng hint (c # cs) e =
     (case try_same eng (identifier_of c) hint same_candidate_attempts e of
        (Served s, e') \<Rightarrow> (Inr (torrent_stream_response s), e')
      | (Spent, e') \<Rightarrow> try_candidates eng hint cs e'
      | (Raised f, e') \<Rightarrow> (Inl f, e'))"

definition play_torrent ::
  "'e engine \<Rightarrow> torrent_candidate list \<Rightarrow> ustr option \<Rightarrow> 'e \<Rightarrow> (fault + torrent_stream) \<times> 'e" where
  "play_torrent eng cs hint e =
     try_candidates eng hint (take max_session_attempts (sort_key policy_key cs)) e"

section \<open>Playable ids\<close>

definition yts_id :: ustr where "yts_id = u ''yts''"

definition parse_stream_content_id :: "ucd \<Rightarrow> ustr \<Rightarrow> fault + ustr \<times> int option" where
  "parse_stream_content_id U i =
     (if is_movie_wire_id i then
        (let external = remove_prefix (u ''yts:'') (strip_movie_suffix i)
         in if imdb_re U external then Inr (external, None) else Inl not_found)
      else if split_episode_tail U i \<noteq> None then
        (case parse_playable_id U (imdb_re U) yts_id i of
           Inl _ \<Rightarrow> Inl Other_fault
         | Inr None \<Rightarrow> Inl not_found
         | Inr (Some (imdb, season)) \<Rightarrow> Inr (imdb, season))
      else
        (let candidate = remove_prefix (u ''yts:'') i
         in if imdb_re U candidate then Inr (candidate, None) else Inl not_found))"

section \<open>The pick is the first candidate tried\<close>

lemma foldl_better: "foldl better c cs = hd (sort_key policy_key (c # cs))"
proof (induction cs rule: rev_induct)
  case (snoc x cs)
  have snoc_hd: "hd (sort_key policy_key (ys @ [x])) =
      (if policy_key x < policy_key (hd (sort_key policy_key ys)) then x else hd (sort_key policy_key ys))"
    if "ys \<noteq> []" for ys
    using that
  proof (induction ys)
    case (Cons y ys)
    show ?case
    proof (cases "ys = []")
      case False
      have ne: "sort_key policy_key zs \<noteq> []" if "zs \<noteq> []" for zs :: "torrent_candidate list"
        using that by (metis length_0_conv length_sort)
      from False Cons.IH show ?thesis
        using ne [of ys] ne [of "ys @ [x]"]
        by (cases "sort_key policy_key ys"; cases "sort_key policy_key (ys @ [x])") auto
    qed auto
  qed simp
  show ?case using snoc.IH snoc_hd [of "c # cs"] by (simp add: better_def)
qed simp

text \<open>The server-side pick is the candidate the fallback tries first.\<close>

theorem select_is_first_tried:
  "select_torrent cs = (case take max_session_attempts (sort_key policy_key cs) of [] \<Rightarrow> None | c # _ \<Rightarrow> Some c)"
proof (cases cs)
  case (Cons c r)
  then have "sort_key policy_key cs \<noteq> []" by (metis length_0_conv length_sort list.distinct(1))
  then obtain x xs where x: "sort_key policy_key cs = x # xs" by (cases "sort_key policy_key cs") auto
  with foldl_better [of c r] Cons show ?thesis
    by (simp add: select_torrent_def max_session_attempts_def del: sort_key_simps)
qed (simp add: select_torrent_def)

lemma foldl_better_spec:
  "\<exists>a b. c # cs = a @ foldl better c cs # b \<and> (\<forall>x \<in> set a. policy_key (foldl better c cs) < policy_key x) \<and>
     (\<forall>x \<in> set b. policy_key (foldl better c cs) \<le> policy_key x)"
proof (induction cs rule: rev_induct)
  case (snoc x cs)
  then obtain a b where ab: "c # cs = a @ foldl better c cs # b"
    "\<forall>y \<in> set a. policy_key (foldl better c cs) < policy_key y"
    "\<forall>y \<in> set b. policy_key (foldl better c cs) \<le> policy_key y" by blast
  show ?case
  proof (cases "policy_key x < policy_key (foldl better c cs)")
    case True
    then have f: "foldl better c (cs @ [x]) = x" by (simp add: better_def)
    have "\<forall>y \<in> set (c # cs). policy_key x < policy_key y"
      using ab(2,3) True unfolding ab(1) by (auto intro: less_trans less_le_trans)
    then have "c # cs @ [x] = (c # cs) @ foldl better c (cs @ [x]) # [] \<and>
        (\<forall>y \<in> set (c # cs). policy_key (foldl better c (cs @ [x])) < policy_key y) \<and>
        (\<forall>y \<in> set []. policy_key (foldl better c (cs @ [x])) \<le> policy_key y)"
      unfolding f by simp
    then show ?thesis by blast
  next
    case False
    then have f: "foldl better c (cs @ [x]) = foldl better c cs" by (simp add: better_def)
    have "c # cs @ [x] = a @ foldl better c cs # (b @ [x])" using ab(1) by simp
    with ab(2,3) False show ?thesis unfolding f
      by (intro exI [of _ a] exI [of _ "b @ [x]"]) (auto simp: not_less)
  qed
qed (auto intro: exI [of _ "[]"])

text \<open>Nothing upstream lists beats the pick, and nothing it lists before the pick equals it.\<close>

theorem pick_is_policy_best:
  assumes "select_torrent cs = Some c"
  shows "\<exists>a b. cs = a @ c # b \<and> (\<forall>x \<in> set a. policy_key c < policy_key x) \<and> (\<forall>x \<in> set b. policy_key c \<le> policy_key x)"
  using assms foldl_better_spec by (auto simp: select_torrent_def split: list.splits)

definition sample_candidates :: "torrent_candidate list" where
  "sample_candidates =
     [\<lparr>quality = u ''2160p'', info_hash = u ''A'', seeds = 900\<rparr>, \<lparr>quality = u ''720p'', info_hash = u ''B'', seeds = 50\<rparr>,
      \<lparr>quality = u ''1080p'', info_hash = u ''C'', seeds = 3\<rparr>, \<lparr>quality = u ''1080p'', info_hash = u ''D'', seeds = 3\<rparr>]"

theorem pick_is_policy_best_witness:
  "\<exists>a b. sample_candidates = a @ sample_candidates ! 2 # b \<and>
     (\<forall>x \<in> set a. policy_key (sample_candidates ! 2) < policy_key x)"
proof -
  have "select_torrent sample_candidates = Some (sample_candidates ! 2)" by code_simp
  from pick_is_policy_best [OF this] show ?thesis by blast
qed

section \<open>The conversation with the engine\<close>

text \<open>An engine that also keeps the calls it was asked and what it answered.\<close>

type_synonym trace = "(ustr \<times> engine_answer_t) list"

definition traced :: "'e engine \<Rightarrow> ('e \<times> trace) engine" where
  "traced eng i hint e = (case eng i hint (fst e) of (a, e') \<Rightarrow> (a, (e', snd e @ [(i, a)])))"

text \<open>The answers that give a candidate up, and the ones that end the play, with its outcome.\<close>

definition dead_answers :: "engine_answer_t list \<Rightarrow> bool" where
  "dead_answers as \<longleftrightarrow> as = [Inl (Rejected False)] \<or> (\<exists>b. as = [Inl (Rejected True), Inl (Rejected b)])"

definition outcome :: "engine_answer_t \<Rightarrow> (fault + torrent_stream) option" where
  "outcome a =
     (case a of
        Inr s \<Rightarrow> Some (Inr (torrent_stream_response s))
      | Inl (Rejected _) \<Rightarrow> None
      | Inl Unavailable \<Rightarrow> Some (Inl engine_path_fault)
      | Inl Unexpected \<Rightarrow> Some (Inl Other_fault))"

definition final_answers :: "engine_answer_t list \<Rightarrow> (fault + torrent_stream) \<Rightarrow> bool" where
  "final_answers as r \<longleftrightarrow> (\<exists>a. outcome a = Some r \<and> (as = [a] \<or> as = [Inl (Rejected True), a]))"

text \<open>The protocol: the candidates in turn, each given up only on its own dead answers.\<close>

inductive conversation :: "torrent_candidate list \<Rightarrow> trace \<Rightarrow> (fault + torrent_stream) \<Rightarrow> bool" where
  Exhausted: "conversation [] [] (Inl not_found)"
| Next_candidate: "dead_answers as \<Longrightarrow> conversation cs tr r \<Longrightarrow>
    conversation (c # cs) (map (Pair (identifier_of c)) as @ tr) r"
| Ended: "final_answers as r \<Longrightarrow> conversation (c # cs) (map (Pair (identifier_of c)) as) r"

inductive_cases conversation_NilE: "conversation [] tr r"
inductive_cases conversation_ConsE: "conversation (c # cs) tr r"

text \<open>One candidate: its answers and what they lead to.\<close>

definition verdict_of :: "engine_answer_t \<Rightarrow> verdict" where
  "verdict_of a =
     (case a of
        Inr s \<Rightarrow> Served s
      | Inl (Rejected _) \<Rightarrow> Spent
      | Inl Unavailable \<Rightarrow> Raised engine_path_fault
      | Inl Unexpected \<Rightarrow> Raised Other_fault)"

lemma try_same_two:
  "eng i hint e = (a, e1) \<Longrightarrow> eng i hint e1 = (b, e2) \<Longrightarrow>
   try_same eng i hint same_candidate_attempts e =
     (if a = Inl (Rejected True) then (verdict_of b, e2) else (verdict_of a, e1))"
  by (auto simp: same_candidate_attempts_def numeral_2_eq_2 verdict_of_def split: sum.splits engine_fault.splits)

lemma verdict_answers:
  "as = [a] \<and> a \<noteq> Inl (Rejected True) \<or> as = [Inl (Rejected True), a] \<Longrightarrow>
   (case verdict_of a of
      Served s \<Rightarrow> final_answers as (Inr (torrent_stream_response s))
    | Spent \<Rightarrow> dead_answers as
    | Raised f \<Rightarrow> final_answers as (Inl f))"
  by (auto simp: verdict_of_def dead_answers_def final_answers_def outcome_def split: sum.splits engine_fault.splits)

lemma try_same_traced:
  "\<exists>as. try_same (traced eng) i hint same_candidate_attempts (e, tr) =
      (fst (try_same eng i hint same_candidate_attempts e),
       (snd (try_same eng i hint same_candidate_attempts e), tr @ map (Pair i) as))
    \<and> (case fst (try_same eng i hint same_candidate_attempts e) of
          Served s \<Rightarrow> final_answers as (Inr (torrent_stream_response s))
        | Spent \<Rightarrow> dead_answers as
        | Raised f \<Rightarrow> final_answers as (Inl f))"
proof -
  obtain a e1 where a: "eng i hint e = (a, e1)" by force
  obtain b e2 where b: "eng i hint e1 = (b, e2)" by force
  have ta: "traced eng i hint (e, tr) = (a, (e1, tr @ [(i, a)]))" by (simp add: traced_def a)
  have tb: "traced eng i hint (e1, tr @ [(i, a)]) = (b, (e2, tr @ [(i, a), (i, b)]))" by (simp add: traced_def b)
  show ?thesis
    unfolding try_same_two [of eng, OF a b] try_same_two [of "traced eng", OF ta tb]
    by (cases "a = Inl (Rejected True)")
      (use verdict_answers [of "[a]" a] verdict_answers [of "[a, b]" b] in
        \<open>force intro: exI [of _ "[a, b]"], force intro: exI [of _ "[a]"]\<close>)
qed

lemma try_candidates_conversation:
  "\<exists>tr' e'. try_candidates (traced eng) hint cs (e, tr) = (fst (try_candidates eng hint cs e), (e', tr @ tr'))
     \<and> conversation cs tr' (fst (try_candidates eng hint cs e))"
proof (induction cs arbitrary: e tr)
  case Nil
  show ?case by (simp add: Exhausted)
next
  case (Cons c cs)
  obtain w e1 where w: "try_same eng (identifier_of c) hint same_candidate_attempts e = (w, e1)" by force
  with try_same_traced [of eng "identifier_of c" hint e tr] obtain as where
    t: "try_same (traced eng) (identifier_of c) hint same_candidate_attempts (e, tr) =
        (w, (e1, tr @ map (Pair (identifier_of c)) as))" and
    v: "case w of Served s \<Rightarrow> final_answers as (Inr (torrent_stream_response s))
        | Spent \<Rightarrow> dead_answers as | Raised f \<Rightarrow> final_answers as (Inl f)"
    by auto
  show ?case
  proof (cases w)
    case Spent
    obtain tr' e' where
      "try_candidates (traced eng) hint cs (e1, tr @ map (Pair (identifier_of c)) as) =
        (fst (try_candidates eng hint cs e1), (e', (tr @ map (Pair (identifier_of c)) as) @ tr'))"
      "conversation cs tr' (fst (try_candidates eng hint cs e1))"
      using Cons.IH [of e1 "tr @ map (Pair (identifier_of c)) as"] by blast
    with Spent t w v show ?thesis by (auto intro: Next_candidate)
  qed (use t w v in \<open>auto intro: Ended\<close>)
qed

text \<open>An engine that gives every call the same answer.\<close>

lemma try_same_constant:
  assumes "\<And>i h e. fst (eng i h e) = a"
  shows "fst (try_same eng i hint same_candidate_attempts e) = verdict_of a"
proof -
  obtain e1 where "eng i hint e = (a, e1)" using assms [of i hint e] by (cases "eng i hint e") auto
  moreover obtain e2 where "eng i hint e1 = (a, e2)" using assms [of i hint e1] by (cases "eng i hint e1") auto
  ultimately show ?thesis by (simp add: try_same_two)
qed

lemma try_candidates_constant:
  assumes "\<And>i h e. fst (eng i h e) = a"
  shows "fst (try_candidates eng hint cs e) =
    (if cs = [] then Inl not_found else case outcome a of Some r \<Rightarrow> r | None \<Rightarrow> Inl not_found)"
proof (induction cs arbitrary: e)
  case (Cons c cs)
  have "fst (try_same eng (identifier_of c) hint same_candidate_attempts e) = verdict_of a"
    using assms by (rule try_same_constant)
  then obtain e' where "try_same eng (identifier_of c) hint same_candidate_attempts e = (verdict_of a, e')"
    by (cases "try_same eng (identifier_of c) hint same_candidate_attempts e") auto
  then show ?case
    using Cons.IH by (auto simp: verdict_of_def outcome_def split: sum.splits engine_fault.splits)
qed simp

lemma play_torrent_constant:
  assumes "\<And>i h e. fst (eng i h e) = a" and "cs \<noteq> []"
  shows "fst (play_torrent eng cs hint e) = (case outcome a of Some r \<Rightarrow> r | None \<Rightarrow> Inl not_found)"
proof -
  have "sort_key policy_key cs \<noteq> []" using assms(2) by (metis length_0_conv length_sort)
  then show ?thesis
    by (simp add: play_torrent_def try_candidates_constant [OF assms(1)] max_session_attempts_def)
qed

text \<open>C36: A play follows the protocol over the first three candidates of the policy order: a candidate is
  called again only after one rejection that may be retried, the next one is called only when it is
  dead, a stream is answered as soon as the engine gives one, an engine fault ends the play tagged as
  the engine's, and \<^verbatim>\<open>not_found\<close> is answered only when all three were dead.\<close>

theorem play_torrent_conversation:
  "\<exists>tr e'. play_torrent (traced eng) cs hint (e, []) = (fst (play_torrent eng cs hint e), (e', tr))
     \<and> conversation (take max_session_attempts (sort_key policy_key cs)) tr (fst (play_torrent eng cs hint e))"
  using try_candidates_conversation [of eng hint _ e "[]"] by (simp add: play_torrent_def)

lemma conversation_length: "conversation cs tr r \<Longrightarrow> length tr \<le> 2 * length cs"
  by (induction rule: conversation.induct) (auto simp: dead_answers_def final_answers_def)

lemma conversation_identifiers: "conversation cs tr r \<Longrightarrow> fst ` set tr \<subseteq> identifier_of ` set cs"
  by (induction rule: conversation.induct) auto

text \<open>Whatever upstream lists and whatever the engine does, one play makes at most six engine calls, and
  none for a candidate outside the list.\<close>

theorem play_is_bounded:
  "length (snd (snd (play_torrent (traced eng) cs hint (e, [])))) \<le> 6
   \<and> fst ` set (snd (snd (play_torrent (traced eng) cs hint (e, [])))) \<subseteq> identifier_of ` set cs"
proof -
  obtain tr e' where p: "play_torrent (traced eng) cs hint (e, []) = (fst (play_torrent eng cs hint e), (e', tr))"
    "conversation (take max_session_attempts (sort_key policy_key cs)) tr (fst (play_torrent eng cs hint e))"
    using try_candidates_conversation [of eng hint "take max_session_attempts (sort_key policy_key cs)" e "[]"]
    by (auto simp: play_torrent_def)
  have "length (take max_session_attempts (sort_key policy_key cs)) \<le> 3" by (simp add: max_session_attempts_def)
  then have "length tr \<le> 6" using conversation_length [OF p(2)] by linarith
  moreover have "set (take max_session_attempts (sort_key policy_key cs)) \<subseteq> set cs"
    by (metis set_sort set_take_subset)
  then have "fst ` set tr \<subseteq> identifier_of ` set cs"
    using conversation_identifiers [OF p(2)] by blast
  ultimately show ?thesis by (simp add: p(1))
qed

section \<open>Spellings of a playable id\<close>

lemma yts_prefix: "yts_id @ u '':'' = u ''yts:''" "58 \<notin> set yts_id"
  by (simp_all add: yts_id_def u_def)

lemma no_colon_not_movie: "58 \<notin> set i \<Longrightarrow> \<not> is_movie_wire_id i"
  by (auto simp: is_movie_wire_id_def ends_with_iff movie_suffix_def u_def)

lemma no_colon_no_tail: "58 \<notin> set i \<Longrightarrow> split_episode_tail U i = None"
  using find_tail_skip [of i U "[]"] by (simp add: split_episode_tail_def)

lemma yts_scoped:
  assumes "ucd_ok U" and "imdb_re U ext"
  shows "\<not> is_movie_wire_id (u ''yts:'' @ ext)" and "split_episode_tail U (u ''yts:'' @ ext) = None"
proof -
  have ext: "58 \<notin> set ext" "\<exists>r. ext = 116 # r" using imdb_chars [OF assms(1)] assms(2) by (auto simp: imdb_re_def)
  show "\<not> is_movie_wire_id (u ''yts:'' @ ext)"
  proof
    assume "is_movie_wire_id (u ''yts:'' @ ext)"
    then obtain t where t: "u ''yts:'' @ ext = t @ movie_suffix" by (auto simp: is_movie_wire_id_def ends_with_iff)
    have ne: "ext \<noteq> []" using ext(2) by auto
    then have "last ext = last (u ''yts:'' @ ext)" by simp
    also have "\<dots> = 95" unfolding t by (simp add: movie_suffix_def u_def)
    finally have "95 \<in> set ext" using last_in_set [OF ne] by simp
    moreover have "set ext \<subseteq> set (take 2 ext) \<union> set (drop 2 ext)" by (metis append_take_drop_id set_append subset_refl)
    moreover have "95 \<notin> set (take 2 ext)" using assms(2)
      by (simp add: imdb_re_def imdb_shape_def starts_with_def u_def numeral_2_eq_2)
    ultimately have "95 \<in> set (drop 2 ext)" by blast
    then show False
      using assms ascii_not_decimal [OF assms(1), of 95]
      by (auto simp: imdb_re_def imdb_shape_def list_all_iff ascii_digit_def)
  qed
  have f: "find_tail U ext = None" using no_colon_no_tail [OF ext(1)] by (simp add: split_episode_tail_def)
  have "find_tail U (u ''yts:'' @ ext) = map_option (\<lambda>(x, y). (yts_id @ x, y)) (find_tail U (58 # ext))"
    using find_tail_skip [OF yts_prefix(2), of U "58 # ext"] by (simp add: yts_prefix(1) [symmetric]) (simp add: u_def)
  also have "find_tail U (58 # ext) = None"
    using ext(2) f by (auto simp: episode_tail_at_def e_part_def)
  finally show "split_episode_tail U (u ''yts:'' @ ext) = None" by (simp add: split_episode_tail_def)
qed

lemma parse_stream_episode:
  assumes "ucd_ok U" and "imdb_re U ext"
    and "length (dec_nat m) \<le> max_str_digits" and "length (dec_nat n) \<le> max_str_digits"
  shows "parse_stream_content_id U (episode_wire_id yts_id ext (int m) (int n)) = Inr (ext, Some (int m))"
    and "parse_stream_content_id U (ext @ episode_tail m n) = Inr (ext, Some (int m))"
proof -
  have "split_episode_tail U (ext @ episode_tail m n) \<noteq> None"
    "split_episode_tail U (episode_wire_id yts_id ext (int m) (int n)) \<noteq> None"
    using split_imdb_episode [OF assms(1) yts_prefix(2) assms(2), of m n] by (simp_all add: episode_wire_id_tail)
  moreover have "\<not> is_movie_wire_id (ext @ episode_tail m n)"
    "\<not> is_movie_wire_id (episode_wire_id yts_id ext (int m) (int n))"
    unfolding episode_wire_id_tail by (rule not_movie_tail)+
  moreover note parse_playable_own [OF assms(1,2) yts_prefix(2) assms(3,4)]
  ultimately show "parse_stream_content_id U (episode_wire_id yts_id ext (int m) (int n)) = Inr (ext, Some (int m))"
    "parse_stream_content_id U (ext @ episode_tail m n) = Inr (ext, Some (int m))"
    by (simp_all add: parse_stream_content_id_def)
qed

text \<open>Every spelling of a play of the lane names its IMDb id and its season: the bare id, the scoped id,
  the movie sentinel with and without the scope, and the episode ids.\<close>

theorem content_id_spellings:
  assumes "ucd_ok U" and "imdb_re U ext"
    and "length (dec_nat m) \<le> max_str_digits" and "length (dec_nat n) \<le> max_str_digits"
  shows "list_all (\<lambda>i. parse_stream_content_id U i = Inr (ext, None))
      [ext, u ''yts:'' @ ext, ext @ movie_suffix, u ''yts:'' @ ext @ movie_suffix]
    \<and> list_all (\<lambda>i. parse_stream_content_id U i = Inr (ext, Some (int m)))
      [ext @ episode_tail m n, episode_wire_id yts_id ext (int m) (int n)]"
proof -
  have ext: "58 \<notin> set ext" "\<exists>r. ext = 116 # r" using imdb_chars [OF assms(1)] assms(2) by (auto simp: imdb_re_def)
  have bare: "remove_prefix (u ''yts:'') ext = ext"
    using remove_prefix_none [OF ext(1), of yts_id] by (simp add: yts_prefix)
  have movie: "is_movie_wire_id (x @ movie_suffix)" "strip_movie_suffix (x @ movie_suffix) = x" for x
    by (simp_all add: is_movie_wire_id_def strip_movie_suffix_def)
  have scoped: "remove_prefix (u ''yts:'') (u ''yts:'' @ ext) = ext" by simp
  have "parse_stream_content_id U ext = Inr (ext, None)"
    using assms(2) by (simp add: parse_stream_content_id_def no_colon_not_movie no_colon_no_tail ext(1) bare)
  moreover have "parse_stream_content_id U (u ''yts:'' @ ext) = Inr (ext, None)"
    using assms(2) by (simp add: parse_stream_content_id_def yts_scoped [OF assms(1,2)] scoped)
  moreover have "parse_stream_content_id U (ext @ movie_suffix) = Inr (ext, None)"
    using assms(2) by (simp add: parse_stream_content_id_def movie bare)
  moreover have "is_movie_wire_id (u ''yts:'' @ ext @ movie_suffix)"
    "strip_movie_suffix (u ''yts:'' @ ext @ movie_suffix) = u ''yts:'' @ ext"
    using movie [of "u ''yts:'' @ ext"] by simp_all
  then have "parse_stream_content_id U (u ''yts:'' @ ext @ movie_suffix) = Inr (ext, None)"
    using assms(2) by (simp add: parse_stream_content_id_def)
  moreover note parse_stream_episode [OF assms]
  ultimately show ?thesis by simp
qed

theorem content_id_spellings_witness:
  "parse_stream_content_id ua_ucd (u ''yts:'' @ u ''tt1160419'') = Inr (u ''tt1160419'', None)"
proof -
  have "imdb_re ua_ucd (u ''tt1160419'')" by code_simp
  moreover have "length (dec_nat 1) \<le> max_str_digits" "length (dec_nat 2) \<le> max_str_digits" by code_simp+
  ultimately show ?thesis using content_id_spellings [OF ua_ucd_ok, of "u ''tt1160419''" 1 2] by simp
qed

end
