(* ===== verification/Yts.thy ===== *)
theory Yts
  imports Popcorn Torrent_Lane Play_Request
begin

text \<open>
  The English-content provider, \<^verbatim>\<open>backend/cs_uk_api/providers/yts.py\<close>: search, browse, content and stream
  over the Popcorn conversation (\<open>Popcorn\<close>) and the torrent lane (\<open>Torrent_Lane\<close>), with the bounded memory
  of torrent candidates.  The state holds that memory, the show cache, the requests sent and the engine's
  own state; an operation answers a fault or a value, and the state it leaves in either case.

  The last section puts the provider behind \<open>Play_Request\<close> and follows an engine fault to the health
  tracker.
\<close>

section \<open>The provider and its state\<close>

record 'e yts =
  yt_popcorn :: popcorn
  yt_engine :: "'e engine option"

record 'e yts_state =
  torrent_memory :: "(ustr, torrent_candidate list) pdict"
  show_memory :: show_cache
  sent :: "get_request list"
  engine_state :: 'e

definition base_url :: ustr where "base_url = u ''https://yts.gg''"
definition pinned_hosts :: "ustr set" where "pinned_hosts = {u ''yts.gg'', u ''movies-api.accel.li''}"
definition list_limit :: int where "list_limit = 50"
definition torrent_entries_limit :: nat where "torrent_entries_limit = 512"

text \<open>The constructor: \<open>n\<close>, \<open>V\<close> and \<open>up\<close> are the interpreter's and the upstream's (\<open>Fetch\<close>).\<close>

definition new_yts ::
  "ucd \<Rightarrow> nat \<Rightarrow> (ustr \<Rightarrow> bool) \<Rightarrow> fetch_upstream \<Rightarrow> ustr option \<Rightarrow> 'e engine option \<Rightarrow> wire_error + 'e yts" where
  "new_yts U n V up popcorn_base engine =
     (let client = (\<lambda>hosts. \<lparr>budget = n, netloc_ok = V, fetch_from = up, allowed_hosts = hosts\<rparr>);
          P = new_popcorn U (client pinned_hosts) popcorn_base (Some base_url)
      in if pc_base P = [] then Inr \<lparr>yt_popcorn = P, yt_engine = engine\<rparr>
         else case urlparse V [] (pc_base P) of
           Inl e \<Rightarrow> Inl e
         | Inr p \<Rightarrow> Inr \<lparr>yt_popcorn = P\<lparr>pc_fetch := client (insert (netloc p) pinned_hosts)\<rparr>, yt_engine = engine\<rparr>)"

section \<open>The torrent memory\<close>

definition record_torrents ::
  "ustr \<Rightarrow> popcorn_movie \<Rightarrow> (ustr, torrent_candidate list) pdict \<Rightarrow> (ustr, torrent_candidate list) pdict" where
  "record_torrents ext movie mem =
     (let cs = torrent_candidates (map JObject (pm_torrents movie))
      in if cs = [] then mem else lru_put torrent_entries_limit ext cs mem)"

definition entries_for :: "ustr \<Rightarrow> 'e yts_state \<Rightarrow> torrent_candidate list \<times> 'e yts_state" where
  "entries_for ext st =
     (let cs = (case dget (torrent_memory st) ext of None \<Rightarrow> [] | Some cs \<Rightarrow> cs)
      in (cs, if cs \<noteq> [] then st\<lparr>torrent_memory := move_to_end ext (torrent_memory st)\<rparr> else st))"

definition torrent_hashes :: "ustr \<Rightarrow> 'e yts_state \<Rightarrow> (ustr, ustr) pdict \<times> 'e yts_state" where
  "torrent_hashes ext st =
     (case entries_for ext st of
        (cs, st') \<Rightarrow> (foldl (\<lambda>d c. snd (dsetdefault (quality c) (info_hash c) d)) [] cs, st'))"

section \<open>Cards\<close>

definition card_of :: "ucd \<Rightarrow> popcorn \<Rightarrow> popcorn_movie \<Rightarrow> fault + search_result option" where
  "card_of U P movie =
     (case pm_imdb movie of
        None \<Rightarrow> Inr None
      | Some imdb \<Rightarrow>
          if \<not> imdb_re U imdb then Inr None
          else then_do (movie_url P imdb) (\<lambda>link.
            Inr (Some \<lparr>sr_id = u ''yts:'' @ imdb, provider = yts_id, form = Movie, title = pm_title movie,
              year = pm_year movie, poster = pm_poster movie, url = link, styles = {}, genres = pm_genres movie,
              imdb_id = Some imdb\<rparr>)))"

definition show_card :: "ucd \<Rightarrow> popcorn \<Rightarrow> jdict \<Rightarrow> fault + search_result option" where
  "show_card U P sh =
     (case as_str (jget sh (u ''imdb_id'')) of
        None \<Rightarrow> Inr None
      | Some imdb \<Rightarrow>
          if \<not> imdb_re U imdb then Inr None
          else (case require_str U (jget sh (u ''title'')) of
                  Inl _ \<Rightarrow> Inr None
                | Inr t \<Rightarrow>
                    then_do (show_year_of U sh) (\<lambda>y.
                      Inr (Some \<lparr>sr_id = u ''yts:'' @ imdb, provider = yts_id, form = Series, title = t, year = y,
                        poster = show_poster_of sh, url = show_url P imdb, styles = {}, genres = genres_of sh,
                        imdb_id = Some imdb\<rparr>))))"

text \<open>The loop over a movie listing: a card is kept and its torrents recorded, movie by movie.\<close>

fun movie_cards ::
  "ucd \<Rightarrow> popcorn \<Rightarrow> popcorn_movie list \<Rightarrow> (ustr, torrent_candidate list) pdict \<Rightarrow>
   (fault + search_result list) \<times> (ustr, torrent_candidate list) pdict" where
  "movie_cards U P [] mem = (Inr [], mem)"
| "movie_cards U P (m # ms) mem =
     (case card_of U P m of
        Inl e \<Rightarrow> (Inl e, mem)
      | Inr None \<Rightarrow> movie_cards U P ms mem
      | Inr (Some c) \<Rightarrow>
          (case pm_imdb m of
             None \<Rightarrow> movie_cards U P ms mem
           | Some imdb \<Rightarrow>
               (case movie_cards U P ms (record_torrents imdb m mem) of
                  (r, mem') \<Rightarrow> (then_do r (\<lambda>cs. Inr (c # cs)), mem'))))"

definition show_cards :: "ucd \<Rightarrow> popcorn \<Rightarrow> jdict list \<Rightarrow> fault + search_result list" where
  "show_cards U P shs = then_do (traverse (show_card U P) shs) (\<lambda>cs. Inr (List.map_filter id cs))"

section \<open>Search and browse\<close>

definition movie_page ::
  "ucd \<Rightarrow> 'e yts \<Rightarrow> (ustr, ustr) pdict \<Rightarrow> (movie_listing \<Rightarrow> fault + 'a) \<Rightarrow> 'e yts_state \<Rightarrow>
   (fault + search_result list \<times> 'a) \<times> 'e yts_state" where
  "movie_page U Y ps check st =
     (case popcorn_movies U (yt_popcorn Y) ps (sent st) of
        (Inl e, sent') \<Rightarrow> (Inl e, st\<lparr>sent := sent'\<rparr>)
      | (Inr l, sent') \<Rightarrow>
          (case check l of
             Inl e \<Rightarrow> (Inl e, st\<lparr>sent := sent'\<rparr>)
           | Inr a \<Rightarrow>
               (case movie_cards U (yt_popcorn Y) (ml_movies l) (torrent_memory st) of
                  (r, mem) \<Rightarrow> (then_do r (\<lambda>cs. Inr (cs, a)), st\<lparr>sent := sent', torrent_memory := mem\<rparr>))))"

definition search_movies ::
  "ucd \<Rightarrow> 'e yts \<Rightarrow> ustr \<Rightarrow> 'e yts_state \<Rightarrow> (fault + search_result list) \<times> 'e yts_state" where
  "search_movies U Y q st =
     (case movie_page U Y [(u ''query_term'', q), (u ''limit'', dec_int list_limit)] (\<lambda>_. Inr ()) st of
        (r, st') \<Rightarrow> (then_do r (\<lambda>(cs, _). Inr cs), st'))"

definition search_series ::
  "ucd \<Rightarrow> 'e yts \<Rightarrow> ustr \<Rightarrow> 'e yts_state \<Rightarrow> (fault + search_result list) \<times> 'e yts_state" where
  "search_series U Y q st =
     (case search_shows (yt_popcorn Y) q (sent st) of
        (r, sent') \<Rightarrow> (then_do r (show_cards U (yt_popcorn Y)), st\<lparr>sent := sent'\<rparr>))"

definition yts_search ::
  "ucd \<Rightarrow> 'e yts \<Rightarrow> ustr \<Rightarrow> 'e yts_state \<Rightarrow> (fault + search_result list) \<times> 'e yts_state" where
  "yts_search U Y q st =
     (case search_movies U Y q st of
        (Inl e, st') \<Rightarrow> (Inl e, st')
      | (Inr cs, st') \<Rightarrow>
          if pc_base (yt_popcorn Y) = [] then (Inr cs, st')
          else (case search_series U Y q st' of
                  (Inr series, st2) \<Rightarrow> (Inr (cs @ series), st2)
                | (Inl (Provider_fault c e), st2) \<Rightarrow> (Inr cs, st2)
                | (Inl f, st2) \<Rightarrow> (Inl f, st2)))"

text \<open>The two pagination numbers of a browsed listing must be there.\<close>

definition page_bounds :: "movie_listing \<Rightarrow> fault + int \<times> int" where
  "page_bounds l =
     (case (ml_movie_count l, ml_limit l) of
        (Some n, Some m) \<Rightarrow> Inr (n, m)
      | _ \<Rightarrow> Inl parse_failed)"

definition browse_movies ::
  "ucd \<Rightarrow> 'e yts \<Rightarrow> int \<Rightarrow> 'e yts_state \<Rightarrow> (fault + search_result list \<times> bool) \<times> 'e yts_state" where
  "browse_movies U Y page st =
     (case movie_page U Y [(u ''sort_by'', u ''date_added''), (u ''limit'', dec_int list_limit), (u ''page'', dec_int page)]
             page_bounds st of
        (r, st') \<Rightarrow> (then_do r (\<lambda>(cs, n, m). Inr (cs, n > page * m)), st'))"

definition browse_series ::
  "ucd \<Rightarrow> 'e yts \<Rightarrow> int \<Rightarrow> 'e yts_state \<Rightarrow> (fault + search_result list \<times> bool) \<times> 'e yts_state" where
  "browse_series U Y page st =
     (case updated_shows (yt_popcorn Y) page (sent st) of
        (r, sent') \<Rightarrow>
          (then_do (then_do r (show_cards U (yt_popcorn Y))) (\<lambda>cs. Inr (cs, int (length cs) \<ge> list_limit)),
           st\<lparr>sent := sent'\<rparr>))"

definition yts_browse ::
  "ucd \<Rightarrow> 'e yts \<Rightarrow> ustr \<Rightarrow> int \<Rightarrow> 'e yts_state \<Rightarrow> (fault + search_result list \<times> bool) \<times> 'e yts_state" where
  "yts_browse U Y sec page st =
     (if sec = u ''movies'' then browse_movies U Y page st
      else if sec = u ''series'' then browse_series U Y page st
      else (Inl not_found, st))"

section \<open>Content\<close>

record episode =
  ep_number :: int
  ep_id :: ustr
  ep_title :: ustr
  ep_description :: ustr

record content_response =
  cr_id :: ustr
  cr_form :: media_form
  cr_title :: ustr
  cr_year :: "int option"
  cr_description :: ustr
  cr_poster :: "ustr option"
  cr_translations :: "(ustr \<times> ustr) list"
  cr_seasons :: "(int \<times> episode list) list"
  cr_genres :: "ustr list"
  cr_rating :: "rat option"

text \<open>Python's equality of a JSON value with an integer.\<close>

definition json_is :: "json \<Rightarrow> int \<Rightarrow> bool" where
  "json_is j n \<longleftrightarrow> (case as_number j of None \<Rightarrow> False | Some x \<Rightarrow> num_value x = of_int n)"

definition season_episodes :: "jdict list \<Rightarrow> int \<Rightarrow> jdict list" where
  "season_episodes es n = filter (\<lambda>e. json_is (jget e (u ''season'')) n) es"

definition imdb_of :: "jdict \<Rightarrow> ustr" where
  "imdb_of sh = (case as_str (jget sh (u ''imdb_id'')) of None \<Rightarrow> [] | Some s \<Rightarrow> s)"

definition episode_of :: "ucd \<Rightarrow> jdict \<Rightarrow> ustr \<Rightarrow> int \<Rightarrow> jdict \<Rightarrow> episode option" where
  "episode_of U sh t want raw =
     (case jget raw (u ''episode'') of
        JInt n \<Rightarrow>
          if n < 1 then None
          else Some \<lparr>ep_number = n, ep_id = episode_wire_id yts_id (imdb_of sh) want n,
                     ep_title = episode_title U raw t, ep_description = episode_overview raw\<rparr>
      | _ \<Rightarrow> None)"

definition seasons_of :: "ucd \<Rightarrow> jdict \<Rightarrow> ustr \<Rightarrow> int \<Rightarrow> fault + (int \<times> episode list) list" where
  "seasons_of U sh t want =
     then_do (episodes_of_show sh) (\<lambda>raws.
       let eps = List.map_filter (episode_of U sh t want) (season_episodes raws want)
       in Inr (if eps = [] then [] else [(want, sort_key ep_number eps)]))"

definition series_envelope :: "ucd \<Rightarrow> jdict \<Rightarrow> ustr \<Rightarrow> int \<Rightarrow> fault + content_response" where
  "series_envelope U sh imdb n =
     then_do (require_str U (jget sh (u ''title''))) (\<lambda>t.
       then_do (seasons_of U sh t n) (\<lambda>ss.
         if ss = [] then Inl not_found
         else then_do (show_year_of U sh) (\<lambda>y.
           Inr \<lparr>cr_id = u ''yts:'' @ imdb, cr_form = Series, cr_title = t, cr_year = y,
                cr_description = (case as_str (jget sh (u ''description'')) of None \<Rightarrow> [] | Some s \<Rightarrow> s),
                cr_poster = show_poster_of sh, cr_translations = [(u ''en'', u ''English'')], cr_seasons = ss,
                cr_genres = genres_of sh, cr_rating = show_rating_of sh\<rparr>)))"

definition yts_show :: "'e yts \<Rightarrow> rat \<Rightarrow> ustr \<Rightarrow> 'e yts_state \<Rightarrow> (fault + jdict option) \<times> 'e yts_state" where
  "yts_show Y now imdb st =
     (case popcorn_show (yt_popcorn Y) now imdb (show_memory st) (sent st) of
        (r, cache, sent') \<Rightarrow> (r, st\<lparr>show_memory := cache, sent := sent'\<rparr>))"

definition movie_envelope :: "ustr \<Rightarrow> popcorn_movie \<Rightarrow> content_response" where
  "movie_envelope ext m =
     \<lparr>cr_id = u ''yts:'' @ ext, cr_form = Movie, cr_title = pm_title m, cr_year = pm_year m,
      cr_description = pm_description m, cr_poster = pm_poster m, cr_translations = [(u ''en'', u ''English'')],
      cr_seasons = [(1, [\<lparr>ep_number = 1, ep_id = u ''yts:'' @ ext @ movie_suffix, ep_title = pm_title m, ep_description = []\<rparr>])],
      cr_genres = pm_genres m, cr_rating = pm_rating m\<rparr>"

definition movie_content ::
  "ucd \<Rightarrow> 'e yts \<Rightarrow> ustr \<Rightarrow> 'e yts_state \<Rightarrow> (fault + content_response) \<times> 'e yts_state" where
  "movie_content U Y ext st =
     (case popcorn_movie_details U (yt_popcorn Y) ext (sent st) of
        (Inl e, sent') \<Rightarrow> (Inl e, st\<lparr>sent := sent'\<rparr>)
      | (Inr m, sent') \<Rightarrow>
          (let st' = st\<lparr>sent := sent', torrent_memory := record_torrents ext m (torrent_memory st)\<rparr>
           in (if dget (torrent_memory st') ext = None then Inl not_found else Inr (movie_envelope ext m), st')))"

definition yts_content ::
  "ucd \<Rightarrow> 'e yts \<Rightarrow> rat \<Rightarrow> ustr \<Rightarrow> 'e yts_state \<Rightarrow> (fault + content_response) \<times> 'e yts_state" where
  "yts_content U Y now ext st =
     (if \<not> imdb_re U ext then (Inl not_found, st)
      else case yts_show Y now ext st of
        (Inl e, st') \<Rightarrow> (Inl e, st')
      | (Inr None, st') \<Rightarrow> movie_content U Y ext st'
      | (Inr (Some sh), st') \<Rightarrow> (series_envelope U sh ext 1, st'))"

definition series_content ::
  "ucd \<Rightarrow> 'e yts \<Rightarrow> rat \<Rightarrow> ustr \<Rightarrow> int \<Rightarrow> 'e yts_state \<Rightarrow> (fault + content_response) \<times> 'e yts_state" where
  "series_content U Y now ext n st =
     (if \<not> imdb_re U ext then (Inl not_found, st)
      else if n < 1 then (Inl not_found, st)
      else case yts_show Y now ext st of
        (Inl e, st') \<Rightarrow> (Inl e, st')
      | (Inr None, st') \<Rightarrow> (case require_base (yt_popcorn Y) of Inl e \<Rightarrow> (Inl e, st') | Inr _ \<Rightarrow> (Inl Other_fault, st'))
      | (Inr (Some sh), st') \<Rightarrow> (series_envelope U sh ext n, st'))"

section \<open>Streams\<close>

definition pad2 :: "int \<Rightarrow> ustr" where
  "pad2 i = (if length (dec_int i) < 2 then 48 # dec_int i else dec_int i)"

definition season_hint :: "int \<Rightarrow> ustr" where "season_hint s = u ''s'' @ pad2 s @ u ''e''"
definition episode_hint :: "int \<Rightarrow> int \<Rightarrow> ustr" where "episode_hint s e = u ''s'' @ pad2 s @ u ''e'' @ pad2 e"

definition quality_entry :: "ustr \<times> json \<Rightarrow> torrent_candidate option" where
  "quality_entry qe =
     (case as_dict (snd qe) of
        None \<Rightarrow> None
      | Some d \<Rightarrow>
          (case nonempty_str (jget d (u ''url'')) of
             None \<Rightarrow> None
           | Some l \<Rightarrow>
               if fst qe = [] then None
               else Some \<lparr>quality = fst qe, info_hash = l, seeds = seeds_of (jget d (u ''seeds''))\<rparr>))"

definition episode_torrents :: "jdict \<Rightarrow> torrent_candidate list" where
  "episode_torrents ep =
     (case as_dict (jget ep (u ''torrents'')) of None \<Rightarrow> [] | Some d \<Rightarrow> List.map_filter quality_entry d)"

definition torrents_of_episode :: "jdict \<Rightarrow> int \<Rightarrow> int \<Rightarrow> fault + torrent_candidate list" where
  "torrents_of_episode sh s e =
     then_do (episodes_of_show sh) (\<lambda>raws.
       Inr (concat (map episode_torrents
         (filter (\<lambda>raw. json_is (jget raw (u ''season'')) s \<and> json_is (jget raw (u ''episode'')) e) raws))))"

definition season_torrents :: "jdict \<Rightarrow> int \<Rightarrow> fault + torrent_candidate list" where
  "season_torrents sh s =
     then_do (episodes_of_show sh) (\<lambda>raws. Inr (concat (map episode_torrents (season_episodes raws s))))"

definition play_candidates ::
  "'e engine \<Rightarrow> torrent_candidate list \<Rightarrow> ustr option \<Rightarrow> 'e yts_state \<Rightarrow> (fault + torrent_stream) \<times> 'e yts_state" where
  "play_candidates eng cs hint st =
     (case play_torrent eng cs hint (engine_state st) of (r, e') \<Rightarrow> (r, st\<lparr>engine_state := e'\<rparr>))"

definition stream_movie ::
  "ucd \<Rightarrow> 'e yts \<Rightarrow> 'e engine \<Rightarrow> rat \<Rightarrow> ustr \<Rightarrow> 'e yts_state \<Rightarrow> (fault + torrent_stream) \<times> 'e yts_state" where
  "stream_movie U Y eng now imdb st =
     (case entries_for imdb st of
        (cs, st1) \<Rightarrow>
          if cs \<noteq> [] then play_candidates eng cs None st1
          else (case yts_content U Y now imdb st1 of
                  (Inl e, st2) \<Rightarrow> (Inl e, st2)
                | (Inr _, st2) \<Rightarrow>
                    (case entries_for imdb st2 of
                       (cs', st3) \<Rightarrow> if cs' = [] then (Inl not_found, st3) else play_candidates eng cs' None st3)))"

text \<open>The candidates and the file hint of an episode.\<close>

definition episode_pool :: "jdict \<Rightarrow> int \<Rightarrow> int option \<Rightarrow> fault + torrent_candidate list \<times> ustr" where
  "episode_pool sh s ep =
     then_do (case ep of None \<Rightarrow> Inr [] | Some e \<Rightarrow> torrents_of_episode sh s e) (\<lambda>own.
       case ep of
         Some e \<Rightarrow>
           if own \<noteq> [] then Inr (own, episode_hint s e)
           else then_do (season_torrents sh s) (\<lambda>cs. Inr (cs, season_hint s))
       | None \<Rightarrow> then_do (season_torrents sh s) (\<lambda>cs. Inr (cs, season_hint s)))"

definition stream_episode ::
  "'e yts \<Rightarrow> 'e engine \<Rightarrow> rat \<Rightarrow> ustr \<Rightarrow> int \<Rightarrow> int option \<Rightarrow> 'e yts_state \<Rightarrow> (fault + torrent_stream) \<times> 'e yts_state" where
  "stream_episode Y eng now imdb s ep st =
     (case yts_show Y now imdb st of
        (Inl e, st') \<Rightarrow> (Inl e, st')
      | (Inr None, st') \<Rightarrow> (case require_base (yt_popcorn Y) of Inl e \<Rightarrow> (Inl e, st') | Inr _ \<Rightarrow> (Inl Other_fault, st'))
      | (Inr (Some sh), st') \<Rightarrow>
          (case episode_pool sh s ep of
             Inl e \<Rightarrow> (Inl e, st')
           | Inr (cs, hint) \<Rightarrow>
               if cs = [] then (Inl not_found, st') else play_candidates eng cs (Some hint) st'))"

definition require_engine :: "'e yts \<Rightarrow> fault + 'e engine" where
  "require_engine Y = (case yt_engine Y of None \<Rightarrow> Inl unreachable | Some eng \<Rightarrow> Inr eng)"

definition yts_stream ::
  "ucd \<Rightarrow> 'e yts \<Rightarrow> rat \<Rightarrow> ustr \<Rightarrow> ustr option \<Rightarrow> 'e yts_state \<Rightarrow> (fault + torrent_stream) \<times> 'e yts_state" where
  "yts_stream U Y now i translation st =
     (case parse_stream_content_id U i of
        Inl e \<Rightarrow> (Inl e, st)
      | Inr (imdb, season) \<Rightarrow>
          if \<not> imdb_re U imdb then (Inl not_found, st)
          else (case require_engine Y of
                  Inl e \<Rightarrow> (Inl e, st)
                | Inr eng \<Rightarrow>
                    (case season of
                       None \<Rightarrow> stream_movie U Y eng now imdb st
                     | Some s \<Rightarrow>
                         (case (case split_episode_tail U i of None \<Rightarrow> Inr None | Some (_, tail) \<Rightarrow> parse_episode_tail U tail) of
                            Inl _ \<Rightarrow> (Inl Other_fault, st)
                          | Inr parsed \<Rightarrow> stream_episode Y eng now imdb s (map_option snd parsed) st))))"

section \<open>The memories stay within their bounds\<close>

datatype yts_op =
    Op_search ustr
  | Op_browse ustr int
  | Op_content rat ustr
  | Op_series rat ustr int
  | Op_stream rat ustr "ustr option"
  | Op_hashes ustr

fun yts_step :: "ucd \<Rightarrow> 'e yts \<Rightarrow> 'e yts_state \<Rightarrow> yts_op \<Rightarrow> 'e yts_state" where
  "yts_step U Y st (Op_search q) = snd (yts_search U Y q st)"
| "yts_step U Y st (Op_browse sec page) = snd (yts_browse U Y sec page st)"
| "yts_step U Y st (Op_content now ext) = snd (yts_content U Y now ext st)"
| "yts_step U Y st (Op_series now ext n) = snd (series_content U Y now ext n st)"
| "yts_step U Y st (Op_stream now i tr) = snd (yts_stream U Y now i tr st)"
| "yts_step U Y st (Op_hashes ext) = snd (torrent_hashes ext st)"

definition new_yts_state :: "'e \<Rightarrow> 'e yts_state" where
  "new_yts_state e = \<lparr>torrent_memory = [], show_memory = [], sent = [], engine_state = e\<rparr>"

definition memory_ok :: "(ustr, torrent_candidate list) pdict \<Rightarrow> bool" where
  "memory_ok mem \<longleftrightarrow> dwf mem \<and> length mem \<le> torrent_entries_limit \<and> [] \<notin> snd ` set mem"

definition shows_ok :: "show_cache \<Rightarrow> bool" where
  "shows_ok cache \<longleftrightarrow> dwf cache \<and> length cache \<le> show_cache_max"

definition yts_ok :: "'e yts_state \<Rightarrow> bool" where
  "yts_ok st \<longleftrightarrow> memory_ok (torrent_memory st) \<and> shows_ok (show_memory st)"

lemma values_lru_put: "snd ` set (lru_put bound k v d) \<subseteq> insert v (snd ` set d)"
proof -
  have "set (lru_put bound k v d) \<subseteq> set (dpop k d @ [(k, v)])"
    unfolding lru_put_eq by (rule set_drop_subset)
  then show ?thesis by (auto simp: dpop_def)
qed

lemma values_move_to_end: "snd ` set (move_to_end k d) \<subseteq> snd ` set d"
  by (auto simp: move_to_end_def dpop_def image_iff dest!: map_of_SomeD split: option.splits) (metis snd_conv)

lemma memory_ok_record [intro]: "memory_ok mem \<Longrightarrow> memory_ok (record_torrents ext m mem)"
  using values_lru_put [of torrent_entries_limit ext "torrent_candidates (map JObject (pm_torrents m))" mem]
  by (auto simp: memory_ok_def record_torrents_def Let_def length_lru_put)

lemma memory_ok_touch [intro]: "memory_ok mem \<Longrightarrow> memory_ok (move_to_end ext mem)"
  using values_move_to_end [of ext mem] by (auto simp: memory_ok_def length_move_to_end)

lemma memory_ok_cards: "memory_ok mem \<Longrightarrow> memory_ok (snd (movie_cards U P ms mem))"
  by (induction ms arbitrary: mem) (auto simp: case_prod_beta memory_ok_record split: sum.splits option.splits)

lemma yts_ok_sent [simp]: "yts_ok (st\<lparr>sent := l\<rparr>) = yts_ok st" "yts_ok (st\<lparr>engine_state := e\<rparr>) = yts_ok st"
  by (simp_all add: yts_ok_def)

lemma yts_ok_page: "yts_ok st \<Longrightarrow> yts_ok (snd (movie_page U Y ps chk st))"
proof -
  assume ok: "yts_ok st"
  have "memory_ok (snd (movie_cards U P ms (torrent_memory st)))" for P ms
    using ok by (simp add: yts_ok_def memory_ok_cards)
  with ok show ?thesis
    by (auto simp: movie_page_def yts_ok_def split: prod.splits sum.splits) (metis snd_conv)
qed

lemma yts_ok_search: "yts_ok st \<Longrightarrow> yts_ok (snd (yts_search U Y q st))"
proof -
  assume "yts_ok st"
  then have "yts_ok (snd (search_movies U Y q st))"
    using yts_ok_page [of st U Y] by (simp add: search_movies_def case_prod_beta)
  moreover have "yts_ok (snd (search_series U Y q s))" if "yts_ok s" for s
    using that by (simp add: search_series_def split: prod.splits)
  ultimately show ?thesis
    unfolding yts_search_def
    by (auto split: prod.splits sum.splits fault.splits) (metis snd_conv)+
qed

lemma yts_ok_browse: "yts_ok st \<Longrightarrow> yts_ok (snd (yts_browse U Y sec page st))"
proof -
  assume "yts_ok st"
  then have "yts_ok (snd (browse_movies U Y page st))"
    using yts_ok_page [of st U Y] by (simp add: browse_movies_def case_prod_beta)
  moreover have "yts_ok (snd (browse_series U Y page st))"
    using \<open>yts_ok st\<close> by (simp add: browse_series_def split: prod.splits)
  ultimately show ?thesis using \<open>yts_ok st\<close> by (simp add: yts_browse_def)
qed

lemma shows_ok_run: "shows_ok cache \<Longrightarrow> shows_ok (foldl (lru_step show_cache_max) cache es)"
  by (induction es arbitrary: cache) (simp_all add: shows_ok_def lru_step_ok)

lemma yts_ok_show: "yts_ok st \<Longrightarrow> yts_ok (snd (yts_show Y now imdb st))"
proof -
  assume ok: "yts_ok st"
  obtain r cache snt where p: "popcorn_show (yt_popcorn Y) now imdb (show_memory st) (sent st) = (r, cache, snt)"
    by (metis prod_cases3)
  with popcorn_show_ops [of "yt_popcorn Y" now imdb "show_memory st" "sent st"] obtain es
    where "cache = foldl (lru_step show_cache_max) (show_memory st) es" by auto
  then have "shows_ok cache" using ok by (simp add: yts_ok_def shows_ok_run)
  with ok p show ?thesis by (simp add: yts_show_def yts_ok_def)
qed

lemma yts_ok_entries: "yts_ok st \<Longrightarrow> yts_ok (snd (entries_for ext st))"
  by (auto simp: entries_for_def yts_ok_def Let_def)

lemma yts_ok_movie_content: "yts_ok st \<Longrightarrow> yts_ok (snd (movie_content U Y ext st))"
  by (auto simp: movie_content_def yts_ok_def Let_def split: prod.splits sum.splits)

lemma yts_ok_content: "yts_ok st \<Longrightarrow> yts_ok (snd (yts_content U Y now ext st))"
proof -
  assume "yts_ok st"
  from yts_ok_show [OF this, of Y now ext] show ?thesis
    using yts_ok_movie_content \<open>yts_ok st\<close>
    by (auto simp: yts_content_def split: prod.splits sum.splits option.splits)
qed

lemma yts_ok_series: "yts_ok st \<Longrightarrow> yts_ok (snd (series_content U Y now ext n st))"
proof -
  assume "yts_ok st"
  from yts_ok_show [OF this, of Y now ext] show ?thesis
    using \<open>yts_ok st\<close>
    by (auto simp: series_content_def split: prod.splits sum.splits option.splits)
qed

lemma yts_ok_play: "yts_ok (snd (play_candidates eng cs hint st)) = yts_ok st"
  by (simp add: play_candidates_def split: prod.splits)

lemma yts_ok_stream_movie: "yts_ok st \<Longrightarrow> yts_ok (snd (stream_movie U Y eng now imdb st))"
proof -
  assume "yts_ok st"
  obtain cs st1 where e: "entries_for imdb st = (cs, st1)" by force
  have 1: "yts_ok st1" using yts_ok_entries [OF \<open>yts_ok st\<close>, of imdb] by (simp add: e)
  obtain r st2 where c: "yts_content U Y now imdb st1 = (r, st2)" by force
  have 2: "yts_ok st2" using yts_ok_content [OF 1, of U Y now imdb] by (simp add: c)
  obtain cs' st3 where e': "entries_for imdb st2 = (cs', st3)" by force
  have 3: "yts_ok st3" using yts_ok_entries [OF 2, of imdb] by (simp add: e')
  show ?thesis
    using 1 2 3 by (simp add: stream_movie_def e c e' yts_ok_play split: sum.splits)
qed

lemma yts_ok_stream_episode: "yts_ok st \<Longrightarrow> yts_ok (snd (stream_episode Y eng now imdb s ep st))"
proof -
  assume "yts_ok st"
  from yts_ok_show [OF this, of Y now imdb] show ?thesis
    by (auto simp: stream_episode_def yts_ok_play split: prod.splits sum.splits option.splits)
qed

lemma yts_ok_stream: "yts_ok st \<Longrightarrow> yts_ok (snd (yts_stream U Y now i tr st))"
  by (auto simp: yts_stream_def yts_ok_stream_movie yts_ok_stream_episode split: sum.splits prod.splits option.splits)

text \<open>Whatever is searched, browsed, opened and played, and whatever the upstreams answer, the torrent
  memory holds at most 512 titles, each with at least one candidate, and the show cache at most 64
  shows.\<close>

theorem yts_memories_bounded: "yts_ok (foldl (yts_step U Y) (new_yts_state e) ops)"
proof -
  have step: "yts_ok (yts_step U Y st op)" if "yts_ok st" for st :: "'a yts_state" and op
    using that
    by (cases op) (simp_all add: yts_ok_search yts_ok_browse yts_ok_content yts_ok_series yts_ok_stream
        yts_ok_entries torrent_hashes_def split: prod.splits, metis snd_conv yts_ok_entries)
  have "yts_ok st \<Longrightarrow> yts_ok (foldl (yts_step U Y) st ops)" for st
    by (induction ops arbitrary: st) (simp_all add: step)
  then show ?thesis by (simp add: new_yts_state_def yts_ok_def memory_ok_def shows_ok_def)
qed

section \<open>Movies need the series host unset\<close>

lemma popcorn_show_configured: "pc_base P \<noteq> [] \<Longrightarrow> fst (popcorn_show P now imdb cache snt) \<noteq> Inr None"
  by (auto simp: popcorn_show_def Let_def split: option.splits prod.splits sum.splits)

text \<open>With a series host configured, a movie whose torrents are not in memory cannot be played: the refresh
  asks the series host for a show, whatever it answers leaves the memory as it was, the movie API is
  never asked and the engine never called.\<close>

theorem cold_movie_unplayable_with_series_host:
  assumes "pc_base (yt_popcorn Y) \<noteq> []" and "parse_stream_content_id U i = Inr (imdb, None)"
    and "dget (torrent_memory st) imdb = None"
  shows "(\<exists>f. fst (yts_stream U Y now i tr st) = Inl f)
    \<and> torrent_memory (snd (yts_stream U Y now i tr st)) = torrent_memory st
    \<and> engine_state (snd (yts_stream U Y now i tr st)) = engine_state st
    \<and> sent (snd (yts_stream U Y now i tr st)) \<in>
        {sent st, snd (snd (popcorn_show (yt_popcorn Y) now imdb (show_memory st) (sent st)))}"
proof -
  have e: "entries_for imdb s = ([], s)" if "torrent_memory s = torrent_memory st" for s :: "'a yts_state"
    using assms(3) that by (simp add: entries_for_def)
  obtain r cache snt where p: "popcorn_show (yt_popcorn Y) now imdb (show_memory st) (sent st) = (r, cache, snt)"
    by (metis prod_cases3)
  with popcorn_show_configured [OF assms(1), of now imdb "show_memory st" "sent st"] have r: "r \<noteq> Inr None" by simp
  let ?st = "st\<lparr>show_memory := cache, sent := snt\<rparr>"
  have c: "\<exists>r. yts_content U Y now imdb st = (r, ?st) \<or> yts_content U Y now imdb st = (r, st)"
    using p r by (auto simp: yts_content_def yts_show_def split: sum.splits option.splits)
  then have m: "\<exists>f s. stream_movie U Y eng now imdb st = (Inl f, s) \<and> (s = ?st \<or> s = st)" for eng
    using e [of st] e [of ?st] by (auto simp: stream_movie_def split: sum.splits)
  have "\<exists>f s. yts_stream U Y now i tr st = (Inl f, s) \<and> (s = ?st \<or> s = st)"
    using m assms(2) by (auto simp: yts_stream_def split: sum.splits)
  then obtain f s where "yts_stream U Y now i tr st = (Inl f, s)" "s = ?st \<or> s = st" by blast
  with p show ?thesis by auto
qed

definition sample_yts :: "engine_answer_t \<Rightarrow> unit yts" where
  "sample_yts a = \<lparr>yt_popcorn = sample_popcorn, yt_engine = Some (\<lambda>i h e. (a, e))\<rparr>"

definition sample_imdb :: ustr where "sample_imdb = u ''tt1160419''"

lemma sample_imdb_re: "imdb_re ua_ucd sample_imdb"
  by code_simp

lemma sample_parse: "parse_stream_content_id ua_ucd sample_imdb = Inr (sample_imdb, None)"
  by code_simp

lemma sample_base: "pc_base (yt_popcorn (sample_yts a)) \<noteq> []"
  by (simp add: sample_yts_def sample_popcorn_def u_def)

theorem cold_movie_unplayable_with_series_host_witness:
  "\<exists>f. fst (yts_stream ua_ucd (sample_yts (Inl Unavailable)) 0 sample_imdb None (new_yts_state ())) = Inl f"
  using cold_movie_unplayable_with_series_host [OF sample_base sample_parse, of "new_yts_state ()"]
  by (simp add: new_yts_state_def)

section \<open>Episodes\<close>

lemma torrents_of_episode_own:
  assumes "torrents_of_episode sh s e = Inr own"
  shows "list_all (\<lambda>c. \<exists>raws. episodes_of_show sh = Inr raws \<and>
    list_ex (\<lambda>raw. json_is (jget raw (u ''season'')) s \<and> json_is (jget raw (u ''episode'')) e \<and> c \<in> set (episode_torrents raw)) raws) own"
  using assms
  by (cases "episodes_of_show sh") (auto simp: torrents_of_episode_def list_all_iff list_ex_iff)

text \<open>An episode id plays from the torrents upstream lists for that very episode whenever there are any,
  with the file hint that names it, and from no other episode's.\<close>

theorem episode_plays_its_own_torrents:
  assumes "ucd_ok U" and "imdb_re U ext"
    and "length (dec_nat m) \<le> max_str_digits" and "length (dec_nat n) \<le> max_str_digits"
    and "yt_engine Y = Some eng" and "fst (yts_show Y now ext st) = Inr (Some sh)"
    and "torrents_of_episode sh (int m) (int n) = Inr own" and "own \<noteq> []"
  shows "fst (yts_stream U Y now (episode_wire_id yts_id ext (int m) (int n)) tr st) =
      fst (play_torrent eng own (Some (episode_hint (int m) (int n))) (engine_state st))
    \<and> list_all (\<lambda>c. \<exists>raws. episodes_of_show sh = Inr raws \<and>
        list_ex (\<lambda>raw. json_is (jget raw (u ''season'')) (int m) \<and> json_is (jget raw (u ''episode'')) (int n) \<and>
          c \<in> set (episode_torrents raw)) raws) own"
proof -
  let ?i = "episode_wire_id yts_id ext (int m) (int n)"
  have split: "split_episode_tail U ?i = Some (yts_id @ u '':'' @ ext, episode_tail m n)"
    unfolding episode_wire_id_tail by (rule split_imdb_episode(1) [OF assms(1) yts_prefix(2) assms(2)])
  note tail = parse_episode_tail_tail [OF assms(1,3,4)]
  obtain st' where s: "yts_show Y now ext st = (Inr (Some sh), st')" using assms(6) by (cases "yts_show Y now ext st") auto
  have same: "engine_state st' = engine_state st" using s by (auto simp: yts_show_def split: prod.splits)
  have pool: "episode_pool sh (int m) (Some (int n)) = Inr (own, episode_hint (int m) (int n))"
    using assms(7,8) by (simp add: episode_pool_def)
  have "fst (yts_stream U Y now ?i tr st) = fst (play_torrent eng own (Some (episode_hint (int m) (int n))) (engine_state st))"
    using parse_stream_episode(1) [OF assms(1-4)] assms(2,5,8) s pool split tail same
    by (simp add: yts_stream_def require_engine_def stream_episode_def play_candidates_def case_prod_beta)
  with torrents_of_episode_own [OF assms(7)] show ?thesis by simp
qed

definition sample_show :: jdict where
  "sample_show =
     [(u ''title'', JStr (u ''X'')), (u ''episodes'', JList [
        JObject [(u ''season'', JInt 1), (u ''episode'', JInt 1),
          (u ''torrents'', JObject [(u ''480p'', JObject [(u ''url'', JStr (u ''magnet:?e1'')), (u ''seeds'', JInt 3)])])],
        JObject [(u ''season'', JInt 1), (u ''episode'', JInt 6),
          (u ''torrents'', JObject [(u ''1080p'', JObject [(u ''url'', JStr (u ''magnet:?e6'')), (u ''seeds'', JInt 900)])])]])]"

theorem episode_plays_its_own_torrents_witness:
  "\<exists>own. torrents_of_episode sample_show 1 1 = Inr own \<and>
     fst (yts_stream ua_ucd (sample_yts (Inl Unavailable)) 10 (episode_wire_id yts_id sample_imdb 1 1) None
       \<lparr>torrent_memory = [], show_memory = [(sample_imdb, 0, sample_show)], sent = [], engine_state = ()\<rparr>) =
     fst (play_torrent (\<lambda>i h e. (Inl Unavailable, e)) own (Some (episode_hint 1 1)) ())"
proof -
  let ?st = "\<lparr>torrent_memory = [], show_memory = [(sample_imdb, 0, sample_show)], sent = [], engine_state = ()\<rparr>"
  let ?own = "[\<lparr>quality = u ''480p'', info_hash = u ''magnet:?e1'', seeds = 3\<rparr>]"
  have own: "torrents_of_episode sample_show 1 1 = Inr ?own" by code_simp
  have "f_sub 10 0 < show_cache_ttl_s" by code_simp
  then have sh: "fst (yts_show (sample_yts (Inl Unavailable)) 10 sample_imdb ?st) = Inr (Some sample_show)"
    using popcorn_show_hit [of "yt_popcorn (sample_yts (Inl Unavailable))" "[(sample_imdb, 0, sample_show)]" sample_imdb 0 sample_show 10 "[]"]
      sample_base by (simp add: yts_show_def)
  have len: "length (dec_nat 1) \<le> max_str_digits" by code_simp
  have eng: "yt_engine (sample_yts (Inl Unavailable)) = Some (\<lambda>i h e. (Inl Unavailable, e))" by (simp add: sample_yts_def)
  show ?thesis
    using episode_plays_its_own_torrents [OF ua_ucd_ok sample_imdb_re len len eng sh, of ?own None] own by simp
qed

section \<open>The lane in the health tracker\<close>

text \<open>The provider behind the play gate, at a state of its own.\<close>

definition lane_answer :: "(fault + 's) \<Rightarrow> 's stream_answer" where
  "lane_answer r =
     (case r of Inr s \<Rightarrow> Streamed s | Inl (Provider_fault c e) \<Rightarrow> Provider_error c e | Inl _ \<Rightarrow> Crashed)"

definition yts_ops :: "ucd \<Rightarrow> 'e yts \<Rightarrow> rat \<Rightarrow> 'e yts_state \<Rightarrow> torrent_stream provider_ops" where
  "yts_ops U Y now st =
     \<lparr>episode_translations = (\<lambda>_. Not_applicable), stream_of = (\<lambda>i tr. lane_answer (fst (yts_stream U Y now i tr st)))\<rparr>"

lemma yts_ops_sel [simp]:
  "translation_error (yts_ops U Y now st) i tr = None"
  "stream_of (yts_ops U Y now st) i tr = lane_answer (fst (yts_stream U Y now i tr st))"
  by (simp_all add: yts_ops_def translation_error_def split: option.splits)


definition warm_state :: "unit yts_state" where
  "warm_state = \<lparr>torrent_memory = [(sample_imdb, sample_candidates)], show_memory = [], sent = [], engine_state = ()\<rparr>"


section \<open>The liveness probe\<close>

text \<open>\<^verbatim>\<open>probe_engine\<close> of \<^verbatim>\<open>torrent_engine.py\<close>: any answer of the engine counts as alive.\<close>

definition probe_engine :: "'t \<Rightarrow> bool \<Rightarrow> bool \<Rightarrow> 't tracker \<Rightarrow> bool \<times> 't tracker" where
  "probe_engine now answered record_it t =
     (answered, if record_it then record_outcome now engine_tracker_id answered t else t)"

end
