(* ===== verification/Catalog_State.thy ===== *)
theory Catalog_State
  imports Home Ttl_Cache
begin

text \<open>
  The owner of the catalogue's derived state, \<^verbatim>\<open>backend/cs_uk_api/_catalog_state/_stores.py\<close>: the resolution map
  (group key to provider to card), the group index beside it and the search registrations that must
  survive a snapshot's replacement.  A search group is the projection of a merged group.  An
  operation carries one reading of the monotonic clock; the rows, the map and the deep-row pools live in
  TTL caches (\<open>Ttl_Cache\<close>), whose keys and lifetimes are part of the state.
\<close>

section \<open>Missing entries\<close>

text \<open>\<^verbatim>\<open>for k, v in new.items(): d.setdefault(k, v)\<close>.\<close>

definition add_missing :: "('k \<times> 'v) list \<Rightarrow> ('k, 'v) pdict \<Rightarrow> ('k, 'v) pdict" where
  "add_missing new d = foldl (\<lambda>d kv. snd (dsetdefault (fst kv) (snd kv) d)) d new"

lemma add_missing_Nil [simp]: "add_missing [] d = d"
  by (simp add: add_missing_def)

lemma add_missing_Cons: "add_missing (kv # new) d = add_missing new (snd (dsetdefault (fst kv) (snd kv) d))"
  by (simp add: add_missing_def)

lemma dget_dsetdefault_all:
  "dget (snd (dsetdefault k v d)) j = (case dget d j of Some w \<Rightarrow> Some w | None \<Rightarrow> if j = k then Some v else None)"
  by (auto simp: dsetdefault_def map_add_def split: option.splits)

lemma dget_add_missing:
  "dget (add_missing new d) k = (case dget d k of Some v \<Rightarrow> Some v | None \<Rightarrow> dget new k)"
  by (induction new arbitrary: d) (auto simp: add_missing_Cons dget_dsetdefault_all split: option.splits)

lemma keys_add_missing [simp]: "fst ` set (add_missing new d) = fst ` set d \<union> fst ` set new"
proof -
  have "k \<in> fst ` set (add_missing new d) \<longleftrightarrow> k \<in> fst ` set d \<union> fst ` set new" for k
    using map_of_eq_None_iff [of "add_missing new d" k] map_of_eq_None_iff [of d k] map_of_eq_None_iff [of new k]
    by (auto simp: dget_add_missing split: option.splits)
  then show ?thesis by blast
qed

lemma dwf_add_missing [intro, simp]: "dwf d \<Longrightarrow> dwf (add_missing new d)"
  by (induction new arbitrary: d) (auto simp: add_missing_Cons)

text \<open>Nothing is moved or replaced: the dictionary grows at its end.\<close>

lemma dsetdefault_prefix: "\<exists>e. snd (dsetdefault k v d) = d @ e \<and> set e \<subseteq> {(k, v)}"
  by (auto simp: dsetdefault_def split: option.splits)

lemma add_missing_prefix: "\<exists>e. add_missing new d = d @ e \<and> set e \<subseteq> set new"
proof (induction new arbitrary: d)
  case (Cons kv new)
  obtain e1 where "snd (dsetdefault (fst kv) (snd kv) d) = d @ e1" "set e1 \<subseteq> {kv}"
    using dsetdefault_prefix [of "fst kv" "snd kv" d] by auto
  moreover obtain e2 where "add_missing new (d @ e1) = (d @ e1) @ e2" "set e2 \<subseteq> set new"
    using Cons.IH [of "d @ e1"] by blast
  ultimately show ?case by (intro exI [of _ "e1 @ e2"]) (auto simp: add_missing_Cons)
qed simp

lemma set_add_missing: "set (add_missing new d) \<subseteq> set d \<union> set new"
  using add_missing_prefix [of new d] by auto

lemma add_missing_members:
  "dwf new \<Longrightarrow> kv \<in> set (add_missing new d) \<Longrightarrow> kv \<in> set d \<or> kv \<in> set new \<and> fst kv \<notin> fst ` set d"
proof (induction new arbitrary: d)
  case (Cons x new)
  have n: "dwf new" "fst x \<notin> fst ` set new" using Cons.prems(1) by (auto simp: dwf_def)
  have "set (snd (dsetdefault (fst x) (snd x) d)) = (if fst x \<in> fst ` set d then set d else insert x (set d))"
    using map_of_eq_None_iff [of d "fst x"] by (auto simp: dsetdefault_def split: option.splits)
  then show ?case
    using Cons.IH [OF n(1), of "snd (dsetdefault (fst x) (snd x) d)"] Cons.prems(2) n(2)
    by (auto simp: add_missing_Cons split: if_splits)
qed simp

lemma add_missing_id: "fst ` set new \<subseteq> fst ` set d \<Longrightarrow> add_missing new d = d"
  by (induction new arbitrary: d) (auto simp: add_missing_Cons dsetdefault_def map_of_eq_None_iff split: option.splits)

lemma add_missing_is_id_iff: "add_missing new d = d \<longleftrightarrow> fst ` set new \<subseteq> fst ` set d"
  using add_missing_id [of new d] keys_add_missing [of new d] by (metis Un_upper2)

text \<open>\<^verbatim>\<open>for k, v in l: m[k] = f v (m.get(k))\<close>.\<close>

lemma dget_upserts:
  assumes "distinct (map fst l)"
  shows "dget (foldl (\<lambda>m kv. dset (fst kv) (f (snd kv) (dget m (fst kv))) m) m l) k =
    (case dget l k of None \<Rightarrow> dget m k | Some v \<Rightarrow> Some (f v (dget m k)))"
  using assms
  by (induction l arbitrary: m) (auto simp: dget_dset map_of_eq_None_iff image_iff split: option.splits)

lemma dset_same: "dget d k = Some v \<Longrightarrow> dset k v d = d"
  by (induction k v d rule: dset.induct) (auto split: if_splits)

section \<open>The state\<close>

type_synonym card_map = "(ustr, search_result) pdict"
type_synonym sources_map = "(ustr, card_map) pdict"

record index_entry =
  ie_item :: "home_item option"
  ie_row_type :: "ustr option"

record registration =
  reg_expires :: rat
  reg_providers :: card_map

datatype group_origin = Origin_snapshot | Origin_registered

record snapshot_entry =
  se_card :: home_item
  se_row_type :: "ustr option"

record group_resolution =
  gr_key :: ustr
  gr_origin :: group_origin
  gr_card :: "home_item option"
  gr_row_type :: "ustr option"
  gr_sources :: "search_result list"
  gr_year :: "int option"
  gr_genres :: "ustr list"

text \<open>
  \<^verbatim>\<open>CatalogState\<close> with the three caches it writes, and the snapshots handed to the snapshot store, in order.
\<close>

record catalog =
  cat_index :: "(ustr, index_entry) pdict"
  cat_regs :: "(ustr, registration) pdict"
  cat_search_ttl :: int
  cat_home :: "home_row list ttl_cache"
  cat_sources :: "sources_map ttl_cache"
  cat_deep :: "home_item list ttl_cache"
  cat_saved :: "(home_row list \<times> sources_map) list"

definition home_key :: ustr where "home_key = u ''home:v1''"
definition sources_key :: ustr where "sources_key = u ''home:sources:v1''"

text \<open>The state of a fresh process: the lifetimes of the settings and empty stores.\<close>

definition new_catalog :: "int \<Rightarrow> int \<Rightarrow> int \<Rightarrow> catalog" where
  "new_catalog search_s home_s content_s =
     \<lparr>cat_index = [], cat_regs = [], cat_search_ttl = search_s, cat_home = new_cache home_s,
      cat_sources = new_cache home_s, cat_deep = new_cache content_s, cat_saved = []\<rparr>"

section \<open>Reads\<close>

definition entry :: "ustr \<Rightarrow> catalog \<Rightarrow> index_entry option" where
  "entry k c = dget (cat_index c) k"

text \<open>\<^verbatim>\<open>sources\<close>: the read may evict an expired map.\<close>

definition current_sources :: "rat \<Rightarrow> catalog \<Rightarrow> sources_map \<times> catalog" where
  "current_sources now c =
     (let (v, cache) = cache_get now sources_key (cat_sources c)
      in (case v of None \<Rightarrow> [] | Some m \<Rightarrow> m, c\<lparr>cat_sources := cache\<rparr>))"

fun first_source_year :: "search_result list \<Rightarrow> int option" where
  "first_source_year [] = None"
| "first_source_year (s # ss) = (case year s of Some y \<Rightarrow> Some y | None \<Rightarrow> first_source_year ss)"

definition first_year :: "home_item option \<Rightarrow> search_result list \<Rightarrow> int option" where
  "first_year shown ss =
     (case Option.bind shown hi_year of Some y \<Rightarrow> Some y | None \<Rightarrow> first_source_year ss)"

fun first_source_genres :: "search_result list \<Rightarrow> ustr list" where
  "first_source_genres [] = []"
| "first_source_genres (s # ss) = (if genres s \<noteq> [] then genres s else first_source_genres ss)"

definition first_genres :: "home_item option \<Rightarrow> search_result list \<Rightarrow> ustr list" where
  "first_genres shown ss =
     (case shown of
        Some it \<Rightarrow> if hi_genres it \<noteq> [] then hi_genres it else first_source_genres ss
      | None \<Rightarrow> first_source_genres ss)"

definition resolve :: "rat \<Rightarrow> ustr \<Rightarrow> catalog \<Rightarrow> group_resolution option \<times> catalog" where
  "resolve now k c =
     (let e = entry k c; (m, c') = current_sources now c; per = dget m k in
      (if e = None \<and> per = None then None
       else
         (let shown = Option.bind e ie_item; ss = (case per of None \<Rightarrow> [] | Some d \<Rightarrow> map snd d) in
          Some \<lparr>gr_key = k, gr_origin = (if shown \<noteq> None then Origin_snapshot else Origin_registered),
                gr_card = shown, gr_row_type = Option.bind e ie_row_type, gr_sources = ss,
                gr_year = first_year shown ss, gr_genres = first_genres shown ss\<rparr>), c'))"

definition resolved_providers :: "group_resolution \<Rightarrow> ustr list" where
  "resolved_providers r =
     (case gr_card r of Some it \<Rightarrow> hi_providers it | None \<Rightarrow> map provider (gr_sources r))"

definition resolved_source :: "group_resolution \<Rightarrow> ustr \<Rightarrow> search_result option" where
  "resolved_source r p = find (\<lambda>s. provider s = p) (gr_sources r)"

text \<open>\<^verbatim>\<open>snapshot_entries\<close>: the loop over the index with the keys seen so far.\<close>

fun entries_from :: "ustr list \<Rightarrow> index_entry list \<Rightarrow> snapshot_entry list" where
  "entries_from seen [] = []"
| "entries_from seen (e # es) =
     (case ie_item e of
        None \<Rightarrow> entries_from seen es
      | Some it \<Rightarrow>
          if hi_group_key it \<in> set seen then entries_from seen es
          else \<lparr>se_card = it, se_row_type = ie_row_type e\<rparr> # entries_from (hi_group_key it # seen) es)"

definition snapshot_entries :: "catalog \<Rightarrow> snapshot_entry list" where
  "snapshot_entries c = entries_from [] (map snd (cat_index c))"

section \<open>The apply step\<close>

text \<open>\<^verbatim>\<open>_live_registrations\<close>: what is still alive, and the state without what is not.\<close>

definition live_registrations :: "rat \<Rightarrow> catalog \<Rightarrow> (ustr, card_map) pdict \<times> catalog" where
  "live_registrations now c =
     (let live = filter (\<lambda>(_, r). \<not> reg_expires r < now) (cat_regs c)
      in (map (\<lambda>(k, r). (k, reg_providers r)) live, c\<lparr>cat_regs := live\<rparr>))"

definition item_keys :: "home_item \<Rightarrow> ustr list" where
  "item_keys it = (if hi_member_keys it \<noteq> [] then hi_member_keys it else [hi_group_key it])"

definition row_cards :: "home_row list \<Rightarrow> (ustr \<times> index_entry) list" where
  "row_cards rows =
     [(k, \<lparr>ie_item = Some it, ie_row_type = Some (hr_type r)\<rparr>). r \<leftarrow> rows, it \<leftarrow> hr_items r, k \<leftarrow> item_keys it]"

definition entries_from_rows :: "home_row list \<Rightarrow> (ustr, index_entry) pdict" where
  "entries_from_rows rows = add_missing (row_cards rows) []"

definition registered_entry :: index_entry where
  "registered_entry = \<lparr>ie_item = None, ie_row_type = None\<rparr>"

definition merge_registration :: "sources_map \<Rightarrow> ustr \<times> card_map \<Rightarrow> sources_map" where
  "merge_registration m kr =
     dset (fst kr) (add_missing (snd kr) (case dget m (fst kr) of None \<Rightarrow> [] | Some d \<Rightarrow> d)) m"

definition apply_snapshot ::
  "rat \<Rightarrow> home_row list \<Rightarrow> sources_map option \<Rightarrow> bool \<Rightarrow> catalog \<Rightarrow> catalog" where
  "apply_snapshot now rows src persist c =
     (let (live, c1) = live_registrations now c;
          merged = map_option (\<lambda>m. foldl merge_registration m live) src;
          entries = add_missing (map (\<lambda>(k, _). (k, registered_entry)) live) (entries_from_rows rows);
          c2 = c1\<lparr>cat_home := cache_set now home_key rows None (cat_home c1)\<rparr>;
          c3 = (case merged of None \<Rightarrow> c2 | Some m \<Rightarrow> c2\<lparr>cat_sources := cache_set now sources_key m None (cat_sources c2)\<rparr>);
          c4 = c3\<lparr>cat_index := entries, cat_deep := cache_clear (cat_deep c3)\<rparr>
      in case src of
           Some m \<Rightarrow> if persist then c4\<lparr>cat_saved := cat_saved c4 @ [(rows, m)]\<rparr> else c4
         | None \<Rightarrow> c4)"

text \<open>The registrations \<^verbatim>\<open>_replace_index\<close> reports as retired.\<close>

definition retired :: "(ustr, index_entry) pdict \<Rightarrow> (ustr, index_entry) pdict \<Rightarrow> ustr list" where
  "retired old new = [k. (k, e) \<leftarrow> old, ie_item e = None \<and> k \<notin> set (dkeys new)]"

section \<open>Search registration\<close>

definition search_keys :: "group_projection \<Rightarrow> ustr list" where
  "search_keys g = (if gp_member_keys g \<noteq> [] then gp_member_keys g else [gp_key g])"

text \<open>What the loop of \<^verbatim>\<open>register_search\<close> updates.\<close>

record registering =
  rs_map :: sources_map
  rs_index :: "(ustr, index_entry) pdict"
  rs_regs :: "(ustr, registration) pdict"
  rs_changed :: bool

definition register_map :: "card_map \<Rightarrow> ustr \<Rightarrow> registering \<Rightarrow> registering" where
  "register_map un k r =
     (case dget (rs_map r) k of
        None \<Rightarrow> r\<lparr>rs_map := dset k un (rs_map r), rs_changed := True\<rparr>
      | Some current \<Rightarrow>
          (let merged = add_missing un current in
           if merged \<noteq> current then r\<lparr>rs_map := dset k merged (rs_map r), rs_changed := True\<rparr> else r))"

definition register_index :: "ustr \<Rightarrow> registering \<Rightarrow> registering" where
  "register_index k r =
     (if k \<notin> set (dkeys (rs_index r))
      then r\<lparr>rs_index := dset k registered_entry (rs_index r), rs_changed := True\<rparr> else r)"

definition owned_cards :: "rat \<Rightarrow> (ustr, registration) pdict \<Rightarrow> ustr \<Rightarrow> card_map" where
  "owned_cards now regs k =
     (case dget regs k of
        None \<Rightarrow> []
      | Some earlier \<Rightarrow> if now \<le> reg_expires earlier then reg_providers earlier else [])"

definition register_key :: "rat \<Rightarrow> rat \<Rightarrow> registering \<Rightarrow> card_map \<times> ustr \<Rightarrow> registering" where
  "register_key now expires r uk =
     (let r2 = register_index (snd uk) (register_map (fst uk) (snd uk) r) in
      r2\<lparr>rs_regs := dset (snd uk)
           \<lparr>reg_expires = expires, reg_providers = add_missing (fst uk) (owned_cards now (rs_regs r2) (snd uk))\<rparr>
           (rs_regs r2)\<rparr>)"

definition search_pairs :: "group_projection list \<Rightarrow> (card_map \<times> ustr) list" where
  "search_pairs gs = [(provider_union (gp_sources g), k). g \<leftarrow> gs, k \<leftarrow> search_keys g]"

definition register_search :: "rat \<Rightarrow> group_projection list \<Rightarrow> catalog \<Rightarrow> catalog" where
  "register_search now gs c =
     (if gs = [] then c
      else
        (let (existing, c1) = current_sources now c;
             expires = f_add now (f_of_int (cat_search_ttl c1));
             r = foldl (register_key now expires)
                   \<lparr>rs_map = existing, rs_index = cat_index c1, rs_regs = cat_regs c1, rs_changed = False\<rparr>
                   (search_pairs gs);
             c2 = c1\<lparr>cat_index := rs_index r, cat_regs := rs_regs r\<rparr>
         in if rs_changed r
            then c2\<lparr>cat_sources := cache_set now sources_key (rs_map r) None (cat_sources c2)\<rparr> else c2))"

section \<open>Clears and seeds\<close>

definition invalidate :: "catalog \<Rightarrow> catalog" where
  "invalidate c = c\<lparr>cat_home := cache_clear (cat_home c), cat_deep := cache_clear (cat_deep c)\<rparr>"

definition seed_sources :: "rat \<Rightarrow> sources_map \<Rightarrow> catalog \<Rightarrow> catalog" where
  "seed_sources now m c = c\<lparr>cat_sources := cache_set now sources_key m None (cat_sources c)\<rparr>"

definition reset :: "catalog \<Rightarrow> catalog" where
  "reset c = c\<lparr>cat_sources := cache_clear (cat_sources c), cat_index := [], cat_regs := []\<rparr>"

section \<open>Runs\<close>

datatype cat_op =
    Apply "home_row list" "sources_map option" bool
  | Register "group_projection list"
  | Invalidate
  | Seed sources_map
  | Read ustr
  | Reset

fun cat_step :: "catalog \<Rightarrow> rat \<times> cat_op \<Rightarrow> catalog" where
  "cat_step c (now, Apply rows src persist) = apply_snapshot now rows src persist c"
| "cat_step c (now, Register gs) = register_search now gs c"
| "cat_step c (now, Invalidate) = invalidate c"
| "cat_step c (now, Seed m) = seed_sources now m c"
| "cat_step c (now, Read k) = snd (resolve now k c)"
| "cat_step c (now, Reset) = reset c"

definition cat_run :: "catalog \<Rightarrow> (rat \<times> cat_op) list \<Rightarrow> catalog" where
  "cat_run c ops = foldl cat_step c ops"

lemma foldl_invariant:
  assumes "P s" and "\<And>s x. x \<in> set xs \<Longrightarrow> P s \<Longrightarrow> P (f s x)"
  shows "P (foldl f s xs)"
  using assms by (induction xs arbitrary: s) auto

text \<open>The lifetimes are never changed.\<close>

lemma current_sources_sel [simp]:
  "cat_index (snd (current_sources now c)) = cat_index c"
  "cat_regs (snd (current_sources now c)) = cat_regs c"
  "cat_search_ttl (snd (current_sources now c)) = cat_search_ttl c"
  "default_ttl_s (cat_sources (snd (current_sources now c))) = default_ttl_s (cat_sources c)"
  by (auto simp: current_sources_def cache_get_def case_prod_beta split: option.splits)

lemma snd_resolve [simp]: "snd (resolve now k c) = snd (current_sources now c)"
  by (simp add: resolve_def Let_def case_prod_beta)

lemma register_map_sel [simp]:
  "rs_index (register_map un k r) = rs_index r" "rs_regs (register_map un k r) = rs_regs r"
  by (auto simp: register_map_def Let_def split: option.splits)

lemma register_index_sel [simp]:
  "rs_map (register_index k r) = rs_map r" "rs_regs (register_index k r) = rs_regs r"
  "rs_index (register_index k r) =
     (if k \<in> set (dkeys (rs_index r)) then rs_index r else dset k registered_entry (rs_index r))"
  by (auto simp: register_index_def)

lemma rs_map_register_map:
  "rs_map (register_map un k r) =
     dset k (case dget (rs_map r) k of None \<Rightarrow> un | Some d \<Rightarrow> add_missing un d) (rs_map r)"
  by (auto simp: register_map_def Let_def dset_same split: option.splits)

lemma register_key_sel [simp]:
  "rs_map (register_key now e r uk) =
     dset (snd uk) (case dget (rs_map r) (snd uk) of None \<Rightarrow> fst uk | Some d \<Rightarrow> add_missing (fst uk) d) (rs_map r)"
  "rs_index (register_key now e r uk) =
     (if snd uk \<in> set (dkeys (rs_index r)) then rs_index r else dset (snd uk) registered_entry (rs_index r))"
  "rs_regs (register_key now e r uk) =
     dset (snd uk) \<lparr>reg_expires = e, reg_providers = add_missing (fst uk) (owned_cards now (rs_regs r) (snd uk))\<rparr> (rs_regs r)"
  by (simp_all add: register_key_def Let_def rs_map_register_map)

text \<open>The loop of a search, from a state.\<close>

definition search_loop :: "rat \<Rightarrow> group_projection list \<Rightarrow> catalog \<Rightarrow> registering" where
  "search_loop now gs c =
     foldl (register_key now (f_add now (f_of_int (cat_search_ttl c))))
       \<lparr>rs_map = fst (current_sources now c), rs_index = cat_index c, rs_regs = cat_regs c, rs_changed = False\<rparr>
       (search_pairs gs)"

lemma search_pairs_Nil [simp]: "search_pairs [] = []"
  by (simp add: search_pairs_def)

lemma register_search_sel [simp]:
  "cat_index (register_search now gs c) = rs_index (search_loop now gs c)"
  "cat_regs (register_search now gs c) = rs_regs (search_loop now gs c)"
  "cat_search_ttl (register_search now gs c) = cat_search_ttl c"
  "default_ttl_s (cat_sources (register_search now gs c)) = default_ttl_s (cat_sources c)"
  by (auto simp: register_search_def search_loop_def Let_def case_prod_beta cache_set_def)

lemma live_sel [simp]:
  "fst (live_registrations now c) = map (\<lambda>(k, r). (k, reg_providers r)) (cat_regs (snd (live_registrations now c)))"
  "cat_regs (snd (live_registrations now c)) = filter (\<lambda>(_, r). \<not> reg_expires r < now) (cat_regs c)"
  "cat_search_ttl (snd (live_registrations now c)) = cat_search_ttl c"
  "cat_sources (snd (live_registrations now c)) = cat_sources c"
  "cat_saved (snd (live_registrations now c)) = cat_saved c"
  by (simp_all add: live_registrations_def Let_def)

lemma apply_snapshot_sel [simp]:
  "cat_index (apply_snapshot now rows src persist c) =
     add_missing (map (\<lambda>(k, _). (k, registered_entry)) (fst (live_registrations now c))) (entries_from_rows rows)"
  "cat_regs (apply_snapshot now rows src persist c) = cat_regs (snd (live_registrations now c))"
  "cat_search_ttl (apply_snapshot now rows src persist c) = cat_search_ttl c"
  "default_ttl_s (cat_sources (apply_snapshot now rows src persist c)) = default_ttl_s (cat_sources c)"
  "cat_sources (apply_snapshot now rows src persist c) =
     (case src of
        None \<Rightarrow> cat_sources c
      | Some m \<Rightarrow> cache_set now sources_key (foldl merge_registration m (fst (live_registrations now c))) None (cat_sources c))"
  "cat_saved (apply_snapshot now rows src persist c) =
     (case src of Some m \<Rightarrow> if persist then cat_saved c @ [(rows, m)] else cat_saved c | None \<Rightarrow> cat_saved c)"
proof -
  obtain live c1 where l: "live_registrations now c = (live, c1)" by (cases "live_registrations now c")
  have sel: "cat_search_ttl c1 = cat_search_ttl c" "cat_sources c1 = cat_sources c" "cat_saved c1 = cat_saved c"
    using live_sel(3-5) [of now c] l by simp_all
  note * = apply_snapshot_def l sel cache_set_def
  show "cat_index (apply_snapshot now rows src persist c) =
      add_missing (map (\<lambda>(k, _). (k, registered_entry)) (fst (live_registrations now c))) (entries_from_rows rows)"
    by (cases src; cases persist) (simp_all add: *)
  show "cat_regs (apply_snapshot now rows src persist c) = cat_regs (snd (live_registrations now c))"
    by (cases src; cases persist) (simp_all add: * del: live_sel)
  show "cat_search_ttl (apply_snapshot now rows src persist c) = cat_search_ttl c"
    by (cases src; cases persist) (simp_all add: *)
  show "default_ttl_s (cat_sources (apply_snapshot now rows src persist c)) = default_ttl_s (cat_sources c)"
    by (cases src; cases persist) (simp_all add: *)
  show "cat_sources (apply_snapshot now rows src persist c) =
     (case src of
        None \<Rightarrow> cat_sources c
      | Some m \<Rightarrow> cache_set now sources_key (foldl merge_registration m (fst (live_registrations now c))) None (cat_sources c))"
    by (cases src; cases persist) (simp_all add: * del: live_sel)
  show "cat_saved (apply_snapshot now rows src persist c) =
     (case src of Some m \<Rightarrow> if persist then cat_saved c @ [(rows, m)] else cat_saved c | None \<Rightarrow> cat_saved c)"
    by (cases src; cases persist) (simp_all add: *)
qed

lemma clear_sel [simp]:
  "cat_index (invalidate c) = cat_index c" "cat_regs (invalidate c) = cat_regs c"
  "cat_index (seed_sources now m c) = cat_index c" "cat_regs (seed_sources now m c) = cat_regs c"
  "cat_index (reset c) = []" "cat_regs (reset c) = []"
  "cat_search_ttl (invalidate c) = cat_search_ttl c" "cat_search_ttl (seed_sources now m c) = cat_search_ttl c"
  "cat_search_ttl (reset c) = cat_search_ttl c"
  "default_ttl_s (cat_sources (invalidate c)) = default_ttl_s (cat_sources c)"
  "default_ttl_s (cat_sources (seed_sources now m c)) = default_ttl_s (cat_sources c)"
  "default_ttl_s (cat_sources (reset c)) = default_ttl_s (cat_sources c)"
  by (simp_all add: invalidate_def seed_sources_def reset_def cache_set_def cache_clear_def)

lemma cat_run_ttl [simp]:
  "cat_search_ttl (cat_run c ops) = cat_search_ttl c"
  "default_ttl_s (cat_sources (cat_run c ops)) = default_ttl_s (cat_sources c)"
proof -
  have "cat_search_ttl (cat_step c' e) = cat_search_ttl c' \<and>
    default_ttl_s (cat_sources (cat_step c' e)) = default_ttl_s (cat_sources c')" for c' e
    by (cases e; cases "snd e") (simp_all del: apply_snapshot_sel(5))
  then have "cat_search_ttl (cat_run c ops) = cat_search_ttl c \<and>
    default_ttl_s (cat_sources (cat_run c ops)) = default_ttl_s (cat_sources c)"
    unfolding cat_run_def
    by (induction ops rule: rev_induct) simp_all
  then show "cat_search_ttl (cat_run c ops) = cat_search_ttl c"
    "default_ttl_s (cat_sources (cat_run c ops)) = default_ttl_s (cat_sources c)" by simp_all
qed

section \<open>The two layers\<close>

text \<open>
  What every reachable state satisfies: an entry without a card is a registered key, an entry with one is a
  key of its card, a registration is indexed, and a registration files every card under its provider.
\<close>

definition keyed :: "card_map \<Rightarrow> bool" where
  "keyed d \<longleftrightarrow> list_all (\<lambda>(p, s). provider s = p) d"

definition entry_ok :: "(ustr, registration) pdict \<Rightarrow> ustr \<Rightarrow> index_entry \<Rightarrow> bool" where
  "entry_ok regs k e \<longleftrightarrow>
     (case ie_item e of
        None \<Rightarrow> e = registered_entry \<and> k \<in> fst ` set regs
      | Some it \<Rightarrow> ie_row_type e \<noteq> None \<and> k \<in> set (item_keys it))"

definition layers_ok :: "(ustr, index_entry) pdict \<Rightarrow> (ustr, registration) pdict \<Rightarrow> bool" where
  "layers_ok idx regs \<longleftrightarrow>
     dwf idx \<and> dwf regs \<and> fst ` set regs \<subseteq> fst ` set idx \<and>
     (\<forall>(k, e) \<in> set idx. entry_ok regs k e) \<and> (\<forall>(k, r) \<in> set regs. dwf (reg_providers r) \<and> keyed (reg_providers r))"

definition cat_ok :: "catalog \<Rightarrow> bool" where
  "cat_ok c \<longleftrightarrow> layers_ok (cat_index c) (cat_regs c)"

lemma keyed_add_missing: "keyed d \<Longrightarrow> keyed new \<Longrightarrow> keyed (add_missing new d)"
  using set_add_missing [of new d] by (fastforce simp: keyed_def list_all_iff)

lemma keyed_Nil [simp]: "keyed []"
  by (simp add: keyed_def)

lemma provider_union_add_missing: "provider_union ss = add_missing (map (\<lambda>s. (provider s, s)) ss) []"
  by (simp add: provider_union_def add_missing_def foldl_map)

lemma provider_union_ok [simp]: "dwf (provider_union ss)" "keyed (provider_union ss)"
  "fst ` set (provider_union ss) = provider ` set ss" "snd ` set (provider_union ss) \<subseteq> set ss"
proof -
  show "dwf (provider_union ss)" by (simp add: provider_union_add_missing)
  show "keyed (provider_union ss)"
    unfolding provider_union_add_missing by (rule keyed_add_missing) (simp_all add: keyed_def list_all_iff)
  show "fst ` set (provider_union ss) = provider ` set ss"
    by (auto simp: provider_union_add_missing image_iff)
  show "snd ` set (provider_union ss) \<subseteq> set ss"
    using set_add_missing [of "map (\<lambda>s. (provider s, s)) ss" "[]"] by (auto simp: provider_union_add_missing)
qed

lemma search_pairs_iff:
  "(un, k) \<in> set (search_pairs gs) \<longleftrightarrow> (\<exists>g \<in> set gs. un = provider_union (gp_sources g) \<and> k \<in> set (search_keys g))"
  by (auto simp: search_pairs_def)

lemma owned_ok:
  "layers_ok idx regs \<Longrightarrow> dwf (owned_cards now regs k) \<and> keyed (owned_cards now regs k)"
  by (auto simp: owned_cards_def layers_ok_def split: option.splits dest: map_of_SomeD)

lemma set_dset_wf: "dwf d \<Longrightarrow> set (dset k v d) = insert (k, v) {x \<in> set d. fst x \<noteq> k}"
  by (induction k v d rule: dset.induct) (auto simp: dwf_def)

lemma entry_ok_mono: "entry_ok regs k e \<Longrightarrow> fst ` set regs \<subseteq> fst ` set regs' \<Longrightarrow> entry_ok regs' k e"
  by (auto simp: entry_ok_def split: option.splits)

lemma entry_ok_registered [simp]: "entry_ok regs k registered_entry \<longleftrightarrow> k \<in> fst ` set regs"
  by (simp add: entry_ok_def registered_entry_def)

lemma register_key_layers:
  assumes "layers_ok (rs_index r) (rs_regs r)" and "dwf (fst uk)" "keyed (fst uk)"
  shows "layers_ok (rs_index (register_key now e r uk)) (rs_regs (register_key now e r uk))"
proof -
  let ?n = "\<lparr>reg_expires = e, reg_providers = add_missing (fst uk) (owned_cards now (rs_regs r) (snd uk))\<rparr>"
  let ?regs = "dset (snd uk) ?n (rs_regs r)"
  have own: "dwf (reg_providers ?n)" "keyed (reg_providers ?n)"
    using owned_ok [OF assms(1)] assms(3) by (simp_all add: keyed_add_missing)
  have regs: "\<forall>(k, r') \<in> set ?regs. dwf (reg_providers r') \<and> keyed (reg_providers r')"
    using set_dset [of "snd uk" ?n "rs_regs r"] own assms(1) by (fastforce simp: layers_ok_def)
  have sub: "fst ` set (rs_regs r) \<subseteq> fst ` set ?regs" by auto
  have old: "entry_ok (rs_regs r) k x" if "(k, x) \<in> set (rs_index r)" for k x
    using assms(1) that by (auto simp: layers_ok_def)
  have "entry_ok ?regs k x" if x: "(k, x) \<in> set (rs_index (register_key now e r uk))" for k x
  proof (cases "(k, x) \<in> set (rs_index r)")
    case True
    then show ?thesis using old entry_ok_mono sub by blast
  next
    case False
    then have "k = snd uk \<and> x = registered_entry"
      using x set_dset [of "snd uk" registered_entry "rs_index r"] by (auto split: if_splits)
    then show ?thesis by simp
  qed
  then have idx: "\<forall>(k, x) \<in> set (rs_index (register_key now e r uk)). entry_ok ?regs k x" by blast
  show ?thesis using assms(1) regs idx by (auto simp: layers_ok_def)
qed

lemma row_cards_ok: "(k, e) \<in> set (row_cards rows) \<Longrightarrow> entry_ok regs k e"
  by (auto simp: row_cards_def entry_ok_def)

lemma cat_step_ok:
  assumes "cat_ok c"
  shows "cat_ok (cat_step c e)"
proof -
  obtain now op where e: "e = (now, op)" by force
  show ?thesis
  proof (cases op)
    case (Apply rows src persist)
    let ?regs = "cat_regs (snd (live_registrations now c))"
    let ?live = "map (\<lambda>(k, _). (k, registered_entry)) (fst (live_registrations now c))"
    have keys: "fst ` set ?live = fst ` set ?regs" by (force simp: image_image)
    have "set (add_missing ?live (entries_from_rows rows)) \<subseteq> set ?live \<union> set (row_cards rows)"
      using set_add_missing [of ?live "entries_from_rows rows"] set_add_missing [of "row_cards rows" "[]"]
      by (auto simp: entries_from_rows_def)
    moreover have "\<forall>(k, x) \<in> set ?live. entry_ok ?regs k x" by force
    ultimately have "\<forall>(k, x) \<in> set (add_missing ?live (entries_from_rows rows)). entry_ok ?regs k x"
      using row_cards_ok by blast
    moreover have "dwf ?regs \<and> (\<forall>(k, r) \<in> set ?regs. dwf (reg_providers r) \<and> keyed (reg_providers r))"
      using assms by (auto simp: cat_ok_def layers_ok_def)
    ultimately show ?thesis
      using keys by (auto simp: e Apply cat_ok_def layers_ok_def entries_from_rows_def simp del: live_sel(1))
  next
    case (Register gs)
    let ?r0 = "\<lparr>rs_map = fst (current_sources now c), rs_index = cat_index c, rs_regs = cat_regs c, rs_changed = False\<rparr>"
    have "layers_ok (rs_index (search_loop now gs c)) (rs_regs (search_loop now gs c))"
      unfolding search_loop_def
    proof (rule foldl_invariant [where P = "\<lambda>r. layers_ok (rs_index r) (rs_regs r)"])
      show "layers_ok (rs_index ?r0) (rs_regs ?r0)" using assms by (simp add: cat_ok_def)
    next
      fix r :: registering and uk assume "uk \<in> set (search_pairs gs)" "layers_ok (rs_index r) (rs_regs r)"
      then show "layers_ok (rs_index (register_key now (f_add now (f_of_int (cat_search_ttl c))) r uk))
          (rs_regs (register_key now (f_add now (f_of_int (cat_search_ttl c))) r uk))"
        by (intro register_key_layers) (auto simp: search_pairs_def)
    qed
    then show ?thesis by (simp add: e Register cat_ok_def)
  qed (use assms in \<open>simp_all add: e cat_ok_def layers_ok_def\<close>)
qed

lemma cat_ok_new: "cat_ok (new_catalog a b d)"
  by (simp add: cat_ok_def layers_ok_def new_catalog_def)

lemma cat_ok_run: "cat_ok c \<Longrightarrow> cat_ok (cat_run c ops)"
  unfolding cat_run_def by (rule foldl_invariant [where P = cat_ok]) (auto intro: cat_step_ok)

section \<open>The apply step\<close>

definition live_cards :: "rat \<Rightarrow> catalog \<Rightarrow> ustr \<Rightarrow> card_map option" where
  "live_cards now c k =
     (case dget (cat_regs c) k of
        None \<Rightarrow> None
      | Some r \<Rightarrow> if reg_expires r < now then None else Some (reg_providers r))"

lemma dget_filter_wf:
  "dwf d \<Longrightarrow> dget (filter (\<lambda>(_, v). P v) d) k = (case dget d k of None \<Rightarrow> None | Some v \<Rightarrow> if P v then Some v else None)"
  by (induction d) (auto simp: dwf_def map_of_eq_None_iff image_iff split: option.splits)

lemma dget_live:
  assumes "dwf (cat_regs c)"
  shows "dget (fst (live_registrations now c)) k = live_cards now c k"
  using assms by (simp add: map_of_map live_cards_def dget_filter_wf split: option.splits)

lemma dwf_live:
  assumes "dwf (cat_regs c)"
  shows "distinct (map fst (fst (live_registrations now c)))"
proof -
  have "map fst (fst (live_registrations now c)) = dkeys (filter (\<lambda>(_, r). \<not> reg_expires r < now) (cat_regs c))"
    by (simp add: case_prod_unfold)
  then show ?thesis using dwf_filter [OF assms] by (simp only: dwf_def)
qed

lemma current_after_set:
  assumes "cat_sources c = cache_set t sources_key m None s" and "t' \<le> expiry t (default_ttl_s s) None"
  shows "fst (current_sources t' c) = m"
  using assms by (auto simp: current_sources_def cache_get_def cache_set_def dget_dset)

lemma dget_merged:
  assumes "dwf (cat_regs c)"
  shows "dget (foldl merge_registration m (fst (live_registrations now c))) k =
    (case live_cards now c k of
       None \<Rightarrow> dget m k
     | Some r \<Rightarrow> Some (add_missing r (case dget m k of None \<Rightarrow> [] | Some d \<Rightarrow> d)))"
proof -
  have "merge_registration =
      (\<lambda>m kv. dset (fst kv) (add_missing (snd kv) (case dget m (fst kv) of None \<Rightarrow> [] | Some d \<Rightarrow> d)) m)"
    by (simp add: fun_eq_iff merge_registration_def)
  then show ?thesis
    using dget_upserts [OF dwf_live [OF assms, of now], of "\<lambda>v w. add_missing v (case w of None \<Rightarrow> [] | Some d \<Rightarrow> d)" m k]
    by (simp only: dget_live [OF assms])
qed

lemma dget_after_apply:
  assumes "cat_ok c" and "t' \<le> expiry t (default_ttl_s (cat_sources c)) None"
  shows "dget (fst (current_sources t' (apply_snapshot t rows (Some src) persist c))) k =
    (case live_cards t c k of
       None \<Rightarrow> dget src k
     | Some r \<Rightarrow> Some (add_missing r (case dget src k of None \<Rightarrow> [] | Some d \<Rightarrow> d)))"
proof -
  have "dwf (cat_regs c)" using assms(1) by (simp add: cat_ok_def layers_ok_def)
  moreover have "fst (current_sources t' (apply_snapshot t rows (Some src) persist c)) =
      foldl merge_registration src (fst (live_registrations t c))"
    by (rule current_after_set [OF _ assms(2)]) (simp del: live_sel)
  ultimately show ?thesis by (simp only: dget_merged)
qed

lemma dget_entries:
  assumes "dwf (cat_regs c)"
  shows "entry k (apply_snapshot now rows src persist c) =
    (case dget (row_cards rows) k of
       Some e \<Rightarrow> Some e
     | None \<Rightarrow> if live_cards now c k = None then None else Some registered_entry)"
proof -
  have "dget (map (\<lambda>(k, _). (k, registered_entry)) (fst (live_registrations now c))) k =
      map_option (\<lambda>_. registered_entry) (live_cards now c k)"
    using map_of_map [of "\<lambda>_. registered_entry" "fst (live_registrations now c)"]
    by (simp add: dget_live [OF assms] del: live_sel)
  then show ?thesis
    by (simp add: entry_def dget_add_missing entries_from_rows_def del: live_sel split: option.splits)
qed

text \<open>C27: After a snapshot is applied, every group key reads as the snapshot left it with what live
  search registrations add: the row that lists the key first gives its card, the snapshot's cards come
  first in its map and none is replaced, a registered key outside the snapshot keeps its sources, and
  the file that is written holds the snapshot's own map.\<close>

theorem apply_snapshot_spec:
  assumes "t' \<le> expiry t (default_ttl_s (cat_sources c)) None" and "c = cat_run (new_catalog ss hs cs) ops"
  shows "let c' = apply_snapshot t rows (Some src) True c; added = live_cards t c k in
    entry k c' = (case dget (row_cards rows) k of
      Some e \<Rightarrow> Some e | None \<Rightarrow> if added = None then None else Some registered_entry) \<and>
    dget (fst (current_sources t' c')) k = (case added of
      None \<Rightarrow> dget src k | Some r \<Rightarrow> Some (add_missing r (case dget src k of None \<Rightarrow> [] | Some d \<Rightarrow> d))) \<and>
    cat_saved c' = cat_saved c @ [(rows, src)]"
proof -
  have "cat_ok c" unfolding assms(2) by (rule cat_ok_run [OF cat_ok_new])
  then have wf: "dwf (cat_regs c)" by (simp add: cat_ok_def layers_ok_def)
  show ?thesis by (simp add: Let_def dget_entries [OF wf] dget_after_apply [OF \<open>cat_ok c\<close> assms(1)])
qed

section \<open>The promise of a search\<close>

definition promised :: "rat \<Rightarrow> ustr \<Rightarrow> ustr \<Rightarrow> (ustr, registration) pdict \<Rightarrow> bool" where
  "promised until k p regs \<longleftrightarrow>
     (case dget regs k of None \<Rightarrow> False | Some r \<Rightarrow> until \<le> reg_expires r \<and> p \<in> fst ` set (reg_providers r))"

lemma register_key_keeps:
  assumes "promised until k p (rs_regs r)" and "now \<le> until" and "until \<le> e"
  shows "promised until k p (rs_regs (register_key now e r uk))"
  using assms by (auto simp: promised_def dget_dset owned_cards_def split: option.splits)

lemma register_key_gives:
  "p \<in> fst ` set (fst uk) \<Longrightarrow> until \<le> e \<Longrightarrow> promised until (snd uk) p (rs_regs (register_key now e r uk))"
  by (simp add: promised_def dget_dset)

lemma search_loop_keeps:
  assumes "promised until k p (cat_regs c)" and "now \<le> until" and "until \<le> f_add now (f_of_int (cat_search_ttl c))"
  shows "promised until k p (cat_regs (register_search now gs c))"
  unfolding register_search_sel(2) search_loop_def
  by (rule foldl_invariant [where P = "\<lambda>r. promised until k p (rs_regs r)"])
    (use assms in \<open>simp_all only: register_key_keeps registering.select_convs\<close>)

lemma search_loop_gives:
  assumes "g \<in> set gs" "k \<in> set (search_keys g)" "s \<in> set (gp_sources g)"
    and "until = f_add now (f_of_int (cat_search_ttl c))" and "now \<le> until"
  shows "promised until k (provider s) (cat_regs (register_search now gs c))"
proof -
  let ?un = "provider_union (gp_sources g)" and ?f = "register_key now until"
  let ?r0 = "\<lparr>rs_map = fst (current_sources now c), rs_index = cat_index c, rs_regs = cat_regs c, rs_changed = False\<rparr>"
  have "(?un, k) \<in> set (search_pairs gs)" using assms(1,2) by (auto simp: search_pairs_iff)
  then obtain a b where ab: "search_pairs gs = a @ (?un, k) # b" by (auto simp: in_set_conv_decomp)
  have "promised until k (provider s) (rs_regs (?f (foldl ?f ?r0 a) (?un, k)))"
    using register_key_gives [of "provider s" "(?un, k)" until until] assms(3) by simp
  then have "promised until k (provider s) (rs_regs (foldl ?f (?f (foldl ?f ?r0 a) (?un, k)) b))"
    by (rule foldl_invariant [where P = "\<lambda>r. promised until k (provider s) (rs_regs r)"])
      (simp only: register_key_keeps assms(5) order_refl)
  then show ?thesis
    unfolding register_search_sel(2) search_loop_def ab assms(4) by simp
qed

lemma step_keeps_promise:
  assumes "promised until k p (cat_regs c)" and "cat_ok c" and "now \<le> until"
    and "until \<le> f_add now (f_of_int (cat_search_ttl c))" and "op \<noteq> Reset"
  shows "promised until k p (cat_regs (cat_step c (now, op)))"
proof (cases op)
  case (Apply rows src persist)
  have "dwf (cat_regs c)" using assms(2) by (simp add: cat_ok_def layers_ok_def)
  then show ?thesis using assms(1,3) by (auto simp: Apply promised_def dget_filter_wf split: option.splits)
next
  case (Register gs)
  then show ?thesis using search_loop_keeps [OF assms(1,3,4)] by simp
qed (use assms(1,5) in simp_all)

lemma cat_step_search_ttl: "cat_search_ttl (cat_step c e) = cat_search_ttl c"
  using cat_run_ttl(1) [of c "[e]"] by (simp add: cat_run_def)

lemma run_keeps_promise:
  assumes "promised until k p (cat_regs c)" and "cat_ok c"
    and "until \<le> f_add t0 (f_of_int (cat_search_ttl c))"
    and "list_all (\<lambda>(now, op). t0 \<le> now \<and> now \<le> until \<and> op \<noteq> Reset) ops"
  shows "promised until k p (cat_regs (cat_run c ops))"
proof -
  let ?P = "\<lambda>c'. promised until k p (cat_regs c') \<and> cat_ok c' \<and> cat_search_ttl c' = cat_search_ttl c"
  have "?P (foldl cat_step c ops)"
  proof (rule foldl_invariant [where P = ?P])
    fix c' e assume e: "e \<in> set ops" and P: "?P c'"
    obtain now op where [simp]: "e = (now, op)" by force
    have n: "t0 \<le> now" "now \<le> until" "op \<noteq> Reset" using assms(4) e by (auto simp: list_all_iff)
    have "until \<le> f_add now (f_of_int (cat_search_ttl c'))"
      using assms(3) f_add_mono [OF n(1)] P by (metis order_trans)
    then have "promised until k p (cat_regs (cat_step c' e))"
      using step_keeps_promise [of until k p c' now op] P n by simp
    then show "?P (cat_step c' e)" using cat_step_ok P cat_step_search_ttl by simp
  qed (use assms in simp)
  then show ?thesis by (simp add: cat_run_def)
qed

definition keyed_map :: "sources_map \<Rightarrow> bool" where
  "keyed_map m \<longleftrightarrow> list_all (\<lambda>(_, d). keyed d) m"

lemma resolved_source_of:
  assumes "dget (fst (current_sources now c)) k = Some d" and "keyed d" and "p \<in> fst ` set d"
  shows "\<exists>r. fst (resolve now k c) = Some r \<and> resolved_source r p \<noteq> None"
proof -
  obtain x where "(p, x) \<in> set d" using assms(3) by auto
  moreover have "provider x = p" using assms(2) calculation by (auto simp: keyed_def list_all_iff)
  ultimately have "find (\<lambda>s. provider s = p) (map snd d) \<noteq> None" by (auto simp: find_None_iff image_iff)
  then show ?thesis using assms(1) by (simp add: resolve_def Let_def case_prod_beta resolved_source_def)
qed

text \<open>C3: A search makes its results openable for the search TTL: whatever snapshots, searches, clears
  and reads come before the deadline, a snapshot applied by then resolves every key of every group the
  search returned to a source of every provider the search returned for it.\<close>

theorem search_promise_kept:
  assumes "g \<in> set gs" "k \<in> set (search_keys g)" "s \<in> set (gp_sources g)"
    and "c = cat_run (new_catalog ss hs cs) ops0"
    and "until = f_add t0 (f_of_int ss)" and "t0 \<le> t" "t \<le> until"
    and "list_all (\<lambda>(now, op). t0 \<le> now \<and> now \<le> until \<and> op \<noteq> Reset) ops"
    and "keyed_map src" and "t' \<le> expiry t hs None"
  shows "\<exists>r. fst (resolve t' k (apply_snapshot t rows (Some src) persist (cat_run (register_search t0 gs c) ops))) = Some r \<and>
    resolved_source r (provider s) \<noteq> None"
proof -
  let ?c2 = "cat_run (register_search t0 gs c) ops" and ?p = "provider s"
  have ttl: "cat_search_ttl c = ss" "default_ttl_s (cat_sources c) = hs"
    by (simp_all add: assms(4)) (simp_all add: new_catalog_def new_cache_def)
  have ok: "cat_ok (register_search t0 gs c)"
    using cat_step_ok [of c "(t0, Register gs)"] cat_ok_run [OF cat_ok_new] assms(4) by simp
  have "promised until k ?p (cat_regs (register_search t0 gs c))"
    by (rule search_loop_gives [OF assms(1-3)]) (use assms(5-7) ttl in \<open>auto intro: order_trans\<close>)
  then have "promised until k ?p (cat_regs ?c2)"
    by (rule run_keeps_promise [OF _ ok _ assms(8)]) (simp add: ttl assms(5))
  then obtain r where r: "dget (cat_regs ?c2) k = Some r" "until \<le> reg_expires r" "?p \<in> fst ` set (reg_providers r)"
    by (auto simp: promised_def split: option.splits)
  then have live: "live_cards t ?c2 k = Some (reg_providers r)" using assms(7) by (simp add: live_cards_def)
  have ok2: "cat_ok ?c2" by (rule cat_ok_run [OF ok])
  then have kr: "keyed (reg_providers r)"
    using r(1) by (auto simp: cat_ok_def layers_ok_def dest: map_of_SomeD)
  have kd: "keyed (case dget src k of None \<Rightarrow> [] | Some d \<Rightarrow> d)"
    using assms(9) by (auto simp: keyed_map_def list_all_iff split: option.splits dest: map_of_SomeD)
  have "t' \<le> expiry t (default_ttl_s (cat_sources ?c2)) None" using assms(10) ttl by simp
  then have "dget (fst (current_sources t' (apply_snapshot t rows (Some src) persist ?c2))) k =
      Some (add_missing (reg_providers r) (case dget src k of None \<Rightarrow> [] | Some d \<Rightarrow> d))"
    by (simp add: dget_after_apply [OF ok2] live)
  then show ?thesis
    by (rule resolved_source_of) (use r(3) kr kd in \<open>simp_all add: keyed_add_missing\<close>)
qed

section \<open>Nothing of an old snapshot survives\<close>

definition searched :: "(rat \<times> cat_op) set \<Rightarrow> ustr \<Rightarrow> search_result \<Rightarrow> bool" where
  "searched ops k s \<longleftrightarrow> (\<exists>now gs g. (now, Register gs) \<in> ops \<and> g \<in> set gs \<and> k \<in> set (search_keys g) \<and> s \<in> set (gp_sources g))"

definition regs_searched :: "(rat \<times> cat_op) set \<Rightarrow> (ustr, registration) pdict \<Rightarrow> bool" where
  "regs_searched ops regs \<longleftrightarrow> (\<forall>(k, r) \<in> set regs. \<forall>s \<in> snd ` set (reg_providers r). searched ops k s)"

lemma regs_searchedD:
  assumes "regs_searched ops regs" and "dget regs k = Some r" and "(p, s) \<in> set (reg_providers r)"
  shows "searched ops k s"
  using assms(1) map_of_SomeD [OF assms(2)] assms(3) by (force simp: regs_searched_def)

lemma owned_searched:
  "regs_searched ops regs \<Longrightarrow> s \<in> snd ` set (owned_cards now regs k) \<Longrightarrow> searched ops k s"
  by (cases "dget regs k") (auto simp: owned_cards_def split: if_splits intro: regs_searchedD)

lemma register_key_searched:
  assumes "regs_searched ops (rs_regs r)" and "\<And>s. s \<in> snd ` set (fst uk) \<Longrightarrow> searched ops (snd uk) s"
  shows "regs_searched ops (rs_regs (register_key now e r uk))"
proof -
  let ?p = "add_missing (fst uk) (owned_cards now (rs_regs r) (snd uk))"
  have "searched ops (snd uk) s" if "s \<in> snd ` set ?p" for s
    using that set_add_missing [of "fst uk" "owned_cards now (rs_regs r) (snd uk)"]
      owned_searched [OF assms(1)] assms(2) by blast
  then show ?thesis
    using set_dset [of "snd uk" "\<lparr>reg_expires = e, reg_providers = ?p\<rparr>" "rs_regs r"] assms(1)
    by (fastforce simp: regs_searched_def)
qed

lemma cat_step_searched:
  assumes "regs_searched ops (cat_regs c)" and "(now, op) \<in> ops"
  shows "regs_searched ops (cat_regs (cat_step c (now, op)))"
proof (cases op)
  case (Apply rows src persist)
  then show ?thesis using assms(1) by (auto simp: regs_searched_def)
next
  case (Register gs)
  have pair: "searched ops (snd uk) s" if "uk \<in> set (search_pairs gs)" "s \<in> snd ` set (fst uk)" for uk s
  proof -
    obtain un k where uk: "uk = (un, k)" by force
    have "(un, k) \<in> set (search_pairs gs)" using that(1) uk by simp
    then obtain g where g: "g \<in> set gs" "un = provider_union (gp_sources g)" "k \<in> set (search_keys g)"
      using search_pairs_iff [of un k gs] by auto
    have "s \<in> set (gp_sources g)" using that(2) subsetD [OF provider_union_ok(4) [of "gp_sources g"]] uk g(2) by simp
    then show ?thesis using g assms(2) uk Register unfolding searched_def by fastforce
  qed
  have "regs_searched ops (rs_regs (search_loop now gs c))"
    unfolding search_loop_def
    by (rule foldl_invariant [where P = "\<lambda>r. regs_searched ops (rs_regs r)"])
      (use assms(1) in \<open>simp_all only: register_key_searched pair registering.select_convs\<close>)
  then show ?thesis by (simp add: Register)
qed (use assms in \<open>simp_all add: regs_searched_def\<close>)

lemma run_searched: "regs_searched (set ops) (cat_regs (cat_run (new_catalog ss hs cs) ops))"
  unfolding cat_run_def
proof (rule foldl_invariant [where P = "\<lambda>c. regs_searched (set ops) (cat_regs c)"])
  show "regs_searched (set ops) (cat_regs (new_catalog ss hs cs))" by (simp add: new_catalog_def regs_searched_def)
qed (metis cat_step_searched prod.collapse)

text \<open>C12: A replaced snapshot leaves nothing behind: after a snapshot is applied, a card under a group key is
  the new snapshot's own, or one that a search returned for that very key and for a provider the new
  snapshot does not list under it.\<close>

theorem old_snapshot_is_gone:
  assumes "c = cat_run (new_catalog ss hs cs) ops" and "t' \<le> expiry t hs None"
    and "dget (fst (current_sources t' (apply_snapshot t rows (Some src) persist c))) k = Some d" and "(p, s) \<in> set d"
  shows "(\<exists>own. dget src k = Some own \<and> (p, s) \<in> set own) \<or>
    (searched (set ops) k s \<and> (case dget src k of None \<Rightarrow> True | Some own \<Rightarrow> dget own p = None))"
proof -
  have ttl: "default_ttl_s (cat_sources c) = hs"
    by (simp add: assms(1)) (simp add: new_catalog_def new_cache_def)
  have "cat_ok c" unfolding assms(1) by (rule cat_ok_run [OF cat_ok_new])
  let ?own = "case dget src k of None \<Rightarrow> [] | Some d \<Rightarrow> d"
  have d: "(case live_cards t c k of None \<Rightarrow> dget src k | Some r \<Rightarrow> Some (add_missing r ?own)) = Some d"
    using assms(2,3) by (simp add: dget_after_apply [OF \<open>cat_ok c\<close>] ttl)
  show ?thesis
  proof (cases "live_cards t c k")
    case None
    then show ?thesis using d assms(4) by auto
  next
    case (Some r)
    then obtain e where e: "dget (cat_regs c) k = Some e" "reg_providers e = r"
      by (auto simp: live_cards_def split: option.splits if_splits)
    have wr: "dwf r" using e \<open>cat_ok c\<close> by (auto simp: cat_ok_def layers_ok_def dest: map_of_SomeD)
    have s: "searched (set ops) k x" if "(q, x) \<in> set r" for q x
      using run_searched [of ops ss hs cs] e that unfolding assms(1) [symmetric] by (blast intro: regs_searchedD)
    have "(p, s) \<in> set ?own \<or> ((p, s) \<in> set r \<and> p \<notin> fst ` set ?own)"
      using d Some assms(4) add_missing_members [OF wr, of "(p, s)" ?own] by simp
    then show ?thesis using s by (cases "dget src k") (auto simp: map_of_eq_None_iff [symmetric] simp del: map_of_eq_None_iff)
  qed
qed

section \<open>What the two layers answer\<close>

lemma entries_from_keys:
  "map (\<lambda>e. hi_group_key (se_card e)) (entries_from seen es) =
     uniq_from seen (map hi_group_key (List.map_filter ie_item es))"
  by (induction seen es rule: entries_from.induct) (auto simp: List.map_filter_simps split: option.splits)


section \<open>A registration that outlives its map\<close>

definition covers :: "sources_map \<Rightarrow> (ustr, index_entry) pdict \<Rightarrow> card_map \<times> ustr \<Rightarrow> bool" where
  "covers m idx uk \<longleftrightarrow>
     snd uk \<in> fst ` set idx \<and> (case dget m (snd uk) of None \<Rightarrow> False | Some d \<Rightarrow> fst ` set (fst uk) \<subseteq> fst ` set d)"

lemma register_key_covers:
  assumes "covers (rs_map r) (rs_index r) x"
  shows "covers (rs_map (register_key now e r uk)) (rs_index (register_key now e r uk)) x"
proof -
  obtain d where d: "dget (rs_map r) (snd x) = Some d" "fst ` set (fst x) \<subseteq> fst ` set d" "snd x \<in> fst ` set (rs_index r)"
    using assms by (auto simp: covers_def split: option.splits)
  then obtain d' where "dget (rs_map (register_key now e r uk)) (snd x) = Some d'" "fst ` set d \<subseteq> fst ` set d'"
    by (cases "snd x = snd uk") (simp_all add: dget_dset)
  then show ?thesis using d by (auto simp: covers_def)
qed

lemma register_key_covers_it: "covers (rs_map (register_key now e r uk)) (rs_index (register_key now e r uk)) uk"
  by (auto simp: covers_def dget_dset split: option.splits)

lemma foldl_covers:
  "\<forall>x \<in> set uks. covers (rs_map (foldl (register_key now e) r uks)) (rs_index (foldl (register_key now e) r uks)) x"
proof (induction uks rule: rev_induct)
  case (snoc uk uks)
  then show ?case using register_key_covers register_key_covers_it by auto
qed simp

lemma search_loop_covers:
  "uk \<in> set (search_pairs gs) \<Longrightarrow> covers (rs_map (search_loop now gs c)) (rs_index (search_loop now gs c)) uk"
  using foldl_covers unfolding search_loop_def by blast

lemma coversD: "covers m idx uk \<Longrightarrow> m \<noteq> [] \<and> dget idx (snd uk) \<noteq> None"
  by (cases m) (simp_all add: covers_def map_of_eq_None_iff)

lemma register_key_covered:
  assumes "covers (rs_map r) (rs_index r) uk"
  shows "rs_map (register_key now e r uk) = rs_map r \<and> rs_index (register_key now e r uk) = rs_index r \<and>
    rs_changed (register_key now e r uk) = rs_changed r"
proof -
  obtain d where d: "dget (rs_map r) (snd uk) = Some d" "fst ` set (fst uk) \<subseteq> fst ` set d" "snd uk \<in> set (dkeys (rs_index r))"
    using assms by (auto simp: covers_def split: option.splits)
  have id: "add_missing (fst uk) d = d" by (rule add_missing_id [OF d(2)])
  have "rs_changed (register_map (fst uk) (snd uk) r) = rs_changed r"
    by (simp add: register_map_def d(1) id)
  moreover have "rs_changed (register_index (snd uk) r') = rs_changed r'" if "rs_index r' = rs_index r" for r' :: registering
    using d(3) that by (simp add: register_index_def)
  ultimately have "rs_changed (register_key now e r uk) = rs_changed r"
    by (simp add: register_key_def Let_def)
  then show ?thesis using d id by (simp add: dset_same)
qed

lemma foldl_covered:
  assumes "\<forall>x \<in> set uks. covers (rs_map r) (rs_index r) x"
  shows "rs_map (foldl (register_key now e) r uks) = rs_map r \<and>
    rs_index (foldl (register_key now e) r uks) = rs_index r \<and>
    rs_changed (foldl (register_key now e) r uks) = rs_changed r"
  using assms
proof (induction uks rule: rev_induct)
  case (snoc x uks)
  then show ?case using register_key_covered [of "foldl (register_key now e) r uks" x now e] by simp
qed simp

lemma register_key_unchanged:
  assumes "\<not> rs_changed (register_key now e r uk)"
  shows "rs_map (register_key now e r uk) = rs_map r \<and> rs_index (register_key now e r uk) = rs_index r \<and> \<not> rs_changed r"
proof -
  let ?r1 = "register_map (fst uk) (snd uk) r"
  have "\<not> rs_changed (register_index (snd uk) ?r1)" using assms by (simp add: register_key_def Let_def)
  then have i: "snd uk \<in> set (dkeys (rs_index r))" and m: "\<not> rs_changed ?r1"
    by (auto simp: register_index_def split: if_splits)
  from m have "rs_map ?r1 = rs_map r \<and> \<not> rs_changed r"
    by (auto simp: register_map_def Let_def split: option.splits if_splits)
  with i show ?thesis by (simp add: rs_map_register_map)
qed

lemma foldl_unchanged:
  assumes "\<not> rs_changed (foldl (register_key now e) r uks)"
  shows "rs_map (foldl (register_key now e) r uks) = rs_map r"
  using assms
proof (induction uks rule: rev_induct)
  case (snoc x uks)
  have "\<not> rs_changed (register_key now e (foldl (register_key now e) r uks) x)" using snoc.prems by simp
  from register_key_unchanged [OF this] show ?case using snoc.IH by simp
qed simp

lemma cat_sources_register:
  "gs \<noteq> [] \<Longrightarrow> cat_sources (register_search now gs c) =
     (if rs_changed (search_loop now gs c)
      then cache_set now sources_key (rs_map (search_loop now gs c)) None (cat_sources (snd (current_sources now c)))
      else cat_sources (snd (current_sources now c)))"
  by (simp add: register_search_def search_loop_def Let_def case_prod_beta)

lemma cached_after_register:
  assumes "uk \<in> set (search_pairs gs)" and "dget (entries (cat_sources (register_search now gs c))) sources_key = Some (e, m)"
  shows "m = rs_map (search_loop now gs c)"
proof (cases "rs_changed (search_loop now gs c)")
  case True
  have "gs \<noteq> []" using assms(1) by auto
  then show ?thesis using assms(2) True by (simp add: cat_sources_register cache_set_def dget_dset)
next
  case False
  have gs: "gs \<noteq> []" using assms(1) by auto
  have same: "rs_map (search_loop now gs c) = fst (current_sources now c)"
    using foldl_unchanged False unfolding search_loop_def by fastforce
  have "rs_map (search_loop now gs c) \<noteq> []"
    using coversD [OF search_loop_covers [OF assms(1)]] by simp
  then show ?thesis
    using assms(2) False same gs
    by (auto simp: cat_sources_register current_sources_def cache_get_def dget_dpop split: option.splits if_splits)
qed

text \<open>A search that brings nothing new leaves the map as it is, lifetime included.\<close>

lemma reregister_keeps_cache:
  assumes "uk \<in> set (search_pairs gs)"
    and "dget (entries (cat_sources (register_search t0 gs c))) sources_key = Some (e, m)" and "t1 \<le> e"
  shows "cat_sources (register_search t1 gs (register_search t0 gs c)) = cat_sources (register_search t0 gs c)"
proof -
  let ?c1 = "register_search t0 gs c" and ?l = "search_loop t0 gs c"
  let ?r1 = "\<lparr>rs_map = m, rs_index = rs_index ?l, rs_regs = cat_regs ?c1, rs_changed = False\<rparr>"
  have gs: "gs \<noteq> []" using assms(1) by auto
  have m: "m = rs_map ?l" by (rule cached_after_register [OF assms(1,2)])
  have read: "current_sources t1 ?c1 = (m, ?c1)"
    using assms(2,3) by (simp add: current_sources_def cache_get_def)
  have "\<forall>x \<in> set (search_pairs gs). covers (rs_map ?l) (rs_index ?l) x"
    by (simp add: search_loop_covers)
  then have "\<forall>x \<in> set (search_pairs gs). covers (rs_map ?r1) (rs_index ?r1) x" by (simp add: m)
  moreover have "search_loop t1 gs ?c1 =
      foldl (register_key t1 (f_add t1 (f_of_int (cat_search_ttl c)))) ?r1 (search_pairs gs)"
    by (simp add: search_loop_def [of t1 gs ?c1] read)
  ultimately have "\<not> rs_changed (search_loop t1 gs ?c1)" by (simp add: foldl_covered)
  then show ?thesis by (simp add: cat_sources_register [OF gs] read)
qed

text \<open>A search repeated before the resolution map expires extends the registrations of its keys but not
  the life of the map that resolves them: from the map's expiry to the registrations' deadline a promised
  key answers without any source.\<close>

theorem registration_outlives_map:
  assumes "g \<in> set gs" "k \<in> set (search_keys g)" "gp_sources g \<noteq> []"
    and "dget (entries (cat_sources (register_search t0 gs c))) sources_key = Some (e, m)" and "t1 \<le> e"
    and "e < t" "t \<le> f_add t1 (f_of_int (cat_search_ttl c))"
    and "c2 = register_search t1 gs (register_search t0 gs c)"
  shows "live_cards t c2 k \<noteq> None \<and>
    (\<exists>r. fst (resolve t k c2) = Some r \<and> gr_sources r = [])"
proof -
  let ?c1 = "register_search t0 gs c"
  obtain s where s: "s \<in> set (gp_sources g)" using assms(3) by (cases "gp_sources g") auto
  have pair: "(provider_union (gp_sources g), k) \<in> set (search_pairs gs)" using assms(1,2) by (auto simp: search_pairs_iff)
  have "promised (f_add t1 (f_of_int (cat_search_ttl c))) k (provider s) (cat_regs c2)"
    unfolding assms(8) by (rule search_loop_gives [OF assms(1,2) s]) (use assms(5-7) in simp_all)
  then have live: "live_cards t c2 k \<noteq> None"
    using assms(7) by (auto simp: promised_def live_cards_def split: option.splits)
  have "fst (current_sources t c2) = []"
    using reregister_keeps_cache [OF pair assms(4,5)] assms(4,6)
    by (simp add: assms(8) current_sources_def cache_get_def del: register_search_sel)
  moreover have "entry k c2 \<noteq> None"
    using coversD [OF search_loop_covers [OF pair]] unfolding assms(8) entry_def register_search_sel by simp
  ultimately show ?thesis using live by (simp add: resolve_def Let_def case_prod_beta)
qed

section \<open>A search and a rebuild\<close>

definition sample_hit :: search_result where
  "sample_hit = \<lparr>sr_id = u ''p:7'', provider = u ''p'', form = Movie, title = u ''X'', year = None, poster = None,
     url = [], styles = {}, genres = [], imdb_id = None\<rparr>"

definition sample_group :: group_projection where
  "sample_group = \<lparr>gp_key = u ''g2:x'', gp_title = u ''X'', gp_year = None, gp_poster = None, gp_form = Movie,
     gp_styles = {}, gp_genres = [], gp_providers = [u ''p''], gp_sources = [sample_hit], gp_member_keys = [u ''g2:x'']\<rparr>"

definition sample_catalog :: catalog where
  "sample_catalog = new_catalog 300 1800 1800"

lemma sample_sel [simp]:
  "search_keys sample_group = [u ''g2:x'']" "gp_sources sample_group = [sample_hit]" "provider sample_hit = u ''p''"
  by (simp_all add: sample_group_def sample_hit_def search_keys_def)

lemma sample_times:
  "expiry 100 1800 None = 1900" "f_add 0 (f_of_int 300) = 300" "f_add 1700 (f_of_int 300) = 2000"
  "expiry 0 1800 None = 1800"
  by code_simp+

lemma sample_catalog_run: "sample_catalog = cat_run (new_catalog 300 1800 1800) []"
  by (simp add: sample_catalog_def cat_run_def)

theorem apply_snapshot_spec_witness:
  "cat_saved (apply_snapshot 100 [] (Some []) True sample_catalog) = [([], [])]"
proof -
  have t: "(1900::rat) \<le> expiry 100 (default_ttl_s (cat_sources sample_catalog)) None"
    by (simp add: sample_catalog_def new_catalog_def new_cache_def sample_times)
  have "cat_saved sample_catalog = []" by (simp add: sample_catalog_def new_catalog_def)
  then show ?thesis
    using apply_snapshot_spec [OF t sample_catalog_run, of "[]" "[]" "u ''g2:x''"] by (simp only: Let_def append_Nil)
qed

theorem search_promise_kept_witness:
  "\<exists>r. fst (resolve 100 (u ''g2:x'') (apply_snapshot 100 [] (Some []) True
      (cat_run (register_search 0 [sample_group] sample_catalog) [(50, Invalidate)]))) = Some r \<and>
    resolved_source r (u ''p'') \<noteq> None"
  using search_promise_kept [OF _ _ _ sample_catalog_run refl, of sample_group "[sample_group]" "u ''g2:x''" sample_hit
      0 100 "[(50, Invalidate)]" "[]" 100 "[]" True]
  by (simp add: sample_times keyed_map_def)

theorem old_snapshot_is_gone_witness:
  "searched {(0, Register [sample_group])} (u ''g2:x'') sample_hit"
proof -
  let ?c = "cat_run (new_catalog 300 1800 1800) [(0, Register [sample_group])]"
  have live: "live_cards 100 ?c (u ''g2:x'') = Some [(u ''p'', sample_hit)]" by code_simp
  have "default_ttl_s (cat_sources ?c) = 1800" by (simp add: new_catalog_def new_cache_def)
  then have d: "dget (fst (current_sources 100 (apply_snapshot 100 [] (Some []) True ?c))) (u ''g2:x'') = Some [(u ''p'', sample_hit)]"
    by (simp add: dget_after_apply [OF cat_ok_run [OF cat_ok_new]] live sample_times add_missing_Cons dsetdefault_def)
  have "(100::rat) \<le> expiry 100 1800 None" by (simp add: sample_times)
  from old_snapshot_is_gone [OF refl this d] show ?thesis by simp
qed


theorem registration_outlives_map_witness:
  "\<exists>r. fst (resolve 1801 (u ''g2:x'')
      (register_search 1700 [sample_group] (register_search 0 [sample_group] sample_catalog))) = Some r \<and> gr_sources r = []"
proof -
  have e: "dget (entries (cat_sources (register_search 0 [sample_group] sample_catalog))) sources_key =
      Some (1800, [(u ''g2:x'', [(u ''p'', sample_hit)])])"
    by code_simp
  have "cat_search_ttl sample_catalog = 300" by (simp add: sample_catalog_def new_catalog_def)
  then show ?thesis
    using registration_outlives_map [OF _ _ _ e, of sample_group "u ''g2:x''" 1700 1801] by (simp add: sample_times)
qed

end
