(* ===== verification/Resolution.thy ===== *)
theory Resolution
  imports Catalog_State Health
begin

text \<open>
  Content resolution, \<^verbatim>\<open>backend/cs_uk_api/_catalog_state/resolution.py\<close> with \<^verbatim>\<open>country.py\<close>'s verdict: a group key
  is answered by one of the group's members, read from the shared caches or fetched, and the walk goes
  on only past refusals another member can repair.  The providers and the clock are a parameter whose
  state \<open>'w\<close> is threaded through the calls; \<open>'t\<close> is the health tracker's time and \<open>'p\<close> the part of a page the
  code does not look at.  One call runs alone: that concurrent callers of a group share the first one's
  task is not modelled.
\<close>

section \<open>Pages, providers and stores\<close>

record 'p page =
  pg_id :: ustr
  pg_form :: media_form
  pg_title :: ustr
  pg_year :: "int option"
  pg_country :: "ustr option"
  pg_group_key :: ustr
  pg_body :: 'p

text \<open>A \<^verbatim>\<open>ProviderError\<close> with its code, or any other exception.\<close>

datatype 'p content_answer = Page "'p page" | Refused ustr | Broken

record ('p, 'w, 't) upstream =
  monotonic :: "'w \<Rightarrow> rat"
  wall :: "'w \<Rightarrow> 't"
  content_of :: "ustr \<Rightarrow> (ustr \<Rightarrow> 'w \<Rightarrow> 'p content_answer \<times> 'w) option"
  can_gate :: "ustr \<Rightarrow> bool"
  retry_pause :: "'w \<Rightarrow> 'w"
  block_russian :: bool
  cache_content_s :: int

record ('p, 'w, 't) desk =
  contents :: "'p page ttl_cache"
  blocklist :: "bool ttl_cache"
  gated :: "bool ttl_cache"
  lanes :: "'t tracker"
  owner :: catalog
  world :: 'w

definition blocked_countries :: "ustr list" where
  "blocked_countries =
     [[1088, 1086, 1089, 1110, 1103],
      [1088, 1086, 1089, 1110, 1081, 1089, 1100, 1082, 1072, 32, 1092, 1077, 1076, 1077, 1088, 1072, 1094, 1110, 1103],
      [1088, 1086, 1089, 1089, 1080, 1103],
      [1088, 1086, 1089, 1089, 1080, 1081, 1089, 1082, 1072, 1103, 32, 1092, 1077, 1076, 1077, 1088, 1072, 1094, 1080, 1103],
      u ''russia'', u ''russian federation'', u ''rf'',
      [1088, 1086, 1089, 46, 32, 1092, 1077, 1076, 1077, 1088, 1072, 1094, 1110, 1103],
      [1088, 1086, 1089, 46, 1092, 1077, 1076, 1077, 1088, 1072, 1094, 1110, 1103]]"

definition is_blocked_country :: "ustr option \<Rightarrow> bool" where
  "is_blocked_country c = (case c of None \<Rightarrow> False | Some x \<Rightarrow> x \<in> set blocked_countries)"

definition content_key :: "ustr \<Rightarrow> ustr \<Rightarrow> ustr" where
  "content_key p e = u ''content:'' @ p @ u '':'' @ e"

definition external_of :: "search_result \<Rightarrow> ustr" where
  "external_of s = snd (split_wire_id (sr_id s))"

definition gate_cache_key :: "search_result \<Rightarrow> ustr" where
  "gate_cache_key s = content_key (provider s) (external_of s)"

section \<open>Group keys\<close>

definition resolve_group ::
  "('p, 'w, 't) upstream \<Rightarrow> ustr \<Rightarrow> ('p, 'w, 't) desk \<Rightarrow> card_map option \<times> ('p, 'w, 't) desk" where
  "resolve_group E k st =
     (let (m, c) = current_sources (monotonic E (world st)) (owner st) in (dget m k, st\<lparr>owner := c\<rparr>))"

definition first_group :: "(search_result \<Rightarrow> bool) \<Rightarrow> sources_map \<Rightarrow> ustr option" where
  "first_group P m = map_option fst (find (\<lambda>(_, d). list_ex P (map snd d)) m)"

definition seg_matches :: "ustr \<Rightarrow> search_result \<Rightarrow> bool" where
  "seg_matches seg s = list_ex (\<lambda>part. part = seg \<or> starts_with (seg @ u ''-'') part) (split_on 58 (sr_id s))"

text \<open>\<^verbatim>\<open>group_key_for_external\<close> over the resolution map.\<close>

definition group_key_for_external :: "ucd \<Rightarrow> ustr \<Rightarrow> sources_map \<Rightarrow> ustr option" where
  "group_key_for_external U composite m =
     (case first_group (\<lambda>s. sr_id s = composite) m of
        Some k \<Rightarrow> Some k
      | None \<Rightarrow>
          (let (p, seg) = split_wire_id composite in
           if p = [] \<or> \<not> (seg \<noteq> [] \<and> list_all (digit U) seg) then None
           else first_group (\<lambda>s. provider s = p \<and> seg_matches seg s) m))"

definition episode_group_key :: "ucd \<Rightarrow> ustr \<Rightarrow> sources_map \<Rightarrow> ustr option" where
  "episode_group_key U i m =
     (if is_group_key i then Some i
      else case split_episode_tail U i of
        None \<Rightarrow> None
      | Some (composite, _) \<Rightarrow> group_key_for_external U composite m)"

section \<open>The member walk\<close>

definition translation_verdict_codes :: "ustr list" where
  "translation_verdict_codes = [u ''invalid_translation'', u ''translation_missing'']"

definition walkable_verdict_codes :: "ustr list" where
  "walkable_verdict_codes = lane_verdict_codes @ translation_verdict_codes @ [u ''not_found'']"

definition max_member_attempts :: nat where "max_member_attempts = 3"

fun attempts_from ::
  "(ustr \<Rightarrow> bool) \<Rightarrow> bool \<Rightarrow> ustr list \<Rightarrow> (ustr \<times> ustr) list \<Rightarrow> search_result list \<Rightarrow> (ustr \<times> ustr) list" where
  "attempts_from reg only asked acc [] = acc"
| "attempts_from reg only asked acc (s # ss) =
     (if provider s \<in> set asked then attempts_from reg only asked acc ss
      else if only \<and> \<not> reg (provider s) then attempts_from reg only asked acc ss
      else if external_of s = [] then attempts_from reg only asked acc ss
      else
        (let acc' = acc @ [(provider s, external_of s)] in
         if length acc' = max_member_attempts then acc'
         else attempts_from reg only (provider s # asked) acc' ss))"

definition member_attempts ::
  "(ustr \<Rightarrow> bool) \<Rightarrow> search_result list \<Rightarrow> ustr option \<Rightarrow> bool \<Rightarrow> (ustr \<times> ustr) list" where
  "member_attempts reg ss lead only =
     (let attempts = attempts_from reg only [] [] ss in
      case lead of
        None \<Rightarrow> attempts
      | Some l \<Rightarrow>
          (let leading = filter (\<lambda>a. fst a = l) attempts in
           if leading = [] then attempts else leading @ filter (\<lambda>a. fst a \<noteq> l) attempts))"

definition registered :: "('p, 'w, 't) upstream \<Rightarrow> ustr \<Rightarrow> bool" where
  "registered E p \<longleftrightarrow> content_of E p \<noteq> None"

definition member_attempts_of :: "('p, 'w, 't) upstream \<Rightarrow> card_map option \<Rightarrow> (ustr \<times> ustr) list" where
  "member_attempts_of E per =
     (case per of
        None \<Rightarrow> []
      | Some d \<Rightarrow> if d = [] then [] else member_attempts (registered E) (map snd d) None False)"

section \<open>Cached answers\<close>

datatype 'p cached = Cached_hit "'p page" | Cached_gated | Cached_blocked | Cached_miss

definition read_gated :: "('p, 'w, 't) upstream \<Rightarrow> ustr \<Rightarrow> ('p, 'w, 't) desk \<Rightarrow> bool option \<times> ('p, 'w, 't) desk" where
  "read_gated E key st = (let (v, c) = cache_get (monotonic E (world st)) key (gated st) in (v, st\<lparr>gated := c\<rparr>))"

definition read_blocklist :: "('p, 'w, 't) upstream \<Rightarrow> ustr \<Rightarrow> ('p, 'w, 't) desk \<Rightarrow> bool option \<times> ('p, 'w, 't) desk" where
  "read_blocklist E key st =
     (let (v, c) = cache_get (monotonic E (world st)) key (blocklist st) in (v, st\<lparr>blocklist := c\<rparr>))"

definition read_contents :: "('p, 'w, 't) upstream \<Rightarrow> ustr \<Rightarrow> ('p, 'w, 't) desk \<Rightarrow> 'p page option \<times> ('p, 'w, 't) desk" where
  "read_contents E key st =
     (let (v, c) = cache_get (monotonic E (world st)) key (contents st) in (v, st\<lparr>contents := c\<rparr>))"

definition set_gated :: "('p, 'w, 't) upstream \<Rightarrow> ustr \<Rightarrow> bool \<Rightarrow> int option \<Rightarrow> ('p, 'w, 't) desk \<Rightarrow> ('p, 'w, 't) desk" where
  "set_gated E key v ttl st = st\<lparr>gated := cache_set (monotonic E (world st)) key v ttl (gated st)\<rparr>"

definition set_blocklist :: "('p, 'w, 't) upstream \<Rightarrow> ustr \<Rightarrow> ('p, 'w, 't) desk \<Rightarrow> ('p, 'w, 't) desk" where
  "set_blocklist E key st = st\<lparr>blocklist := cache_set (monotonic E (world st)) key True None (blocklist st)\<rparr>"

definition set_contents :: "('p, 'w, 't) upstream \<Rightarrow> ustr \<Rightarrow> 'p page \<Rightarrow> ('p, 'w, 't) desk \<Rightarrow> ('p, 'w, 't) desk" where
  "set_contents E key pg st = st\<lparr>contents := cache_set (monotonic E (world st)) key pg None (contents st)\<rparr>"

definition member_cached ::
  "('p, 'w, 't) upstream \<Rightarrow> ustr \<Rightarrow> ('p, 'w, 't) desk \<Rightarrow> 'p cached \<times> ('p, 'w, 't) desk" where
  "member_cached E key st =
     (let (g, st1) = read_gated E key st in
      if g = Some True then (Cached_gated, st1)
      else
        (let (b, st2) = read_blocklist E key st1 in
         if b \<noteq> None then (Cached_blocked, st2)
         else
           (let (c, st3) = read_contents E key st2
            in (case c of Some pg \<Rightarrow> Cached_hit pg | None \<Rightarrow> Cached_miss, st3))))"

fun cached_walk ::
  "('p, 'w, 't) upstream \<Rightarrow> (ustr \<times> ustr) list \<Rightarrow> ('p, 'w, 't) desk \<Rightarrow> (ustr \<times> 'p page) option \<times> ('p, 'w, 't) desk" where
  "cached_walk E [] st = (None, st)"
| "cached_walk E ((p, e) # as) st =
     (case member_cached E (content_key p e) st of
        (Cached_hit pg, st1) \<Rightarrow> (Some (p, pg), st1)
      | (Cached_miss, st1) \<Rightarrow> cached_walk E as st1
      | (_, st1) \<Rightarrow> (None, st1))"

definition cached_group_page ::
  "('p, 'w, 't) upstream \<Rightarrow> ustr \<Rightarrow> ('p, 'w, 't) desk \<Rightarrow> (ustr \<times> 'p page) option \<times> ('p, 'w, 't) desk" where
  "cached_group_page E k st =
     (let (per, st1) = resolve_group E k st in cached_walk E (member_attempts_of E per) st1)"

definition peek_group_content ::
  "('p, 'w, 't) upstream \<Rightarrow> ustr \<Rightarrow> ('p, 'w, 't) desk \<Rightarrow> 'p page option \<times> ('p, 'w, 't) desk" where
  "peek_group_content E k st = (let (pair, st1) = cached_group_page E k st in (map_option snd pair, st1))"

definition group_content_member ::
  "('p, 'w, 't) upstream \<Rightarrow> ustr \<Rightarrow> ('p, 'w, 't) desk \<Rightarrow> ustr option \<times> ('p, 'w, 't) desk" where
  "group_content_member E k st = (let (pair, st1) = cached_group_page E k st in (map_option fst pair, st1))"

section \<open>Fetched answers\<close>

definition ask ::
  "(ustr \<Rightarrow> 'w \<Rightarrow> 'p content_answer \<times> 'w) \<Rightarrow> ustr \<Rightarrow> ('p, 'w, 't) desk \<Rightarrow> 'p content_answer \<times> ('p, 'w, 't) desk" where
  "ask f e st = (let (a, w) = f e (world st) in (a, st\<lparr>world := w\<rparr>))"

definition note_verdict :: "('p, 'w, 't) upstream \<Rightarrow> ustr \<Rightarrow> ustr option \<Rightarrow> ('p, 'w, 't) desk \<Rightarrow> ('p, 'w, 't) desk" where
  "note_verdict E p code st = st\<lparr>lanes := record_verdict (wall E (world st)) p code (lanes st)\<rparr>"

definition note_ok :: "('p, 'w, 't) upstream \<Rightarrow> ustr \<Rightarrow> ('p, 'w, 't) desk \<Rightarrow> ('p, 'w, 't) desk" where
  "note_ok E p st = st\<lparr>lanes := record_outcome (wall E (world st)) p True (lanes st)\<rparr>"

text \<open>
  \<^verbatim>\<open>_fetch_member_content\<close>: what is left of the two attempts, and the code of the last error.
\<close>

fun fetch_attempts ::
  "('p, 'w, 't) upstream \<Rightarrow> ustr \<Rightarrow> (ustr \<Rightarrow> 'w \<Rightarrow> 'p content_answer \<times> 'w) \<Rightarrow> ustr \<Rightarrow> ustr option \<Rightarrow> nat \<Rightarrow>
   ('p, 'w, 't) desk \<Rightarrow> (ustr option + 'p page) \<times> ('p, 'w, 't) desk" where
  "fetch_attempts E p f e code 0 st = (Inl code, note_verdict E p code st)"
| "fetch_attempts E p f e code (Suc n) st =
     (let (a, st1) = ask f e st;
          st2 = (if n = 0 then st1 else st1\<lparr>world := retry_pause E (world st1)\<rparr>)
      in case a of
           Page pg \<Rightarrow> (Inr pg, st1)
         | Refused c \<Rightarrow> if c = u ''gated'' then (Inl (Some c), st1) else fetch_attempts E p f e (Some c) n st2
         | Broken \<Rightarrow> fetch_attempts E p f e None n st2)"

definition fetch_member_content ::
  "('p, 'w, 't) upstream \<Rightarrow> ustr \<Rightarrow> (ustr \<Rightarrow> 'w \<Rightarrow> 'p content_answer \<times> 'w) \<Rightarrow> ustr \<Rightarrow>
   ('p, 'w, 't) desk \<Rightarrow> (ustr option + 'p page) \<times> ('p, 'w, 't) desk" where
  "fetch_member_content E p f e st = fetch_attempts E p f e None 2 st"

fun content_walk ::
  "('p, 'w, 't) upstream \<Rightarrow> ustr \<Rightarrow> (ustr \<times> ustr) list \<Rightarrow> ('p, 'w, 't) desk \<Rightarrow> 'p page option \<times> ('p, 'w, 't) desk" where
  "content_walk E k [] st = (None, st)"
| "content_walk E k ((p, e) # as) st =
     (let key = content_key p e in
      case member_cached E key st of
        (Cached_hit pg, st1) \<Rightarrow> (Some pg, st1)
      | (Cached_gated, st1) \<Rightarrow> (None, st1)
      | (Cached_blocked, st1) \<Rightarrow> (None, st1)
      | (Cached_miss, st1) \<Rightarrow>
          (case content_of E p of
             None \<Rightarrow> content_walk E k as st1
           | Some f \<Rightarrow>
               (case fetch_member_content E p f e st1 of
                  (Inl code, st2) \<Rightarrow>
                    (let st3 = (if code = Some (u ''gated'') then set_gated E key True None st2 else st2) in
                     if (case code of None \<Rightarrow> False | Some c \<Rightarrow> c \<notin> set walkable_verdict_codes) then (None, st3)
                     else content_walk E k as st3)
                | (Inr pg, st2) \<Rightarrow>
                    (let st3 = note_ok E p st2 in
                     if block_russian E \<and> is_blocked_country (pg_country pg) then (None, set_blocklist E key st3)
                     else (let pg' = pg\<lparr>pg_group_key := k\<rparr> in (Some pg', set_contents E key pg' st3))))))"

definition resolve_group_content_once ::
  "('p, 'w, 't) upstream \<Rightarrow> ustr \<Rightarrow> (ustr \<times> ustr) list \<Rightarrow> ('p, 'w, 't) desk \<Rightarrow> 'p page option \<times> ('p, 'w, 't) desk" where
  "resolve_group_content_once E k attempts st =
     (case cached_group_page E k st of
        (Some (_, pg), st1) \<Rightarrow> (Some pg, st1)
      | (None, st1) \<Rightarrow> content_walk E k attempts st1)"

definition resolve_group_content ::
  "('p, 'w, 't) upstream \<Rightarrow> ustr \<Rightarrow> ('p, 'w, 't) desk \<Rightarrow> 'p page option \<times> ('p, 'w, 't) desk" where
  "resolve_group_content E k st =
     (let (per, st1) = resolve_group E k st; attempts = member_attempts_of E per in
      if attempts = [] then (None, st1) else resolve_group_content_once E k attempts st1)"

section \<open>The native route and the gate sweep\<close>

datatype 'p content_verdict = Ok_page "'p page" | Is_blocked | Is_gated | Raises "ustr option" | No_provider

definition cached_provider_content ::
  "ucd \<Rightarrow> ('p, 'w, 't) upstream \<Rightarrow> ustr \<Rightarrow> ustr \<Rightarrow> ('p, 'w, 't) desk \<Rightarrow> 'p content_verdict \<times> ('p, 'w, 't) desk" where
  "cached_provider_content U E p e st =
     (let key = content_key p e; (b, st1) = read_blocklist E key st in
      if b \<noteq> None then (Is_blocked, st1)
      else
        (let (g, st2) = read_gated E key st1 in
         if g = Some True then (Is_gated, st2)
         else
           (let (c, st3) = read_contents E key st2 in
            case c of
              Some pg \<Rightarrow> (Ok_page pg, st3)
            | None \<Rightarrow>
                (case content_of E p of
                   None \<Rightarrow> (No_provider, st3)
                 | Some f \<Rightarrow>
                     (case ask f e st3 of
                        (Refused code, st4) \<Rightarrow> (Raises (Some code), st4)
                      | (Broken, st4) \<Rightarrow> (Raises None, st4)
                      | (Page pg, st4) \<Rightarrow>
                          if block_russian E \<and> is_blocked_country (pg_country pg) then (Is_blocked, set_blocklist E key st4)
                          else
                            (let pg' = pg\<lparr>pg_group_key := group_key_from U (pg_title pg) (pg_form pg) (pg_year pg) (pg_id pg)\<rparr>
                             in (Ok_page pg', set_contents E key pg' st4)))))))"

fun unavailable_walk :: "('p, 'w, 't) upstream \<Rightarrow> (ustr \<times> ustr) list \<Rightarrow> ('p, 'w, 't) desk \<Rightarrow> bool \<times> ('p, 'w, 't) desk" where
  "unavailable_walk E [] st = (False, st)"
| "unavailable_walk E ((p, e) # as) st =
     (case member_cached E (content_key p e) st of
        (Cached_hit _, st1) \<Rightarrow> (False, st1)
      | (Cached_miss, st1) \<Rightarrow> unavailable_walk E as st1
      | (_, st1) \<Rightarrow> (True, st1))"

definition is_hard_unavailable ::
  "('p, 'w, 't) upstream \<Rightarrow> ustr \<Rightarrow> ('p, 'w, 't) desk \<Rightarrow> bool \<times> ('p, 'w, 't) desk" where
  "is_hard_unavailable E k st =
     (case resolve_group E k st of
        (None, st1) \<Rightarrow> (True, st1)
      | (Some d, st1) \<Rightarrow> unavailable_walk E (member_attempts_of E (Some d)) st1)"

text \<open>
  What the sweep knows of a card without asking: the verdict on record, or a page already resolved.
\<close>

definition known_gate ::
  "('p, 'w, 't) upstream \<Rightarrow> ustr \<Rightarrow> ('p, 'w, 't) desk \<Rightarrow> bool option \<times> ('p, 'w, 't) desk" where
  "known_gate E key st =
     (let (g, st1) = read_gated E key st in
      case g of
        Some b \<Rightarrow> (Some b, st1)
      | None \<Rightarrow>
          (let (c, st2) = read_contents E key st1 in
           case c of
             Some _ \<Rightarrow> (Some False, set_gated E key False (Some (cache_content_s E)) st2)
           | None \<Rightarrow> (None, st2)))"

text \<open>
  \<^verbatim>\<open>check\<close> of \<^verbatim>\<open>filter_gated_items\<close>; what is known is read again once the semaphore is held, here at once.
\<close>

definition gate_check ::
  "ucd \<Rightarrow> ('p, 'w, 't) upstream \<Rightarrow> search_result \<Rightarrow> ('p, 'w, 't) desk \<Rightarrow> bool \<times> ('p, 'w, 't) desk" where
  "gate_check U E s st =
     (let key = gate_cache_key s; (first, st1) = known_gate E key st in
      case first of
        Some b \<Rightarrow> (b, st1)
      | None \<Rightarrow>
          (let (again, st2) = known_gate E key st1 in
           case again of
             Some b \<Rightarrow> (b, st2)
           | None \<Rightarrow>
               (case content_of E (provider s) of
                  None \<Rightarrow> (False, st2)
                | Some f \<Rightarrow>
                    (case ask f (external_of s) st2 of
                       (Refused code, st3) \<Rightarrow>
                         if code = u ''gated'' then (True, set_gated E key True None st3) else (False, st3)
                     | (Broken, st3) \<Rightarrow> (False, st3)
                     | (Page pg, st3) \<Rightarrow>
                         if block_russian E \<and> is_blocked_country (pg_country pg) then (False, set_blocklist E key st3)
                         else
                           (let pg' = pg\<lparr>pg_group_key := group_key_from U (pg_title pg) (pg_form pg) (pg_year pg) (pg_id pg)\<rparr>
                            in (False, set_gated E key False (Some (cache_content_s E)) (set_contents E key pg' st3)))))))"

text \<open>The checks of a listing, one after another, and the listing without what they found gated.\<close>

fun gated_ids ::
  "ucd \<Rightarrow> ('p, 'w, 't) upstream \<Rightarrow> search_result list \<Rightarrow> ('p, 'w, 't) desk \<Rightarrow> ustr list \<times> ('p, 'w, 't) desk" where
  "gated_ids U E [] st = ([], st)"
| "gated_ids U E (s # ss) st =
     (let (g, st1) = gate_check U E s st; (is, st2) = gated_ids U E ss st1
      in (if g then sr_id s # is else is, st2))"

definition filter_gated_items ::
  "ucd \<Rightarrow> ('p, 'w, 't) upstream \<Rightarrow> search_result list \<Rightarrow> ('p, 'w, 't) desk \<Rightarrow> search_result list \<times> ('p, 'w, 't) desk" where
  "filter_gated_items U E items st =
     (let todo = filter (\<lambda>s. registered E (provider s) \<and> can_gate E (provider s)) items in
      if todo = [] then (items, st)
      else (let (is, st1) = gated_ids U E todo st in (filter (\<lambda>s. sr_id s \<notin> set is) items, st1)))"

section \<open>What the caches say\<close>

definition verdict_at :: "rat \<Rightarrow> ('p, 'w, 't) desk \<Rightarrow> ustr \<Rightarrow> 'p cached" where
  "verdict_at t st key =
     (if fst (cache_get t key (gated st)) = Some True then Cached_gated
      else if fst (cache_get t key (blocklist st)) \<noteq> None then Cached_blocked
      else case fst (cache_get t key (contents st)) of Some pg \<Rightarrow> Cached_hit pg | None \<Rightarrow> Cached_miss)"

abbreviation now_of :: "('p, 'w, 't) upstream \<Rightarrow> ('p, 'w, 't) desk \<Rightarrow> rat" where
  "now_of E st \<equiv> monotonic E (world st)"

text \<open>Two states that differ in evicted entries only, as seen from \<open>t\<close> on.\<close>

definition same_from :: "rat \<Rightarrow> ('p, 'w, 't) desk \<Rightarrow> ('p, 'w, 't) desk \<Rightarrow> bool" where
  "same_from t st st' \<longleftrightarrow>
     world st' = world st \<and> lanes st' = lanes st \<and>
     (\<forall>s key. t \<le> s \<longrightarrow>
        fst (cache_get s key (gated st')) = fst (cache_get s key (gated st)) \<and>
        fst (cache_get s key (blocklist st')) = fst (cache_get s key (blocklist st)) \<and>
        fst (cache_get s key (contents st')) = fst (cache_get s key (contents st))) \<and>
     default_ttl_s (gated st') = default_ttl_s (gated st) \<and>
     default_ttl_s (contents st') = default_ttl_s (contents st)"

lemma same_from_refl [simp]: "same_from t st st"
  by (simp add: same_from_def)

lemma same_from_trans: "same_from t a b \<Longrightarrow> same_from t b c \<Longrightarrow> same_from t a c"
  by (simp add: same_from_def)

lemma same_from_later: "same_from t a b \<Longrightarrow> t \<le> s \<Longrightarrow> same_from s a b"
  by (auto simp: same_from_def)

lemma same_from_verdict: "same_from t st st' \<Longrightarrow> t \<le> s \<Longrightarrow> verdict_at s st' key = verdict_at s st key"
  by (simp add: same_from_def verdict_at_def)

lemma same_fromD: "same_from t st st' \<Longrightarrow> world st' = world st" "same_from t st st' \<Longrightarrow> lanes st' = lanes st"
  "same_from t st st' \<Longrightarrow> default_ttl_s (contents st') = default_ttl_s (contents st)"
  by (simp_all add: same_from_def)

lemma cache_get_ttl [simp]: "default_ttl_s (snd (cache_get t k c)) = default_ttl_s c"
  by (auto simp: cache_get_def split: option.splits)

lemma cache_set_ttl [simp]: "default_ttl_s (cache_set t k v ttl c) = default_ttl_s c"
  by (simp add: cache_set_def)

lemma read_same:
  "same_from (now_of E st) st (snd (read_gated E key st))"
  "same_from (now_of E st) st (snd (read_blocklist E key st))"
  "same_from (now_of E st) st (snd (read_contents E key st))"
  by (simp_all add: read_gated_def read_blocklist_def read_contents_def same_from_def ttl.read_evicts case_prod_beta)

lemma read_fst:
  "fst (read_gated E key st) = fst (cache_get (now_of E st) key (gated st))"
  "fst (read_blocklist E key st) = fst (cache_get (now_of E st) key (blocklist st))"
  "fst (read_contents E key st) = fst (cache_get (now_of E st) key (contents st))"
  by (simp_all add: read_gated_def read_blocklist_def read_contents_def case_prod_beta)

lemma read_other_caches [simp]:
  "blocklist (snd (read_gated E key st)) = blocklist st" "contents (snd (read_gated E key st)) = contents st"
  "contents (snd (read_blocklist E key st)) = contents st" "world (snd (read_gated E key st)) = world st"
  "world (snd (read_blocklist E key st)) = world st" "world (snd (read_contents E key st)) = world st"
  by (simp_all add: read_gated_def read_blocklist_def read_contents_def case_prod_beta)

lemma member_cached_reads:
  "fst (member_cached E key st) = verdict_at (now_of E st) st key"
  "same_from (now_of E st) st (snd (member_cached E key st))"
proof -
  let ?st1 = "snd (read_gated E key st)" and ?st2 = "snd (read_blocklist E key (snd (read_gated E key st)))"
  have s1: "same_from (now_of E st) st ?st1" by (rule read_same)
  have s2: "same_from (now_of E st) st ?st2"
    using same_from_trans [OF s1] read_same(2) [of E ?st1 key] by simp
  have s3: "same_from (now_of E st) st (snd (read_contents E key ?st2))"
    using same_from_trans [OF s2] read_same(3) [of E ?st2 key] by simp
  show "fst (member_cached E key st) = verdict_at (now_of E st) st key"
    by (simp add: member_cached_def verdict_at_def case_prod_beta Let_def read_fst)
  show "same_from (now_of E st) st (snd (member_cached E key st))"
    using s1 s2 s3 by (simp add: member_cached_def case_prod_beta Let_def)
qed

lemma verdict_miss_stays:
  assumes "verdict_at s st key = Cached_miss" and "s \<le> t"
  shows "verdict_at t st key = Cached_miss"
proof -
  have "fst (cache_get s key (gated st)) \<noteq> Some True" "fst (cache_get s key (blocklist st)) = None"
    "fst (cache_get s key (contents st)) = None"
    using assms(1) by (auto simp: verdict_at_def split: if_splits option.splits)
  then have "fst (cache_get t key (gated st)) \<noteq> Some True" "fst (cache_get t key (blocklist st)) = None"
    "fst (cache_get t key (contents st)) = None"
    using ttl.read_stays [OF assms(2), of key "gated st"] ttl.read_gone assms(2) by auto
  then show ?thesis by (simp add: verdict_at_def)
qed

section \<open>A fetch\<close>

text \<open>The clock of the providers does not run backwards.\<close>

definition clock_ok :: "('p, 'w, 't) upstream \<Rightarrow> bool" where
  "clock_ok E \<longleftrightarrow>
     (\<forall>p f e w. content_of E p = Some f \<longrightarrow> monotonic E w \<le> monotonic E (snd (f e w))) \<and>
     (\<forall>w. monotonic E w \<le> monotonic E (retry_pause E w))"

lemma clock_okD:
  "clock_ok E \<Longrightarrow> content_of E p = Some f \<Longrightarrow> monotonic E w \<le> monotonic E (snd (f e w))"
  "clock_ok E \<Longrightarrow> monotonic E w \<le> monotonic E (retry_pause E w)"
  by (simp_all add: clock_ok_def)

lemma ask_sel [simp]:
  "fst (ask f e st) = fst (f e (world st))" "world (snd (ask f e st)) = snd (f e (world st))"
  "contents (snd (ask f e st)) = contents st" "blocklist (snd (ask f e st)) = blocklist st"
  "gated (snd (ask f e st)) = gated st" "lanes (snd (ask f e st)) = lanes st" "owner (snd (ask f e st)) = owner st"
  by (simp_all add: ask_def case_prod_beta)

lemma note_sel [simp]:
  "world (note_verdict E p code st) = world st" "contents (note_verdict E p code st) = contents st"
  "blocklist (note_verdict E p code st) = blocklist st" "gated (note_verdict E p code st) = gated st"
  "world (note_ok E p st) = world st" "contents (note_ok E p st) = contents st"
  "blocklist (note_ok E p st) = blocklist st" "gated (note_ok E p st) = gated st"
  "owner (note_verdict E p code st) = owner st" "owner (note_ok E p st) = owner st"
  by (simp_all add: note_verdict_def note_ok_def)

lemma fetch_keeps_caches:
  "contents (snd (fetch_attempts E p f e code n st)) = contents st \<and>
   blocklist (snd (fetch_attempts E p f e code n st)) = blocklist st \<and>
   gated (snd (fetch_attempts E p f e code n st)) = gated st \<and> owner (snd (fetch_attempts E p f e code n st)) = owner st"
proof (induction n arbitrary: code st)
  case (Suc n)
  then show ?case by (cases "fst (f e (world st))") (auto simp: Let_def case_prod_beta)
qed simp

lemma fetch_clock:
  assumes "clock_ok E" and "content_of E p = Some f"
  shows "monotonic E (world st) \<le> monotonic E (world (snd (fetch_attempts E p f e code n st)))"
proof (induction n arbitrary: code st)
  case (Suc n)
  have a: "monotonic E (world st) \<le> monotonic E (snd (f e (world st)))" by (rule clock_okD(1) [OF assms])
  let ?st2 = "if n = 0 then snd (ask f e st) else (snd (ask f e st))\<lparr>world := retry_pause E (world (snd (ask f e st)))\<rparr>"
  have "monotonic E (world st) \<le> monotonic E (world ?st2)"
    using a clock_okD(2) [OF assms(1), of "snd (f e (world st))"] by auto
  then have "monotonic E (world st) \<le> monotonic E (world (snd (fetch_attempts E p f e c n ?st2)))" for c
    using Suc.IH [of ?st2 c] by (rule order_trans)
  with a show ?case
    by (cases "fst (f e (world st))") (auto simp: Let_def case_prod_beta)
qed simp

section \<open>A walk and its memory\<close>

text \<open>The page the caches hold for a list of attempts.\<close>

fun known_page :: "rat \<Rightarrow> ('p, 'w, 't) desk \<Rightarrow> (ustr \<times> ustr) list \<Rightarrow> (ustr \<times> 'p page) option" where
  "known_page t st [] = None"
| "known_page t st ((p, e) # as) =
     (case verdict_at t st (content_key p e) of
        Cached_hit pg \<Rightarrow> Some (p, pg)
      | Cached_miss \<Rightarrow> known_page t st as
      | _ \<Rightarrow> None)"

lemma known_page_same: "same_from s st st' \<Longrightarrow> s \<le> t \<Longrightarrow> known_page t st' as = known_page t st as"
  by (induction t st as rule: known_page.induct) (simp_all add: same_from_verdict split: cached.splits)

lemma cached_walk_known:
  "fst (cached_walk E as st) = known_page (now_of E st) st as \<and> same_from (now_of E st) st (snd (cached_walk E as st))"
proof (induction as arbitrary: st)
  case (Cons a as)
  obtain p e where a: "a = (p, e)" by force
  obtain v st1 where m: "member_cached E (content_key p e) st = (v, st1)" by force
  have v: "v = verdict_at (now_of E st) st (content_key p e)" and s: "same_from (now_of E st) st st1"
    using member_cached_reads(1) [of E "content_key p e" st] member_cached_reads(2) [of E st "content_key p e"] by (simp_all add: m)
  have w: "world st1 = world st" by (rule same_fromD(1) [OF s])
  have "known_page (now_of E st) st1 as = known_page (now_of E st) st as" by (rule known_page_same [OF s order_refl])
  then have i: "fst (cached_walk E as st1) = known_page (now_of E st) st as"
    "same_from (now_of E st) st (snd (cached_walk E as st1))"
    using Cons.IH [of st1] same_from_trans [OF s] by (simp_all add: w)
  show ?case using i s by (simp add: a m v [symmetric] split: cached.splits)
qed simp

lemma walkable_gated: "u ''gated'' \<notin> set walkable_verdict_codes"
  by code_simp

lemma verdict_same_caches:
  "gated st' = gated st \<Longrightarrow> blocklist st' = blocklist st \<Longrightarrow> contents st' = contents st \<Longrightarrow>
   verdict_at t st' key = verdict_at t st key"
  by (simp add: verdict_at_def)

lemma set_contents_verdict:
  assumes "verdict_at t st key = Cached_miss" and "now_of E st = t" and "t \<le> expiry t (default_ttl_s (contents st)) None"
    and "verdict_at t st j = Cached_miss"
  shows "verdict_at t (set_contents E key pg st) j = (if j = key then Cached_hit pg else Cached_miss)"
  using assms ttl.read_written [of t t "contents st" None key pg] ttl.read_other [of j key t t pg None "contents st"]
  by (auto simp: verdict_at_def set_contents_def split: if_splits option.splits)

lemma set_sel [simp]:
  "world (set_contents E key pg st) = world st" "world (set_gated E key b ttl st) = world st"
  "world (set_blocklist E key st) = world st"
  "default_ttl_s (contents (set_contents E key pg st)) = default_ttl_s (contents st)"
  "contents (set_gated E key b ttl st) = contents st" "contents (set_blocklist E key st) = contents st"
  by (simp_all add: set_contents_def set_gated_def set_blocklist_def)

text \<open>
  A walk that ends with a page: its caches hold that page for the attempts walked, and no key that was open
  holds anything but it.
\<close>

definition walk_left :: "('p, 'w, 't) upstream \<Rightarrow> (ustr \<times> ustr) list \<Rightarrow> 'p page \<Rightarrow> ('p, 'w, 't) desk \<Rightarrow> ('p, 'w, 't) desk \<Rightarrow> bool" where
  "walk_left E as pg st st' \<longleftrightarrow>
     now_of E st \<le> now_of E st' \<and> map_option snd (known_page (now_of E st') st' as) = Some pg \<and>
     (\<forall>j. verdict_at (now_of E st) st j = Cached_miss \<longrightarrow> verdict_at (now_of E st') st' j \<in> {Cached_miss, Cached_hit pg})"

lemma walk_left_step:
  assumes "walk_left E as pg st1 st'" and "now_of E st \<le> now_of E st1"
    and "\<And>j. verdict_at (now_of E st) st j = Cached_miss \<Longrightarrow> verdict_at (now_of E st1) st1 j = Cached_miss"
    and "verdict_at (now_of E st) st (content_key p e) = Cached_miss"
  shows "walk_left E ((p, e) # as) pg st st'"
proof -
  consider "verdict_at (now_of E st') st' (content_key p e) = Cached_miss"
    | "verdict_at (now_of E st') st' (content_key p e) = Cached_hit pg"
    using assms(1,3,4) by (auto simp: walk_left_def)
  then show ?thesis using assms by cases (auto simp: walk_left_def)
qed

lemma content_walk_left:
  assumes "clock_ok E" and "content_walk E k as st = (Some pg, st')"
    and "now_of E st' \<le> expiry (now_of E st') (default_ttl_s (contents st)) None"
  shows "walk_left E as pg st st'"
  using assms(2,3)
proof (induction as arbitrary: st)
  case (Cons a as)
  obtain p e where a: "a = (p, e)" by force
  let ?key = "content_key p e"
  obtain v st1 where m: "member_cached E ?key st = (v, st1)" by force
  have v: "v = verdict_at (now_of E st) st ?key" and s: "same_from (now_of E st) st st1"
    using member_cached_reads(1) [of E ?key st] member_cached_reads(2) [of E st ?key] by (simp_all add: m)
  note w = same_fromD(1) [OF s] and t = same_fromD(3) [OF s]
  note same = same_from_verdict [OF s]
  show ?case
  proof (cases v)
    case (Cached_hit pg')
    then have "pg' = pg" "st' = st1" using Cons.prems(1) by (simp_all add: a m)
    then show ?thesis
      using v [symmetric] Cached_hit same by (auto simp: walk_left_def a w)
  next
    case Cached_miss
    have miss: "verdict_at (now_of E st) st ?key = Cached_miss" using v Cached_miss by simp
    show ?thesis
    proof (cases "content_of E p")
      case None
      then have "content_walk E k as st1 = (Some pg, st')" using Cons.prems(1) Cached_miss by (simp add: a m)
      then have "walk_left E as pg st1 st'" using Cons.IH Cons.prems(2) t by simp
      then show ?thesis unfolding a by (rule walk_left_step) (use miss same w in simp_all)
    next
      case (Some f)
      obtain r st2 where r: "fetch_member_content E p f e st1 = (r, st2)" by force
      have c2: "contents st2 = contents st1" "blocklist st2 = blocklist st1" "gated st2 = gated st1"
        using fetch_keeps_caches [of E p f e None 2 st1] r by (simp_all add: fetch_member_content_def)
      have n2: "now_of E st \<le> now_of E st2"
        using fetch_clock [OF assms(1) Some, of st1 e None 2] r w by (simp add: fetch_member_content_def)
      have v2: "verdict_at (now_of E st2) st2 j = Cached_miss" if "verdict_at (now_of E st) st j = Cached_miss" for j
        using verdict_miss_stays [OF that n2] same [OF n2] verdict_same_caches [OF c2(3,2,1)] by simp
      show ?thesis
      proof (cases r)
        case (Inl code)
        have go: "\<not> (case code of None \<Rightarrow> False | Some c \<Rightarrow> c \<notin> set walkable_verdict_codes)"
          using Cons.prems(1) Cached_miss Some r Inl by (auto simp: a m Let_def split: if_splits)
        then have "code \<noteq> Some (u ''gated'')" using walkable_gated by auto
        then have "content_walk E k as st2 = (Some pg, st')"
          using Cons.prems(1) Cached_miss Some r Inl go by (simp add: a m)
        then have "walk_left E as pg st2 st'" using Cons.IH [of st2] Cons.prems(2) t c2(1) by simp
        then show ?thesis unfolding a by (rule walk_left_step) (use miss n2 v2 in simp_all)
      next
        case (Inr page)
        let ?st3 = "note_ok E p st2"
        have fin: "pg = page\<lparr>pg_group_key := k\<rparr>" "st' = set_contents E ?key pg ?st3"
          using Cons.prems(1) Cached_miss Some r Inr by (auto simp: a m Let_def split: if_splits)
        have v3: "verdict_at (now_of E st2) ?st3 j = Cached_miss" if "verdict_at (now_of E st) st j = Cached_miss" for j
          using v2 [OF that] verdict_same_caches [of ?st3 st2] by simp
        have "now_of E st2 \<le> expiry (now_of E st2) (default_ttl_s (contents ?st3)) None"
          using Cons.prems(2) fin(2) c2(1) t by simp
        then have "verdict_at (now_of E st2) st' j = (if j = ?key then Cached_hit pg else Cached_miss)"
          if "verdict_at (now_of E st) st j = Cached_miss" for j
          unfolding fin(2) by (intro set_contents_verdict v3 that miss) simp_all
        then show ?thesis using n2 miss fin(2) by (auto simp: walk_left_def a)
      qed
    qed
  qed (use Cons.prems(1) in \<open>simp_all add: a m\<close>)
qed simp

section \<open>The group's answer and its memory\<close>

lemma resolve_group_sel [simp]:
  "world (snd (resolve_group E k st)) = world st" "contents (snd (resolve_group E k st)) = contents st"
  "gated (snd (resolve_group E k st)) = gated st" "blocklist (snd (resolve_group E k st)) = blocklist st"
  "lanes (snd (resolve_group E k st)) = lanes st"
  by (simp_all add: resolve_group_def case_prod_beta)

lemma resolve_group_same: "same_from t st (snd (resolve_group E k st))"
  by (simp add: same_from_def)

lemma current_sources_twice:
  "fst (current_sources t (snd (current_sources t c))) = fst (current_sources t c)"
  by (simp add: current_sources_def case_prod_beta ttl.read_twice)

lemma resolve_group_twice: "fst (resolve_group E j (snd (resolve_group E k st))) = fst (resolve_group E j st)"
  by (simp add: resolve_group_def case_prod_beta current_sources_twice)

lemma cached_group_page_known:
  "fst (cached_group_page E k st) =
     known_page (now_of E st) st (member_attempts_of E (fst (resolve_group E k st)))"
  "same_from (now_of E st) st (snd (cached_group_page E k st))"
proof -
  let ?st1 = "snd (resolve_group E k st)" and ?as = "member_attempts_of E (fst (resolve_group E k st))"
  have s: "same_from (now_of E st) st ?st1" by (rule resolve_group_same)
  note c = cached_walk_known [of E ?as ?st1]
  show "fst (cached_group_page E k st) = known_page (now_of E st) st ?as"
    using c known_page_same [OF s order_refl] by (simp add: cached_group_page_def case_prod_beta)
  show "same_from (now_of E st) st (snd (cached_group_page E k st))"
    using c same_from_trans [OF s] by (simp add: cached_group_page_def case_prod_beta)
qed

text \<open>C21: What resolving a group answered is what the cache-only reads report afterwards: as long as the group
  has the same members and the content TTL reaches the present, the peek that follows a resolution
  answers the very page that was resolved, whichever member served it.\<close>

theorem peek_agrees_with_resolution:
  assumes "clock_ok E" and "resolve_group_content E k st = (Some pg, st')"
    and "fst (resolve_group E k st') = fst (resolve_group E k st)"
    and "now_of E st' \<le> expiry (now_of E st') (default_ttl_s (contents st)) None"
  shows "fst (peek_group_content E k st') = Some pg"
proof -
  obtain per st1 where g: "resolve_group E k st = (per, st1)" by force
  let ?as = "member_attempts_of E per"
  have s1: "same_from (now_of E st) st st1" using resolve_group_same [of "now_of E st" st E k] g by simp
  have once: "resolve_group_content_once E k ?as st1 = (Some pg, st')"
    using assms(2) g by (auto simp: resolve_group_content_def Let_def split: if_splits)
  have per: "fst (resolve_group E k st1) = per" using resolve_group_twice [of E k k st] g by simp
  obtain c st2 where c: "cached_group_page E k st1 = (c, st2)" by force
  note known = cached_group_page_known(1) [of E k st1] cached_group_page_known(2) [of E st1 k]
  have "map_option snd (known_page (now_of E st') st' ?as) = Some pg"
  proof (cases c)
    case (Some x)
    have "st' = st2" "snd x = pg" using once c Some by (auto simp: resolve_group_content_once_def split: prod.splits)
    moreover have "known_page (now_of E st2) st2 ?as = Some x"
      using known per c Some known_page_same [OF known(2), of "now_of E st1" ?as] same_fromD(1) [OF known(2)]
      by simp
    ultimately show ?thesis by simp
  next
    case None
    have w: "content_walk E k ?as st2 = (Some pg, st')" using once c None by (simp add: resolve_group_content_once_def)
    have "default_ttl_s (contents st2) = default_ttl_s (contents st)"
      using same_fromD(3) [OF known(2)] same_fromD(3) [OF s1] c by simp
    then have "walk_left E ?as pg st2 st'" using content_walk_left [OF assms(1) w] assms(4) by simp
    then show ?thesis by (simp add: walk_left_def)
  qed
  then show ?thesis
    using cached_group_page_known(1) [of E k st'] assms(3) g by (simp add: peek_group_content_def case_prod_beta)
qed

section \<open>Attempts\<close>

definition attempts_ok ::
  "(ustr \<Rightarrow> bool) \<Rightarrow> bool \<Rightarrow> search_result list \<Rightarrow> (ustr \<times> ustr) list \<Rightarrow> (ustr \<times> ustr) list \<Rightarrow> bool" where
  "attempts_ok reg only ss acc as \<longleftrightarrow>
     length as \<le> max_member_attempts \<and> distinct (map fst as) \<and>
     list_all (\<lambda>a. snd a \<noteq> [] \<and> (reg (fst a) \<or> \<not> only)) as \<and>
     set as \<subseteq> set acc \<union> (\<lambda>s. (provider s, external_of s)) ` set ss"

lemma attempts_ok_skip: "attempts_ok reg only ss acc as \<Longrightarrow> attempts_ok reg only (s # ss) acc as"
  by (auto simp: attempts_ok_def)

lemma attempts_ok_take:
  "attempts_ok reg only ss (acc @ [(provider s, external_of s)]) as \<Longrightarrow> attempts_ok reg only (s # ss) acc as"
  by (auto simp: attempts_ok_def)

lemma attempts_from_ok:
  assumes "length acc < max_member_attempts" and "set asked = fst ` set acc" and "distinct (map fst acc)"
    and "list_all (\<lambda>a. snd a \<noteq> [] \<and> (reg (fst a) \<or> \<not> only)) acc"
  shows "attempts_ok reg only ss acc (attempts_from reg only asked acc ss)"
  using assms
proof (induction ss arbitrary: asked acc)
  case Nil
  then show ?case by (simp add: attempts_ok_def)
next
  case (Cons s ss)
  let ?acc = "acc @ [(provider s, external_of s)]"
  have skip: "attempts_ok reg only (s # ss) acc (attempts_from reg only asked acc ss)"
    by (rule attempts_ok_skip [OF Cons.IH [OF Cons.prems]])
  show ?case
  proof (cases "provider s \<in> set asked \<or> only \<and> \<not> reg (provider s) \<or> external_of s = []")
    case True
    then have "attempts_from reg only asked acc (s # ss) = attempts_from reg only asked acc ss" by auto
    with skip show ?thesis by simp
  next
    case False
    then have step: "attempts_from reg only asked acc (s # ss) =
        (if length ?acc = max_member_attempts then ?acc else attempts_from reg only (provider s # asked) ?acc ss)"
      by (auto simp: Let_def)
    have acc: "set (provider s # asked) = fst ` set ?acc" "distinct (map fst ?acc)"
      "list_all (\<lambda>a. snd a \<noteq> [] \<and> (reg (fst a) \<or> \<not> only)) ?acc"
      using False Cons.prems(2-4) by auto
    show ?thesis
    proof (cases "length ?acc = max_member_attempts")
      case True
      then show ?thesis unfolding step using acc by (auto simp: attempts_ok_def)
    next
      case False
      then have "length ?acc < max_member_attempts" using Cons.prems(1) by simp
      from attempts_ok_take [OF Cons.IH [OF this acc]] show ?thesis unfolding step using False by simp
    qed
  qed
qed

lemma attempts_ok_start: "attempts_ok reg only ss [] (attempts_from reg only [] [] ss)"
  by (rule attempts_from_ok) (simp_all add: max_member_attempts_def)

lemma member_attempts_length: "length (member_attempts reg ss lead only) \<le> max_member_attempts"
proof -
  have "length (attempts_from reg only [] [] ss) \<le> max_member_attempts"
    using attempts_ok_start [of reg only ss] by (simp add: attempts_ok_def)
  then show ?thesis
    using sum_length_filter_compl [of "\<lambda>a. fst a = the lead" "attempts_from reg only [] [] ss"]
    by (auto simp: member_attempts_def Let_def split: option.splits)
qed

lemma member_attempts_of_length: "length (member_attempts_of E per) \<le> max_member_attempts"
  by (auto simp: member_attempts_of_def member_attempts_length split: option.splits)

text \<open>The members a request may ask: at most three, each provider once and none with an empty external
  id, only registered ones where the caller asks for that; naming the member that served the page
  reorders them and nothing else, and puts it first when it is among them.\<close>

theorem member_attempts_ok:
  "let as = member_attempts reg ss lead only; plain = member_attempts reg ss None only in
     length as \<le> max_member_attempts \<and> distinct (map fst as) \<and> set as = set plain \<and>
     list_all (\<lambda>a. snd a \<noteq> [] \<and> (reg (fst a) \<or> \<not> only)) as \<and>
     set as \<subseteq> (\<lambda>s. (provider s, external_of s)) ` set ss \<and>
     (case lead of None \<Rightarrow> True | Some l \<Rightarrow> l \<notin> fst ` set plain \<or> fst (hd as) = l)"
proof -
  let ?as = "attempts_from reg only [] [] ss"
  have ok: "length ?as \<le> max_member_attempts" "distinct (map fst ?as)"
    "list_all (\<lambda>a. snd a \<noteq> [] \<and> (reg (fst a) \<or> \<not> only)) ?as" "set ?as \<subseteq> (\<lambda>s. (provider s, external_of s)) ` set ss"
    using attempts_ok_start [of reg only ss] by (simp_all add: attempts_ok_def)
  show ?thesis
  proof (cases lead)
    case None
    then show ?thesis using ok by (simp add: member_attempts_def Let_def)
  next
    case (Some l)
    let ?l = "filter (\<lambda>a. fst a = l) ?as" and ?r = "filter (\<lambda>a. fst a \<noteq> l) ?as"
    show ?thesis
    proof (cases "?l = []")
      case True
      then have "l \<notin> fst ` set ?as" by (auto simp: filter_empty_conv)
      with True Some ok show ?thesis by (simp add: member_attempts_def Let_def)
    next
      case False
      have "length (?l @ ?r) = length ?as" using sum_length_filter_compl [of "\<lambda>a. fst a = l" ?as] by simp
      moreover have "distinct (map fst (?l @ ?r))" using ok(2) by (auto simp: distinct_map_filter)
      moreover have "fst (hd (?l @ ?r)) = l" using hd_in_set [OF False] False by auto
      moreover have "set (?l @ ?r) = set ?as" by auto
      ultimately show ?thesis using False Some ok by (auto simp: member_attempts_def Let_def list_all_iff)
    qed
  qed
qed

section \<open>Upstream calls\<close>

text \<open>A measure of the providers' state that a call of a page raises by at most one.\<close>

definition counts :: "('p, 'w, 't) upstream \<Rightarrow> ('w \<Rightarrow> nat) \<Rightarrow> bool" where
  "counts E n \<longleftrightarrow>
     (\<forall>p f e w. content_of E p = Some f \<longrightarrow> n (snd (f e w)) \<le> Suc (n w)) \<and> (\<forall>w. n (retry_pause E w) \<le> n w)"

lemma fetch_counts:
  assumes "counts E n" and "content_of E p = Some f"
  shows "n (world (snd (fetch_attempts E p f e code m st))) \<le> n (world st) + m"
proof (induction m arbitrary: code st)
  case (Suc m)
  have a: "n (snd (f e (world st))) \<le> Suc (n (world st))" using assms by (simp add: counts_def)
  let ?st2 = "if m = 0 then snd (ask f e st) else (snd (ask f e st))\<lparr>world := retry_pause E (world (snd (ask f e st)))\<rparr>"
  have "n (retry_pause E (snd (f e (world st)))) \<le> n (snd (f e (world st)))" using assms(1) by (simp add: counts_def)
  then have "n (world ?st2) \<le> Suc (n (world st))" using a by auto
  then have "n (world (snd (fetch_attempts E p f e c m ?st2))) \<le> n (world st) + Suc m" for c
    using Suc.IH [of c ?st2] by linarith
  with a show ?case by (cases "fst (f e (world st))") (auto simp: Let_def case_prod_beta)
qed simp

lemma content_walk_counts:
  assumes "counts E n"
  shows "n (world (snd (content_walk E k as st))) \<le> n (world st) + 2 * length as"
proof (induction as arbitrary: st)
  case (Cons a as)
  obtain p e where a: "a = (p, e)" by force
  obtain v st1 where m: "member_cached E (content_key p e) st = (v, st1)" by force
  have w: "world st1 = world st"
    using same_fromD(1) [OF member_cached_reads(2) [of E st "content_key p e"]] by (simp add: m)
  show ?case
  proof (cases v)
    case Cached_miss
    show ?thesis
    proof (cases "content_of E p")
      case None
      then show ?thesis using Cons.IH [of st1] Cached_miss by (simp add: a m w)
    next
      case (Some f)
      obtain r st2 where r: "fetch_member_content E p f e st1 = (r, st2)" by force
      have n2: "n (world st2) \<le> n (world st) + 2"
        using fetch_counts [OF assms Some, of e None 2 st1] r w by (simp add: fetch_member_content_def)
      then have "n (world (snd (content_walk E k as st3))) \<le> n (world st) + (2 + 2 * length as)"
        if "world st3 = world st2" for st3 using Cons.IH [of st3] that by simp
      with n2 show ?thesis using Cached_miss Some r by (auto simp: a m Let_def split: sum.splits option.splits)
    qed
  qed (simp_all add: a m w)
qed simp


section \<open>Which member answers\<close>

text \<open>
  Providers that answer a page request the same way whenever they are asked, and the member such a group
  is answered by: the first that is not past repair.
\<close>

definition steady :: "('p, 'w, 't) upstream \<Rightarrow> (ustr \<Rightarrow> (ustr \<Rightarrow> 'p content_answer) option) \<Rightarrow> bool" where
  "steady E ans \<longleftrightarrow>
     (\<forall>p. content_of E p = map_option (\<lambda>a e w. (a e, w)) (ans p)) \<and>
     (\<forall>w. monotonic E w \<le> monotonic E (retry_pause E w))"

fun serve ::
  "bool \<Rightarrow> (ustr \<Rightarrow> (ustr \<Rightarrow> 'p content_answer) option) \<Rightarrow> ustr \<Rightarrow> (ustr \<times> ustr) list \<Rightarrow> 'p page option" where
  "serve block ans k [] = None"
| "serve block ans k ((p, e) # as) =
     (case ans p of
        None \<Rightarrow> serve block ans k as
      | Some a \<Rightarrow>
          (case a e of
             Page pg \<Rightarrow> if block \<and> is_blocked_country (pg_country pg) then None else Some (pg\<lparr>pg_group_key := k\<rparr>)
           | Refused c \<Rightarrow> if c \<in> set walkable_verdict_codes then serve block ans k as else None
           | Broken \<Rightarrow> serve block ans k as))"

lemma fetch_steady:
  "fst (fetch_attempts E p (\<lambda>e w. (a e, w)) e code (Suc n) st) =
     (case a e of Page pg \<Rightarrow> Inr pg | Refused c \<Rightarrow> Inl (Some c) | Broken \<Rightarrow> Inl None)"
proof (induction n arbitrary: code st)
  case 0
  then show ?case by (cases "a e") (simp_all add: ask_def)
next
  case (Suc n)
  show ?case
  proof (cases "a e")
    case (Refused c)
    then show ?thesis using Suc.IH by (simp add: ask_def Let_def del: fetch_attempts.simps(2) add: fetch_attempts.simps(2) [of E p _ e code "Suc n"])
  next
    case Broken
    then show ?thesis using Suc.IH by (simp add: ask_def Let_def del: fetch_attempts.simps(2) add: fetch_attempts.simps(2) [of E p _ e code "Suc n"])
  qed (simp add: ask_def)
qed

lemma steady_clock: "steady E ans \<Longrightarrow> clock_ok E"
  by (auto simp: steady_def clock_ok_def)

lemma content_walk_serve:
  assumes "steady E ans"
    and "list_all (\<lambda>(p, e). verdict_at (now_of E st) st (content_key p e) = Cached_miss) as"
  shows "fst (content_walk E k as st) = serve (block_russian E) ans k as"
  using assms(2)
proof (induction as arbitrary: st)
  case (Cons a as)
  obtain p e where a: "a = (p, e)" by force
  obtain v st1 where m: "member_cached E (content_key p e) st = (v, st1)" by force
  have v: "v = Cached_miss" and s: "same_from (now_of E st) st st1"
    using member_cached_reads(1) [of E "content_key p e" st] member_cached_reads(2) [of E st "content_key p e"] Cons.prems
    by (simp_all add: m a)
  note w = same_fromD(1) [OF s]
  have rest: "list_all (\<lambda>(p, e). verdict_at (now_of E st') st' (content_key p e) = Cached_miss) as"
    if "now_of E st \<le> now_of E st'" "gated st' = gated st1" "blocklist st' = blocklist st1" "contents st' = contents st1" for st'
    using Cons.prems verdict_miss_stays [OF _ that(1), of st] verdict_same_caches [OF that(2-4)]
      same_from_verdict [OF s that(1)]
    by (auto simp: list_all_iff a)
  show ?case
  proof (cases "ans p")
    case None
    then have "content_of E p = None" using assms(1) by (simp add: steady_def)
    then show ?thesis using None v Cons.IH [OF rest [of st1]] by (simp add: a m w)
  next
    case (Some b)
    then have c: "content_of E p = Some (\<lambda>e w. (b e, w))" using assms(1) by (simp add: steady_def)
    obtain r st2 where r: "fetch_member_content E p (\<lambda>e w. (b e, w)) e st1 = (r, st2)" by force
    have rv: "r = (case b e of Page pg \<Rightarrow> Inr pg | Refused c \<Rightarrow> Inl (Some c) | Broken \<Rightarrow> Inl None)"
      using fetch_steady [of E p b e None 1 st1] r by (simp add: fetch_member_content_def numeral_2_eq_2)
    have k2: "contents st2 = contents st1" "blocklist st2 = blocklist st1" "gated st2 = gated st1"
      using fetch_keeps_caches [of E p "\<lambda>e w. (b e, w)" e None 2 st1] r by (simp_all add: fetch_member_content_def)
    have "now_of E st \<le> now_of E st2"
      using fetch_clock [OF steady_clock [OF assms(1)] c, of st1 e None 2] r w by (simp add: fetch_member_content_def)
    note go = Cons.IH [OF rest [OF this k2(3,2,1)]]
    show ?thesis
    proof (cases "b e")
      case (Refused code)
      then show ?thesis using go rv Some walkable_gated by (auto simp: a m v c r)
    qed (use go rv Some in \<open>auto simp: a m v c r Let_def\<close>)
  qed
qed simp


section \<open>A gated title\<close>


section \<open>The gate sweep\<close>

definition gated_answer :: "(ustr \<Rightarrow> (ustr \<Rightarrow> 'p content_answer) option) \<Rightarrow> search_result \<Rightarrow> bool" where
  "gated_answer ans s \<longleftrightarrow>
     (case ans (provider s) of
        None \<Rightarrow> False
      | Some a \<Rightarrow> (case a (external_of s) of Refused c \<Rightarrow> c = u ''gated'' | _ \<Rightarrow> False))"

text \<open>What the caches say of the cards of a listing is what their providers answer.\<close>

definition gates_agree ::
  "(ustr \<Rightarrow> (ustr \<Rightarrow> 'p content_answer) option) \<Rightarrow> rat \<Rightarrow> search_result list \<Rightarrow> ('p, 'w, 't) desk \<Rightarrow> bool" where
  "gates_agree ans t items st \<longleftrightarrow>
     list_all (\<lambda>s. fst (cache_get t (gate_cache_key s) (gated st)) \<in> {None, Some (gated_answer ans s)} \<and>
       (fst (cache_get t (gate_cache_key s) (contents st)) = None \<or> \<not> gated_answer ans s)) items"

definition plain_provider :: "search_result \<Rightarrow> bool" where
  "plain_provider s \<longleftrightarrow> 58 \<notin> set (provider s)"

lemma gate_cache_key_inj:
  assumes "plain_provider a" "plain_provider b" "gate_cache_key a = gate_cache_key b"
  shows "provider a = provider b" "external_of a = external_of b"
proof -
  have "provider a @ 58 # external_of a = provider b @ 58 # external_of b"
    using assms(3) by (simp add: gate_cache_key_def content_key_def u_def)
  then have "split_first 58 (provider a @ 58 # external_of a) = split_first 58 (provider b @ 58 # external_of b)" by simp
  then show "provider a = provider b" "external_of a = external_of b"
    using assms(1,2) by (simp_all add: split_first_app plain_provider_def)
qed

lemma gated_answer_key:
  assumes "plain_provider a" "plain_provider b" "gate_cache_key a = gate_cache_key b"
  shows "gated_answer ans a = gated_answer ans b"
  unfolding gated_answer_def by (simp only: gate_cache_key_inj [OF assms])

lemma gates_agree_same: "gates_agree ans t items st \<Longrightarrow> same_from t st st' \<Longrightarrow> gates_agree ans t items st'"
  by (simp add: gates_agree_def same_from_def)

lemma cache_set_read:
  "fst (cache_get t j (cache_set s key v ttl c)) \<in>
     (if j = key then {None, Some v} else {fst (cache_get t j c)})"
proof (cases "j = key")
  case True
  then show ?thesis
    using ttl.read_written [of t s c ttl key v] ttl.read_lapsed [of s c ttl t key v]
    by (cases "t \<le> expiry s (default_ttl_s c) ttl") auto
qed (simp add: ttl.read_other)

lemma gates_agree_set:
  assumes "list_all plain_provider items" "s \<in> set items" "gates_agree ans t items st"
  shows "gates_agree ans t items (set_gated E (gate_cache_key s) (gated_answer ans s) ttl st)"
    and "\<not> gated_answer ans s \<Longrightarrow> gates_agree ans t items (set_contents E (gate_cache_key s) pg st)"
proof -
  have key: "gated_answer ans x = gated_answer ans s" if "x \<in> set items" "gate_cache_key x = gate_cache_key s" for x
    using gated_answer_key [OF _ _ that(2)] assms(1,2) that(1) by (auto simp: list_all_iff)
  have "fst (cache_get t (gate_cache_key x) (cache_set n (gate_cache_key s) (gated_answer ans s) ttl (gated st)))
      \<in> {None, Some (gated_answer ans x)}" if "x \<in> set items" for x n
    using cache_set_read [of t "gate_cache_key x" n "gate_cache_key s" "gated_answer ans s" ttl "gated st"] key [OF that]
      assms(3) that by (auto simp: gates_agree_def list_all_iff split: if_splits)
  then show "gates_agree ans t items (set_gated E (gate_cache_key s) (gated_answer ans s) ttl st)"
    using assms(3) by (simp add: gates_agree_def list_all_iff set_gated_def)
  assume no: "\<not> gated_answer ans s"
  have "fst (cache_get t (gate_cache_key x) (cache_set n (gate_cache_key s) pg None (contents st))) = None \<or>
      \<not> gated_answer ans x" if "x \<in> set items" for x n
    using cache_set_read [of t "gate_cache_key x" n "gate_cache_key s" pg None "contents st"] key [OF that] no
      assms(3) that by (auto simp: gates_agree_def list_all_iff split: if_splits)
  then show "gates_agree ans t items (set_contents E (gate_cache_key s) pg st)"
    using assms(3) by (simp add: gates_agree_def list_all_iff set_contents_def)
qed

lemma known_gate_agrees:
  assumes "list_all plain_provider items" "s \<in> set items" "gates_agree ans (now_of E st) items st"
  shows "fst (known_gate E (gate_cache_key s) st) \<in> {None, Some (gated_answer ans s)} \<and>
    world (snd (known_gate E (gate_cache_key s) st)) = world st \<and>
    gates_agree ans (now_of E st) items (snd (known_gate E (gate_cache_key s) st))"
proof -
  let ?key = "gate_cache_key s"
  obtain g st1 where g: "read_gated E ?key st = (g, st1)" by force
  obtain c st2 where c: "read_contents E ?key st1 = (c, st2)" by force
  have s1: "same_from (now_of E st) st st1" using read_same(1) [of E st ?key] g by simp
  have w1: "world st1 = world st" by (rule same_fromD(1) [OF s1])
  have s2: "same_from (now_of E st) st st2" using same_from_trans [OF s1] read_same(3) [of E st1 ?key] c w1 by simp
  note a1 = gates_agree_same [OF assms(3) s1] and a2 = gates_agree_same [OF assms(3) s2]
  have gv: "g \<in> {None, Some (gated_answer ans s)}"
    using read_fst(1) [of E ?key st] g assms(2,3) by (auto simp: gates_agree_def list_all_iff)
  have cv: "c = None \<or> \<not> gated_answer ans s"
    using read_fst(3) [of E ?key st1] c w1 a1 assms(2) by (auto simp: gates_agree_def list_all_iff)
  have w2: "world st2 = world st" by (rule same_fromD(1) [OF s2])
  have a3: "gates_agree ans (now_of E st) items (set_gated E ?key False (Some (cache_content_s E)) st2)"
    if "c \<noteq> None"
    using gates_agree_set(1) [OF assms(1,2) a2, of E "Some (cache_content_s E)"] cv that by simp
  show ?thesis
    using gv cv a1 a2 a3 w1 w2 by (auto simp: known_gate_def g c split: option.splits)
qed

lemma gate_check_agrees:
  assumes "steady E ans" "list_all plain_provider items" "s \<in> set items" "gates_agree ans (now_of E st) items st"
  shows "fst (gate_check U E s st) = gated_answer ans s \<and> world (snd (gate_check U E s st)) = world st \<and>
    gates_agree ans (now_of E st) items (snd (gate_check U E s st))"
proof -
  let ?key = "gate_cache_key s"
  obtain v1 st1 where k1: "known_gate E ?key st = (v1, st1)" by force
  obtain v2 st2 where k2: "known_gate E ?key st1 = (v2, st2)" by force
  have i1: "v1 \<in> {None, Some (gated_answer ans s)}" "world st1 = world st" "gates_agree ans (now_of E st) items st1"
    using known_gate_agrees [OF assms(2-4)] k1 by simp_all
  have i2: "v2 \<in> {None, Some (gated_answer ans s)}" "world st2 = world st" "gates_agree ans (now_of E st) items st2"
    using known_gate_agrees [OF assms(2,3), of ans E st1] i1(2,3) k2 by simp_all
  show ?thesis
  proof (cases "v1 = None \<and> v2 = None")
    case False
    then show ?thesis using i1 i2 by (auto simp: gate_check_def k1 k2)
  next
    case True
    show ?thesis
    proof (cases "ans (provider s)")
      case None
      then have "content_of E (provider s) = None" using assms(1) by (simp add: steady_def)
      then show ?thesis using True i2 None by (simp add: gate_check_def k1 k2 gated_answer_def)
    next
      case (Some a)
      then have f: "content_of E (provider s) = Some (\<lambda>e w. (a e, w))" using assms(1) by (simp add: steady_def)
      have ask: "ask (\<lambda>e w. (a e, w)) (external_of s) st2 = (a (external_of s), st2)" by (simp add: ask_def)
      note sets = gates_agree_set [OF assms(2,3)]
      show ?thesis
      proof (cases "a (external_of s)")
        case (Page pg)
        then have no: "\<not> gated_answer ans s" by (simp add: gated_answer_def Some)
        have b: "gates_agree ans (now_of E st) items (set_blocklist E ?key st2)"
          using i2(3) by (simp add: gates_agree_def set_blocklist_def)
        have "gates_agree ans (now_of E st) items
            (set_gated E ?key False (Some (cache_content_s E)) (set_contents E ?key pg' st2))" for pg'
          using sets(1) [OF sets(2) [OF i2(3) no]] no by simp
        then show ?thesis using True i2 Page no b by (simp add: gate_check_def k1 k2 f ask Let_def)
      next
        case (Refused c)
        then have g: "gated_answer ans s \<longleftrightarrow> c = u ''gated''" by (simp add: gated_answer_def Some)
        show ?thesis
          using True i2 Refused g sets(1) [OF i2(3), of E None] by (auto simp: gate_check_def k1 k2 f ask)
      next
        case Broken
        then show ?thesis using True i2 by (simp add: gate_check_def k1 k2 f ask gated_answer_def Some)
      qed
    qed
  qed
qed

lemma gated_ids_agree:
  assumes "steady E ans" "list_all plain_provider items" "set todo \<subseteq> set items" "gates_agree ans (now_of E st) items st"
  shows "set (fst (gated_ids U E todo st)) = sr_id ` {s \<in> set todo. gated_answer ans s}"
  using assms(3,4)
proof (induction todo arbitrary: st)
  case (Cons s todo)
  obtain g st1 where g: "gate_check U E s st = (g, st1)" by force
  have "s \<in> set items" using Cons.prems(1) by simp
  from gate_check_agrees [OF assms(1,2) this Cons.prems(2), of U]
  have i: "g = gated_answer ans s" "world st1 = world st" "gates_agree ans (now_of E st) items st1"
    by (simp_all add: g)
  have "set (fst (gated_ids U E todo st1)) = sr_id ` {s \<in> set todo. gated_answer ans s}"
    using Cons.IH Cons.prems(1) i(2,3) by simp
  then show ?case by (auto simp: g i(1) case_prod_beta Let_def)
qed simp


section \<open>A group of three providers\<close>

definition sample_card :: "string \<Rightarrow> string \<Rightarrow> search_result" where
  "sample_card p e = sample_hit\<lparr>sr_id := u p @ u '':'' @ u e, provider := u p\<rparr>"

definition sample_page :: "unit page" where
  "sample_page = \<lparr>pg_id = u ''b:2'', pg_form = Movie, pg_title = u ''X'', pg_year = None, pg_country = None,
     pg_group_key = [], pg_body = ()\<rparr>"

definition sample_answers :: "ustr \<Rightarrow> (ustr \<Rightarrow> unit content_answer) option" where
  "sample_answers p =
     (if p = u ''a'' then Some (\<lambda>_. Refused (u ''timeout''))
      else if p = u ''b'' then Some (\<lambda>_. Page sample_page)
      else if p = u ''g'' then Some (\<lambda>_. Refused (u ''gated'')) else None)"

text \<open>The providers' state is changed by \<open>f\<close> at every call.\<close>

definition sample_env :: "(nat \<Rightarrow> nat) \<Rightarrow> (unit, nat, nat) upstream" where
  "sample_env f =
     \<lparr>monotonic = (\<lambda>_. 10), wall = (\<lambda>n. n), content_of = (\<lambda>p. map_option (\<lambda>a e w. (a e, f w)) (sample_answers p)),
      can_gate = (\<lambda>_. True), retry_pause = (\<lambda>w. w), block_russian = True, cache_content_s = 1800\<rparr>"

definition sample_desk :: "search_result list \<Rightarrow> (unit, nat, nat) desk" where
  "sample_desk ss =
     \<lparr>contents = new_cache 1800, blocklist = new_cache 1800, gated = new_cache 86400,
      lanes = \<lparr>window = 20, min_samples = 5, degraded_at = 1 / 2, down_at = 1, samples = [], errors = [], markers = []\<rparr>,
      owner = sample_catalog\<lparr>cat_sources :=
        \<lparr>default_ttl_s = 1800, entries = [(sources_key, 1800, [(u ''g2:x'', map (\<lambda>s. (provider s, s)) ss)])]\<rparr>\<rparr>,
      world = 0\<rparr>"

definition sample_cards :: "search_result list" where
  "sample_cards = [sample_card ''a'' ''1'', sample_card ''b'' ''2'']"

lemma sample_env_ok:
  "clock_ok (sample_env f)" "counts (sample_env Suc) (\<lambda>n. n)" "steady (sample_env (\<lambda>n. n)) sample_answers"
  by (auto simp: clock_ok_def counts_def steady_def sample_env_def)

lemma sample_deadlines: "expiry 10 1800 None = 1810" "expiry 10 86400 None = 86410"
  by code_simp+

theorem peek_agrees_with_resolution_witness:
  "fst (peek_group_content (sample_env Suc) (u ''g2:x'')
     (snd (resolve_group_content (sample_env Suc) (u ''g2:x'') (sample_desk sample_cards)))) =
   Some (sample_page\<lparr>pg_group_key := u ''g2:x''\<rparr>)"
proof -
  let ?E = "sample_env Suc" and ?st = "sample_desk sample_cards" and ?k = "u ''g2:x''"
  let ?st' = "snd (resolve_group_content ?E ?k ?st)" and ?pg = "sample_page\<lparr>pg_group_key := u ''g2:x''\<rparr>"
  have "fst (resolve_group_content ?E ?k ?st) = Some ?pg" by code_simp
  then have r: "resolve_group_content ?E ?k ?st = (Some ?pg, ?st')" by (simp add: prod_eq_iff)
  have g: "fst (resolve_group ?E ?k ?st') = fst (resolve_group ?E ?k ?st)" by code_simp
  have t: "now_of ?E ?st' \<le> expiry (now_of ?E ?st') (default_ttl_s (contents ?st)) None"
    by (simp add: sample_env_def sample_desk_def new_cache_def sample_deadlines)
  show ?thesis by (rule peek_agrees_with_resolution [OF sample_env_ok(1) r g t])
qed





end
