(* ===== verification/Delivery.thy ===== *)
theory Delivery
  imports Play_Request Resolution
begin

text \<open>
  What happens after play is pressed: \<^verbatim>\<open>backend/cs_uk_api/jellyfin/delivery.py\<close>'s \<^verbatim>\<open>resolve_stream\<close>, which
  walks the members of a group through the play-request seam (\<open>Play_Request\<close>), led by the member whose page
  answered (\<open>Resolution\<close>).  The health tracker is the one both parts record into.  The id of a picked
  translation and its two directions (\<^verbatim>\<open>playback_info.py\<close> encodes, the stream route decodes) are here
  too.  The byte routes over the stream are in \<open>Hls_Proxy\<close>.
\<close>

section \<open>The stage\<close>

record ('p, 'w, 't) stage =
  sg_desk :: "('p, 'w, 't) desk"
  sg_attest :: "'t attestation"
  sg_calls :: "(ustr \<times> ustr \<times> ustr option) list"

definition to_play :: "('p, 'w, 't) stage \<Rightarrow> 't play_state" where
  "to_play s = \<lparr>health = lanes (sg_desk s), attest = sg_attest s, calls = sg_calls s\<rparr>"

definition from_play :: "('p, 'w, 't) stage \<Rightarrow> 't play_state \<Rightarrow> ('p, 'w, 't) stage" where
  "from_play s ps = s\<lparr>sg_desk := (sg_desk s)\<lparr>lanes := health ps\<rparr>, sg_attest := attest ps, sg_calls := calls ps\<rparr>"

definition stage_resolve ::
  "('p, 'w, 't) upstream \<Rightarrow> ustr \<Rightarrow> ('p, 'w, 't) stage \<Rightarrow> group_resolution option \<times> ('p, 'w, 't) stage" where
  "stage_resolve E k s =
     (let (r, c) = resolve (monotonic E (world (sg_desk s))) k (owner (sg_desk s))
      in (r, s\<lparr>sg_desk := (sg_desk s)\<lparr>owner := c\<rparr>\<rparr>))"

definition stage_refuse ::
  "('p, 'w, 't) upstream \<Rightarrow> ustr option \<Rightarrow> ustr \<Rightarrow> play_surface option \<Rightarrow> ('p, 'w, 't) stage \<Rightarrow> ('p, 'w, 't) stage" where
  "stage_refuse E p i sf s =
     from_play s (attest_refusal (wall E (world (sg_desk s))) p i (Some (u ''not_found'')) sf (to_play s))"

definition provider_for_item ::
  "ucd \<Rightarrow> ('p, 'w, 't) upstream \<Rightarrow> 's registry \<Rightarrow> ustr \<Rightarrow> ('p, 'w, 't) stage \<Rightarrow>
   (wire_error + ustr option) \<times> ('p, 'w, 't) stage" where
  "provider_for_item U E reg i s =
     (if \<not> is_group_key i then (Inr (map_option fst (playable_target reg i)), s)
      else case split_season_key U i of
        Inl e \<Rightarrow> (Inl e, s)
      | Inr (k, _) \<Rightarrow>
          (let (r, s1) = stage_resolve E k s in
           (Inr (case r of None \<Rightarrow> None | Some g \<Rightarrow> (case gr_sources g of [] \<Rightarrow> None | x # _ \<Rightarrow> Some (provider x))), s1)))"

section \<open>The member walk\<close>

definition member_request ::
  "'t \<Rightarrow> ustr \<Rightarrow> ustr option \<Rightarrow> play_surface option \<Rightarrow> ustr \<times> ustr \<Rightarrow> 't play_request" where
  "member_request now i tr sf m =
     \<lparr>rq_provider = fst m, rq_external = snd m, rq_translation = tr, rq_item = i, rq_surface = sf,
      rq_tracker_time = now, rq_fault_time = now\<rparr>"

definition ends_walk :: "'s play_attempt \<Rightarrow> bool" where
  "ends_walk a \<longleftrightarrow> (case pa_code a of None \<Rightarrow> False | Some c \<Rightarrow> c \<notin> set walkable_verdict_codes)"

fun play_walk ::
  "'s registry \<Rightarrow> 't play_request list \<Rightarrow> 't play_state \<Rightarrow> 's option \<times> 't play_state" where
  "play_walk reg [] ps = (None, ps)"
| "play_walk reg (rq # rqs) ps =
     (let (a, ps1) = attempt_play reg (\<lambda>c. c) rq ps in
      case pa_stream a of
        Some s \<Rightarrow> (Some s, ps1)
      | None \<Rightarrow> if ends_walk a then (None, ps1) else play_walk reg rqs ps1)"

definition walk_members ::
  "('p, 'w, 't) upstream \<Rightarrow> 's registry \<Rightarrow> ustr \<Rightarrow> ustr option \<Rightarrow> play_surface option \<Rightarrow> (ustr \<times> ustr) list \<Rightarrow>
   ('p, 'w, 't) stage \<Rightarrow> 's option \<times> ('p, 'w, 't) stage" where
  "walk_members E reg i tr sf as s =
     (let (r, ps) = play_walk reg (map (member_request (wall E (world (sg_desk s))) i tr sf) as) (to_play s)
      in (r, from_play s ps))"

text \<open>
  The refusal a group key meets that has nothing to play: attested under the group's first provider.
\<close>

definition refuse_group ::
  "ucd \<Rightarrow> ('p, 'w, 't) upstream \<Rightarrow> 's registry \<Rightarrow> ustr \<Rightarrow> ustr \<Rightarrow> play_surface option \<Rightarrow> ('p, 'w, 't) stage \<Rightarrow>
   (wire_error + 's option) \<times> ('p, 'w, 't) stage" where
  "refuse_group U E reg k i sf s =
     (case provider_for_item U E reg k s of
        (Inl e, s1) \<Rightarrow> (Inl e, s1)
      | (Inr p, s1) \<Rightarrow> (Inr None, stage_refuse E p i sf s1))"

definition play_movie ::
  "('p, 'w, 't) upstream \<Rightarrow> 's registry \<Rightarrow> ustr \<Rightarrow> ustr \<Rightarrow> ustr option \<Rightarrow> play_surface option \<Rightarrow> ('p, 'w, 't) stage \<Rightarrow>
   's option \<times> ('p, 'w, 't) stage" where
  "play_movie E reg k i tr sf s =
     (let (r, s1) = stage_resolve E k s; ss = (case r of None \<Rightarrow> [] | Some g \<Rightarrow> gr_sources g) in
      if ss = [] then (None, stage_refuse E None i sf s1)
      else
        (let (lead, d) = group_content_member E k (sg_desk s1); s2 = s1\<lparr>sg_desk := d\<rparr>;
             as = member_attempts (\<lambda>p. reg p \<noteq> None) ss lead True in
         if as = [] then (None, stage_refuse E None i sf s2)
         else walk_members E reg i tr sf as s2))"

definition resolve_stream ::
  "ucd \<Rightarrow> ('p, 'w, 't) upstream \<Rightarrow> 's registry \<Rightarrow> ustr \<Rightarrow> ustr option \<Rightarrow> play_surface option \<Rightarrow> ('p, 'w, 't) stage \<Rightarrow>
   (wire_error + 's option) \<times> ('p, 'w, 't) stage" where
  "resolve_stream U E reg i tr sf s =
     (if is_group_key i then
        (case split_season_key U i of
           Inl e \<Rightarrow> (Inl e, s)
         | Inr (k, Some n) \<Rightarrow> refuse_group U E reg k i sf s
         | Inr (k, None) \<Rightarrow>
             (let (page, d) = resolve_group_content E k (sg_desk s); s1 = s\<lparr>sg_desk := d\<rparr> in
              if (case page of None \<Rightarrow> True | Some pg \<Rightarrow> pg_form pg \<noteq> Movie) then refuse_group U E reg k i sf s1
              else (let (r, s2) = play_movie E reg k i tr sf s1 in (Inr r, s2))))
      else
        (case playable_target reg i of
           None \<Rightarrow> (Inr None, stage_refuse E None i sf s)
         | Some m \<Rightarrow> (let (r, s1) = walk_members E reg i tr sf [m] s in (Inr r, s1))))"

section \<open>The picked translation\<close>

definition translation_source_id :: "ustr \<Rightarrow> ustr \<Rightarrow> ustr" where
  "translation_source_id i t = i @ u ''::'' @ t"

text \<open>\<^verbatim>\<open>s.rpartition("::")\<close> of a string that contains the separator.\<close>

fun partition_pair :: "ustr \<Rightarrow> (ustr \<times> ustr) option" where
  "partition_pair (a # b # s) =
     (if a = 58 \<and> b = 58 then Some ([], s) else map_option (\<lambda>(x, y). (a # x, y)) (partition_pair (b # s)))"
| "partition_pair _ = None"

definition rpartition_pair :: "ustr \<Rightarrow> (ustr \<times> ustr) option" where
  "rpartition_pair s = map_option (\<lambda>(x, y). (rev y, rev x)) (partition_pair (rev s))"

definition decode_translation_source :: "ustr \<Rightarrow> (ustr \<times> ustr) option" where
  "decode_translation_source s =
     (case rpartition_pair s of
        None \<Rightarrow> None
      | Some (i, t) \<Rightarrow> if i = [] \<or> t = [] then None else Some (i, t))"

section \<open>What a walk leaves\<close>

text \<open>
  The members a walk asks: up to the first that serves or whose refusal no member can repair.
\<close>

definition walk_stops :: "'s registry \<Rightarrow> 't play_request \<Rightarrow> bool" where
  "walk_stops reg rq \<longleftrightarrow> served (answer reg rq) \<or> ends_walk (answer reg rq)"

fun asked :: "'s registry \<Rightarrow> 't play_request list \<Rightarrow> 't play_request list" where
  "asked reg [] = []"
| "asked reg (rq # rqs) = rq # (if walk_stops reg rq then [] else asked reg rqs)"

lemma asked_nonempty [simp]: "asked reg rqs = [] \<longleftrightarrow> rqs = []"
  by (cases rqs) simp_all

lemma play_walk_run:
  "snd (play_walk reg rqs ps) = play_run reg (\<lambda>c. c) (asked reg rqs) ps \<and>
   fst (play_walk reg rqs ps) = (if rqs = [] then None else pa_stream (answer reg (last (asked reg rqs))))"
proof (induction rqs arbitrary: ps)
  case (Cons rq rqs)
  obtain a ps1 where a: "attempt_play reg (\<lambda>c. c) rq ps = (a, ps1)" by force
  have an: "a = answer reg rq" using attempt_answer [of reg "\<lambda>c. c" rq ps] a by simp
  have run: "play_run reg (\<lambda>c. c) (rq # qs) ps = play_run reg (\<lambda>c. c) qs ps1" for qs
    by (simp add: play_run_def a)
  have stop: "walk_stops reg rq \<longleftrightarrow> pa_stream a \<noteq> None \<or> ends_walk a" by (simp add: walk_stops_def served_def an)
  have nil: "play_run reg (\<lambda>c. c) [] ps1 = ps1" by (simp add: play_run_def)
  show ?case
    using Cons.IH [of ps1] stop by (cases "pa_stream a") (auto simp: a run nil an [symmetric])
qed (simp add: play_run_def)

lemma asked_prefix: "\<exists>rest. rqs = asked reg rqs @ rest"
  by (induction rqs) auto

lemma length_asked: "length (asked reg rqs) \<le> length rqs"
  using asked_prefix [of rqs reg] by (metis length_append le_add1)

lemma asked_butlast: "list_all (\<lambda>rq. \<not> walk_stops reg rq) (butlast (asked reg rqs))"
  by (induction rqs) auto

text \<open>One event for each request of a walk on a surface; the last says whether it was served.\<close>

lemma attempt_events_single:
  "rq_surface rq = Some sf \<Longrightarrow> attempt_events reg rc rq =
     [if served (answer reg rq) then Ev_served (pa_provider (answer reg rq))
      else Ev_refused (rq_fault_time rq) (pa_provider (answer reg rq)) (rq_item rq) (rc (pa_code (answer reg rq))) sf]"
  by (simp add: attempt_events_def Let_def)

lemma concat_singles: "\<forall>x \<in> set xs. f x = [g x] \<Longrightarrow> concat (map f xs) = map g xs"
  by (induction xs) simp_all

definition walk_event :: "'s registry \<Rightarrow> play_surface \<Rightarrow> 't play_request \<Rightarrow> 't play_event" where
  "walk_event reg sf rq =
     (if served (answer reg rq) then Ev_served (pa_provider (answer reg rq))
      else Ev_refused (rq_fault_time rq) (pa_provider (answer reg rq)) (rq_item rq) (pa_code (answer reg rq)) sf)"

lemma play_walk_events:
  assumes "\<forall>rq \<in> set rqs. rq_surface rq = Some sf"
  shows "attest (snd (play_walk reg rqs ps)) = record_events (map (walk_event reg sf) (asked reg rqs)) (attest ps)"
proof -
  obtain rest where "rqs = asked reg rqs @ rest" using asked_prefix by blast
  then have "set (asked reg rqs) \<subseteq> set rqs" by (metis set_append Un_upper1)
  then have "\<forall>rq \<in> set (asked reg rqs). attempt_events reg (\<lambda>c. c) rq = [walk_event reg sf rq]"
    using assms by (auto simp: attempt_events_single walk_event_def)
  from concat_singles [OF this] show ?thesis
    using play_walk_run [of reg rqs ps] by (simp add: play_run_attest)
qed

section \<open>Every press is attested\<close>

definition one_outcome :: "'t attestation \<Rightarrow> 't attestation \<Rightarrow> bool \<Rightarrow> bool" where
  "one_outcome a a' ok \<longleftrightarrow>
     (\<exists>es. a' = record_events es a \<and> es \<noteq> [] \<and> length es \<le> max_member_attempts \<and>
       list_all (\<lambda>e. \<not> is_served e) (butlast es) \<and> is_served (last es) = ok)"

lemma one_refusal: "one_outcome a (att_refused now p i c sf a) False"
  unfolding one_outcome_def
  by (intro exI [of _ "[Ev_refused now p i c sf]"]) (simp add: record_events_def max_member_attempts_def)

lemma sg_attest_from_play [simp]: "sg_attest (from_play s ps) = attest ps"
  by (simp add: from_play_def)

lemma sg_attest_resolve [simp]: "sg_attest (snd (stage_resolve E k s)) = sg_attest s"
  by (simp add: stage_resolve_def case_prod_beta)

lemma stage_refuse_outcome:
  assumes "sg_attest s1 = sg_attest s"
  shows "one_outcome (sg_attest s) (sg_attest (stage_refuse E p i (Some sf) s1)) False"
  using one_refusal by (simp add: stage_refuse_def attest_refusal_def to_play_def assms)

lemma walk_members_outcome:
  assumes "as \<noteq> []" and "length as \<le> max_member_attempts" and "sg_attest s1 = sg_attest s"
  shows "one_outcome (sg_attest s) (sg_attest (snd (walk_members E reg i tr (Some sf) as s1)))
    (fst (walk_members E reg i tr (Some sf) as s1) \<noteq> None)"
proof -
  let ?rqs = "map (member_request (wall E (world (sg_desk s1))) i tr (Some sf)) as"
  let ?es = "map (walk_event reg sf) (asked reg ?rqs)"
  have "attest (snd (play_walk reg ?rqs (to_play s1))) = record_events ?es (attest (to_play s1))"
    by (rule play_walk_events) (auto simp: member_request_def)
  then have a: "sg_attest (snd (walk_members E reg i tr (Some sf) as s1)) = record_events ?es (sg_attest s)"
    using assms(3) by (simp add: walk_members_def case_prod_beta to_play_def)
  have ne: "asked reg ?rqs \<noteq> []" using assms(1) by simp
  have len: "length ?es \<le> max_member_attempts" using length_asked [of reg ?rqs] assms(2) by simp
  have "list_all (\<lambda>e. \<not> is_served e) (butlast ?es)"
    using asked_butlast [of reg ?rqs]
    by (auto simp: map_butlast [symmetric] list_all_iff walk_event_def walk_stops_def)
  moreover have "is_served (last ?es) = (fst (walk_members E reg i tr (Some sf) as s1) \<noteq> None)"
    using play_walk_run [of reg ?rqs "to_play s1"] ne assms(1)
    by (simp add: last_map walk_event_def walk_members_def case_prod_beta served_def)
  ultimately show ?thesis unfolding one_outcome_def using a ne len by blast
qed

lemma refuse_group_outcome:
  assumes "refuse_group U E reg k i (Some sf) s1 = (Inr r, s')" and "sg_attest s1 = sg_attest s"
  shows "r = None \<and> one_outcome (sg_attest s) (sg_attest s') False"
proof -
  have same: "sg_attest (snd (provider_for_item U E reg k s1)) = sg_attest s"
    using assms(2) by (auto simp: provider_for_item_def case_prod_beta Let_def split: sum.splits)
  obtain p s2 where p: "provider_for_item U E reg k s1 = (Inr p, s2)"
    using assms(1) by (auto simp: refuse_group_def split: prod.splits sum.splits)
  then show ?thesis using assms(1) same stage_refuse_outcome [of s2 s] by (auto simp: refuse_group_def)
qed

lemma play_movie_outcome:
  assumes "sg_attest s1 = sg_attest s"
  shows "one_outcome (sg_attest s) (sg_attest (snd (play_movie E reg k i tr (Some sf) s1)))
    (fst (play_movie E reg k i tr (Some sf) s1) \<noteq> None)"
proof -
  obtain r s2 where r: "stage_resolve E k s1 = (r, s2)" by force
  have s2: "sg_attest s2 = sg_attest s" using sg_attest_resolve [of E k s1] r assms by simp
  let ?ss = "case r of None \<Rightarrow> [] | Some g \<Rightarrow> gr_sources g"
  obtain lead d where l: "group_content_member E k (sg_desk s2) = (lead, d)" by force
  let ?as = "member_attempts (\<lambda>p. reg p \<noteq> None) ?ss lead True"
  have m: "play_movie E reg k i tr (Some sf) s1 =
      (if ?ss = [] then (None, stage_refuse E None i (Some sf) s2)
       else if ?as = [] then (None, stage_refuse E None i (Some sf) (s2\<lparr>sg_desk := d\<rparr>))
       else walk_members E reg i tr (Some sf) ?as (s2\<lparr>sg_desk := d\<rparr>))"
    by (simp add: play_movie_def r l)
  show ?thesis
    using stage_refuse_outcome [of s2 s] stage_refuse_outcome [of "s2\<lparr>sg_desk := d\<rparr>" s]
      walk_members_outcome [OF _ member_attempts_length, of "\<lambda>p. reg p \<noteq> None" ?ss lead True "s2\<lparr>sg_desk := d\<rparr>" s E reg i tr sf] s2
    unfolding m by auto
qed


section \<open>Where a stream comes from\<close>

lemma play_walk_source:
  "fst (play_walk reg rqs ps) = Some x \<Longrightarrow>
   \<exists>rq pv. rq \<in> set rqs \<and> reg (rq_provider rq) = Some pv \<and> stream_of pv (rq_external rq) (rq_translation rq) = Streamed x \<and>
     translation_error pv (rq_external rq) (rq_translation rq) = None"
proof (induction rqs arbitrary: ps)
  case (Cons rq rqs)
  obtain a ps1 where a: "attempt_play reg (\<lambda>c. c) rq ps = (a, ps1)" by force
  have an: "a = answer reg rq" using attempt_answer [of reg "\<lambda>c. c" rq ps] a by simp
  show ?case
  proof (cases "pa_stream a")
    case None
    then have "fst (play_walk reg rqs ps1) = Some x" using Cons.prems a by (auto split: if_splits)
    from Cons.IH [OF this] show ?thesis by auto
  next
    case (Some y)
    then have "answer reg rq = a" "y = x" using Cons.prems a an by simp_all
    then have "pa_stream (answer reg rq) = Some x" using Some by simp
    then obtain pv where "reg (rq_provider rq) = Some pv" "stream_of pv (rq_external rq) (rq_translation rq) = Streamed x"
      "translation_error pv (rq_external rq) (rq_translation rq) = None"
      by (auto simp: answer_def split: option.splits stream_answer.splits)
    then show ?thesis by auto
  qed
qed simp

lemma walk_members_source:
  assumes "fst (walk_members E reg i tr sf as s) = Some x"
  shows "\<exists>p e pv. (p, e) \<in> set as \<and> reg p = Some pv \<and> stream_of pv e tr = Streamed x \<and> translation_error pv e tr = None"
proof -
  have "fst (play_walk reg (map (member_request (wall E (world (sg_desk s))) i tr sf) as) (to_play s)) = Some x"
    using assms by (simp add: walk_members_def case_prod_beta)
  from play_walk_source [OF this] show ?thesis by (force simp: member_request_def)
qed


section \<open>The picked translation comes back\<close>

lemma partition_pair_app: "58 \<notin> set xs \<Longrightarrow> partition_pair (xs @ 58 # 58 # ys) = Some (xs, ys)"
proof (induction xs)
  case (Cons a xs)
  then show ?case by (cases xs) auto
qed simp

text \<open>The source id of a translation that the client is given decodes to the item and the translation it was
  made of, whatever colons the item id holds.\<close>

theorem translation_source_roundtrip:
  assumes "58 \<notin> set t" and "t \<noteq> []" and "i \<noteq> []"
  shows "decode_translation_source (translation_source_id i t) = Some (i, t)"
proof -
  have "rev (translation_source_id i t) = rev t @ 58 # 58 # rev i" by (simp add: translation_source_id_def u_def)
  then have "rpartition_pair (translation_source_id i t) = Some (i, t)"
    using partition_pair_app [of "rev t" "rev i"] assms(1) by (simp add: rpartition_pair_def)
  then show ?thesis using assms(2,3) by (simp add: decode_translation_source_def)
qed

section \<open>A film whose first member is dead\<close>

definition film_registry :: "unit registry" where
  "film_registry p =
     (if p = u ''a'' then Some \<lparr>episode_translations = (\<lambda>_. Not_applicable), stream_of = (\<lambda>e t. Provider_error (u ''timeout'') False)\<rparr>
      else if p = u ''b'' then Some \<lparr>episode_translations = (\<lambda>_. Allowed [u ''5'']), stream_of = (\<lambda>e t. Streamed ())\<rparr>
      else None)"

definition sample_stage :: "(unit, nat, nat) stage" where
  "sample_stage = \<lparr>sg_desk = sample_desk sample_cards, sg_attest = new_attestation 20, sg_calls = []\<rparr>"

definition sample_press :: "(wire_error + unit option) \<times> (unit, nat, nat) stage" where
  "sample_press =
     resolve_stream ua_ucd (sample_env Suc) film_registry (u ''g2:x'') (Some (u ''5'')) (Some S_stream) sample_stage"

lemma sample_press_plays: "fst sample_press = Inr (Some ())"
  by code_simp

lemma sample_press_eq:
  "resolve_stream ua_ucd (sample_env Suc) film_registry (u ''g2:x'') (Some (u ''5'')) (Some S_stream) sample_stage =
     (Inr (Some ()), snd sample_press)"
  using sample_press_plays by (simp add: sample_press_def prod_eq_iff)



theorem translation_source_roundtrip_witness:
  "decode_translation_source (translation_source_id (u ''ufdub:x:s1e1'') (u ''5'')) = Some (u ''ufdub:x:s1e1'', u ''5'')"
  by (rule translation_source_roundtrip) code_simp+

end
