(* ===== verification/Kin.thy ===== *)
theory Kin
  imports Merge
begin

text \<open>
  The titles behind a group key, whatever list of items they are merged in: the items that a merge puts
  together with an item (\<open>kin\<close>), that a merged group is the whole kin of each of its members, and that
  items of one key have their providers in common.  The home build, which merges the same listings several
  times, rests on it.
\<close>

section \<open>The titles behind a group key\<close>

text \<open>The members of \<open>X\<close> that the merge of any list with these items puts together with \<open>a\<close>.\<close>

definition kin :: "ucd \<Rightarrow> search_result set \<Rightarrow> search_result \<Rightarrow> search_result set" where
  "kin U X a = {b. (a, b) \<in> {(x, y). x \<in> X \<and> y \<in> X \<and> same_title U x y}\<^sup>*}"

lemma same_title_sym: "same_title U a b \<Longrightarrow> same_title U b a"
  by (auto simp: same_title_def years_match_sym)

lemma kin_refl [simp]: "a \<in> kin U X a"
  by (simp add: kin_def)

lemma kin_mono: "X \<subseteq> Y \<Longrightarrow> kin U X a \<subseteq> kin U Y a"
  unfolding kin_def by (rule Collect_mono) (auto elim!: rtrancl_mono [THEN subsetD, rotated])

lemma kin_sym: "b \<in> kin U X a \<Longrightarrow> a \<in> kin U X b"
proof -
  have "sym {(x, y). x \<in> X \<and> y \<in> X \<and> same_title U x y}" by (auto intro: symI same_title_sym)
  then show "b \<in> kin U X a \<Longrightarrow> a \<in> kin U X b" unfolding kin_def by (auto dest: sym_rtrancl intro: symD)
qed

lemma kin_trans: "b \<in> kin U X a \<Longrightarrow> c \<in> kin U X b \<Longrightarrow> c \<in> kin U X a"
  unfolding kin_def by auto

lemma kin_eq: "b \<in> kin U X a \<Longrightarrow> kin U X b = kin U X a"
  using kin_sym kin_trans by blast

lemma kin_step: "a \<in> X \<Longrightarrow> b \<in> X \<Longrightarrow> same_title U a b \<Longrightarrow> kin U X a = kin U X b"
  by (rule kin_eq [symmetric]) (auto simp: kin_def)

lemma kin_lonely: "(\<And>b. \<not> same_title U a b) \<Longrightarrow> kin U X a = {a}"
  by (auto simp: kin_def elim: converse_rtranclE)

text \<open>A merged group is the whole kin of each of its members.\<close>

lemma conn_kin:
  assumes "(i, j) \<in> conn (matches U items)"
  shows "i < length items \<Longrightarrow> items ! j \<in> kin U (set items) (items ! i)"
proof -
  have "(i, j) \<in> (matches U items \<union> (matches U items)\<inverse>)\<^sup>*" using assms by (simp add: conn_def)
  then show "i < length items \<Longrightarrow> items ! j \<in> kin U (set items) (items ! i)"
  proof (induction rule: rtrancl_induct)
    case (step j k)
    then have "items ! k \<in> kin U (set items) (items ! j)"
      by (auto simp: kin_def matches_def intro: same_title_sym)
    with step show ?case by (blast intro: kin_trans)
  qed simp
qed

lemma group_kin:
  assumes "g \<in> set (merge_groups U items)" and "a \<in> set (sources g)"
  shows "set (sources g) = kin U (set items) a"
proof -
  obtain bs where bs: "merge_groups U items = map (group_of U items) bs"
    "good_partition (length items) (matches U items) bs" using merge_groups_run by blast
  then obtain b where b: "b \<in> set bs" "g = group_of U items b" using assms(1) by auto
  have src: "set (sources g) = (!) items ` set b" by (simp add: b(2) group_of_def Let_def)
  have blk: "set b \<subseteq> {..<length items}" using bs(2) b(1) by (auto simp: good_partition_def)
  have part: "\<And>i j. i < length items \<Longrightarrow> j < length items \<Longrightarrow>
      (\<exists>b \<in> set bs. i \<in> set b \<and> j \<in> set b) \<longleftrightarrow> (i, j) \<in> conn (matches U items)"
    using bs(2) by (simp add: good_partition_def)
  have only: "b' = b" if "b' \<in> set bs" "i \<in> set b'" "i \<in> set b" for b' i
    using bs(2) b(1) that by (auto simp: good_partition_def distinct_concat_iff)
  obtain i where i: "i \<in> set b" "a = items ! i" using assms(2) src by auto
  have "set (sources g) \<subseteq> kin U (set items) a"
    unfolding src i(2) using conn_kin [of i _ U items] part blk b(1) i(1) by blast
  moreover have "kin U (set items) a \<subseteq> set (sources g)"
  proof
    fix x assume "x \<in> kin U (set items) a"
    then have "(a, x) \<in> {(x, y). x \<in> set items \<and> y \<in> set items \<and> same_title U x y}\<^sup>*" by (simp add: kin_def)
    then show "x \<in> set (sources g)"
    proof (induction rule: rtrancl_induct)
      case (step y z)
      then obtain j where j: "j \<in> set b" "y = items ! j" by (auto simp: src)
      obtain k where k: "k < length items" "z = items ! k" using step.hyps(2) by (auto simp: in_set_conv_nth)
      have "(j, k) \<in> matches U items" using step.hyps(2) j k blk by (auto simp: matches_def)
      then obtain b' where "b' \<in> set bs" "j \<in> set b'" "k \<in> set b'"
        using part [of j k] conn_edge [of j k] j(1) k(1) blk by blast
      with only j(1) k(2) show ?case by (auto simp: src)
    qed (rule assms(2))
  qed
  ultimately show ?thesis by blast
qed

lemma some_group:
  assumes "a \<in> set items"
  shows "\<exists>g \<in> set (merge_groups U items). a \<in> set (sources g)"
proof -
  obtain bs where bs: "merge_groups U items = map (group_of U items) bs"
    "good_partition (length items) (matches U items) bs" using merge_groups_run by blast
  obtain i where i: "i < length items" "a = items ! i" using assms by (auto simp: in_set_conv_nth)
  then have "i \<in> set (concat bs)" using bs(2) by (simp add: good_partition_def)
  then obtain b where "b \<in> set bs" "i \<in> set b" by auto
  then show ?thesis using bs(1) i(2) by (auto simp: group_of_def Let_def)
qed

text \<open>Items of one key are one title, when the digest separates the items at hand; only those without any
  alias need the id, which names the provider.\<close>

definition keys_separate :: "ucd \<Rightarrow> search_result list \<Rightarrow> bool" where
  "keys_separate U its \<longleftrightarrow>
     inj_on key_digest {item_key_text U it |it. it \<in> set its \<and> valid_imdb U it = None} \<and>
     list_all (\<lambda>s. provider s = fst (split_wire_id (sr_id s))) its"

lemma same_key_kin:
  assumes ok: "ucd_ok U" and sep: "keys_separate U its" and ab: "a \<in> set its" "b \<in> set its"
    and eq: "item_group_key U a = item_group_key U b"
  shows "provider ` kin U (set its) a = provider ` kin U (set its) b"
proof (cases "same_title U a b")
  case True
  then show ?thesis using kin_step [OF ab] by simp
next
  case False
  have None: "valid_imdb U a = None" "valid_imdb U b = None"
    using eq False item_group_key_imdb [of U a] item_group_key_imdb [of U b] item_group_key_text [of U a] item_group_key_text [of U b]
    by (cases "valid_imdb U a"; cases "valid_imdb U b";
      force simp: same_title_def group_key_prefix_def group_key_prefix_g3_def u_def)+
  have "item_key_text U a = item_key_text U b"
    by (rule inj_onD [OF sep [unfolded keys_separate_def, THEN conjunct1]])
      (use eq None ab item_group_key_text in auto)
  from item_key_text_match [OF ok this] False
  have bare: "title_aliases U (title a) = []" "title_aliases U (title b) = []" "sr_id a = sr_id b" by auto
  then have "kin U (set its) a = {a}" "kin U (set its) b = {b}"
    using None by (auto intro!: kin_lonely simp: same_title_def)
  then show ?thesis using sep ab bare(3) by (simp add: keys_separate_def list_all_iff)
qed

end
