(* ===== verification/Snapshot.thy ===== *)
theory Snapshot
  imports Resolution Resume_Store Kin
begin

text \<open>
  The home build and the deep rows, \<^verbatim>\<open>backend/cs_uk_api/_catalog_state/snapshot.py\<close>: the fan-out over the
  providers' listings, the gate sweep, the rows with the map that resolves their cards, and the extension
  of a row past the snapshot.

  A fan-out is a list of its finished tasks in the order of their effects, each with what the provider
  answered: a task that the overall budget cuts off is not in the list.  The sweeps of the listings run one
  after another, those inside the gate budget first.  The rows of \<^verbatim>\<open>recommend.py\<close> are an argument.
\<close>

section \<open>The providers' listings\<close>

record site =
  st_newest :: "ustr option"
  st_sections :: "browse_section list"

type_synonym sites = "(ustr, site) pdict"

definition has_section :: "site \<Rightarrow> ustr \<Rightarrow> bool" where
  "has_section s i = list_ex (\<lambda>sec. sec_id sec = i) (st_sections s)"

text \<open>A \<^verbatim>\<open>ProviderError\<close> with its code, or any other exception.\<close>

datatype browse_answer = Listed "search_result list" | Browse_refused ustr | Browse_broken

datatype build_task = Newest_task ustr ustr | Popular_task ustr ustr | Type_task ustr ustr ustr

definition site_tasks :: "ustr \<times> site \<Rightarrow> build_task list" where
  "site_tasks ps =
     (case ps of (p, s) \<Rightarrow>
        (case st_newest s of None \<Rightarrow> [] | Some i \<Rightarrow> if i = [] then [] else [Newest_task p i]) @
        (if p = u ''animeon'' \<and> has_section s (u ''popular'') then [Popular_task p (u ''popular'')] else []) @
        List.map_filter (\<lambda>sec. map_option (Type_task p (sec_id sec)) (section_row_type sec)) (st_sections s))"

definition build_tasks :: "sites \<Rightarrow> build_task list" where
  "build_tasks sites = concat (map site_tasks sites)"

text \<open>The three dictionaries the tasks fill.\<close>

record gathered =
  ga_newest :: listings
  ga_popular :: listings
  ga_types :: typed_listings

fun task_provider :: "build_task \<Rightarrow> ustr" where
  "task_provider (Newest_task p i) = p"
| "task_provider (Popular_task p i) = p"
| "task_provider (Type_task p i k) = p"

definition look_up :: "'k \<Rightarrow> ('k, 'v list) pdict \<Rightarrow> 'v list" where
  "look_up k d = (case dget d k of None \<Rightarrow> [] | Some l \<Rightarrow> l)"

fun put_listing :: "build_task \<Rightarrow> search_result list \<Rightarrow> gathered \<Rightarrow> gathered" where
  "put_listing (Newest_task p i) l g = g\<lparr>ga_newest := dset p l (ga_newest g)\<rparr>"
| "put_listing (Popular_task p i) l g = g\<lparr>ga_popular := dset p l (ga_popular g)\<rparr>"
| "put_listing (Type_task p i k) l g =
     (let per = look_up k (ga_types g) in
      g\<lparr>ga_types := dset k (dset p (look_up p per @ l) per) (ga_types g)\<rparr>)"

definition verdict_code :: "browse_answer \<Rightarrow> ustr option" where
  "verdict_code a = (case a of Browse_refused c \<Rightarrow> Some c | _ \<Rightarrow> None)"

fun finish_task :: "gathered \<times> 't tracker \<Rightarrow> 't \<times> build_task \<times> browse_answer \<Rightarrow> gathered \<times> 't tracker" where
  "finish_task (g, h) (now, k, a) =
     (case a of
        Listed l \<Rightarrow> (if l = [] then g else put_listing k l g, record_outcome now (task_provider k) True h)
      | _ \<Rightarrow> (g, record_verdict now (task_provider k) (verdict_code a) h))"

definition fan_out :: "('t \<times> build_task \<times> browse_answer) list \<Rightarrow> 't tracker \<Rightarrow> gathered \<times> 't tracker" where
  "fan_out done h = foldl finish_task (\<lparr>ga_newest = [], ga_popular = [], ga_types = []\<rparr>, h) done"

section \<open>The gate sweep\<close>

datatype place = In_newest ustr | In_popular ustr | In_type ustr ustr

definition sweepable :: "('p, 'w, 't) upstream \<Rightarrow> sites \<Rightarrow> ustr \<times> search_result list \<Rightarrow> bool" where
  "sweepable E sites pl \<longleftrightarrow> snd pl \<noteq> [] \<and> fst pl \<in> set (dkeys sites) \<and> can_gate E (fst pl)"

definition sweep_places :: "('p, 'w, 't) upstream \<Rightarrow> sites \<Rightarrow> gathered \<Rightarrow> place list" where
  "sweep_places E sites g =
     map (In_newest \<circ> fst) (filter (sweepable E sites) (ga_newest g)) @
     map (In_popular \<circ> fst) (filter (sweepable E sites) (ga_popular g)) @
     concat (map (\<lambda>(k, per). map (In_type k \<circ> fst) (filter (sweepable E sites) per)) (ga_types g))"

fun listing_at :: "place \<Rightarrow> gathered \<Rightarrow> search_result list" where
  "listing_at (In_newest p) g = look_up p (ga_newest g)"
| "listing_at (In_popular p) g = look_up p (ga_popular g)"
| "listing_at (In_type k p) g = look_up p (look_up k (ga_types g))"

fun set_listing :: "place \<Rightarrow> search_result list \<Rightarrow> gathered \<Rightarrow> gathered" where
  "set_listing (In_newest p) l g = g\<lparr>ga_newest := dset p l (ga_newest g)\<rparr>"
| "set_listing (In_popular p) l g = g\<lparr>ga_popular := dset p l (ga_popular g)\<rparr>"
| "set_listing (In_type k p) l g =
     g\<lparr>ga_types := dset k (dset p l (look_up k (ga_types g))) (ga_types g)\<rparr>"

definition sweep_step ::
  "ucd \<Rightarrow> ('p, 'w, 't) upstream \<Rightarrow> gathered \<times> ('p, 'w, 't) desk \<Rightarrow> place \<Rightarrow> gathered \<times> ('p, 'w, 't) desk" where
  "sweep_step U E gs pl =
     (let (l, d) = filter_gated_items U E (listing_at pl (fst gs)) (snd gs) in (set_listing pl l (fst gs), d))"

definition sweep ::
  "ucd \<Rightarrow> ('p, 'w, 't) upstream \<Rightarrow> place list \<Rightarrow> gathered \<Rightarrow> ('p, 'w, 't) desk \<Rightarrow> gathered \<times> ('p, 'w, 't) desk" where
  "sweep U E pls g d = foldl (sweep_step U E) (g, d) pls"

section \<open>The resolution map\<close>

definition add_listing :: "ucd \<Rightarrow> sources_map \<Rightarrow> search_result \<Rightarrow> sources_map" where
  "add_listing U m it =
     (let k = item_group_key U it in
      dset k (snd (dsetdefault (provider it) it (case dget m k of None \<Rightarrow> [] | Some d \<Rightarrow> d))) m)"

definition all_listed :: "gathered \<Rightarrow> search_result list" where
  "all_listed g =
     concat (map snd (ga_newest g)) @ concat (map snd (ga_popular g)) @
     concat (concat (map (\<lambda>(_, per). map snd per) (ga_types g)))"

definition set_union :: "ucd \<Rightarrow> sources_map \<Rightarrow> merge_group \<Rightarrow> sources_map" where
  "set_union U m g =
     (case project_group U g of
        None \<Rightarrow> m
      | Some pr \<Rightarrow> foldl (\<lambda>m k. dset k (provider_union (gp_sources pr)) m) m (gp_member_keys pr))"

definition build_sources_map :: "ucd \<Rightarrow> gathered \<Rightarrow> sources_map" where
  "build_sources_map U g =
     (let its = all_listed g in foldl (set_union U) (foldl (add_listing U) [] its) (merge_groups U its))"

section \<open>The build\<close>

definition watched_group_keys :: "ucd \<Rightarrow> resume \<Rightarrow> sources_map \<Rightarrow> ustr set" where
  "watched_group_keys U r m = set (List.map_filter (\<lambda>i. episode_group_key U i m) (dkeys (positions_entries r)))"

definition history_group_keys :: "ucd \<Rightarrow> resume \<Rightarrow> sources_map \<Rightarrow> ustr list" where
  "history_group_keys U r m = uniq (List.map_filter (\<lambda>i. episode_group_key U i m) (history 20 r))"

text \<open>
  \<^verbatim>\<open>_with_recommendation_rows\<close>: the personal rows, an argument, go after the last recent or popular row, and the
  genre rails to the end.
\<close>

definition insert_point :: "home_row list \<Rightarrow> nat" where
  "insert_point rows =
     foldl (\<lambda>n ir. if hr_type (snd ir) \<in> {u ''recent_movie'', u ''recent_series'', u ''popular''} then fst ir + 1 else n)
       0 (enumerate 0 rows)"

definition with_recommendation_rows ::
  "ucd \<Rightarrow> (home_row list \<Rightarrow> home_row list) \<Rightarrow> genre_profiles \<Rightarrow> home_row list \<Rightarrow> home_row list" where
  "with_recommendation_rows U recommended profiles rows =
     (let extra = recommended rows; n = insert_point rows;
          out = (if extra = [] then rows else take n rows @ extra @ drop n rows)
      in out @ build_genre_rows U (concat (map hr_items out)) profiles 6 3 20)"

record build_settings =
  bs_limit :: int
  bs_hidden :: "ustr set"
  bs_max_pages :: int

definition cache_home ::
  "ucd \<Rightarrow> ('p, 'w, 't) upstream \<Rightarrow> build_settings \<Rightarrow> (home_row list \<Rightarrow> home_row list) \<Rightarrow> genre_profiles \<Rightarrow> resume \<Rightarrow> gathered \<Rightarrow>
   ('p, 'w, 't) desk \<Rightarrow> home_row list \<times> ('p, 'w, 't) desk" where
  "cache_home U E S recommended profiles r g d =
     (let now = monotonic E (world d); (m, c) = current_sources now (owner d);
          rows = with_recommendation_rows U recommended profiles (build_home_rows U (ga_newest g) (ga_popular g) (ga_types g) (bs_limit S)
                   (Some (watched_group_keys U r m)) (Some (history_group_keys U r m)) (bs_hidden S))
      in (rows, d\<lparr>owner := apply_snapshot now rows (Some (build_sources_map U g)) True c\<rparr>))"

text \<open>
  \<^verbatim>\<open>_build_home\<close>: the fan-out ends in the world \<open>w\<close>; the sweeps in \<open>due\<close> end within their budget, and what
  is left is swept by \<^verbatim>\<open>_finish_sweep\<close>, which caches a second time.
\<close>

definition build_home ::
  "ucd \<Rightarrow> ('p, 'w, 't) upstream \<Rightarrow> build_settings \<Rightarrow> (home_row list \<Rightarrow> home_row list) \<Rightarrow> genre_profiles \<Rightarrow> sites \<Rightarrow> resume \<Rightarrow>
   ('t \<times> build_task \<times> browse_answer) list \<Rightarrow> 'w \<Rightarrow> (place \<Rightarrow> bool) \<Rightarrow> ('p, 'w, 't) desk \<Rightarrow>
   (home_row list \<times> gathered \<times> place list) \<times> ('p, 'w, 't) desk" where
  "build_home U E S recommended profiles sites r done w due d =
     (let (g, h) = fan_out done (lanes d);
          pls = sweep_places E sites g;
          (g1, d1) = sweep U E (filter due pls) g (d\<lparr>lanes := h, world := w\<rparr>);
          (rows, d2) = cache_home U E S recommended profiles r g1 d1
      in ((rows, g1, filter (\<lambda>pl. \<not> due pl) pls), d2))"

definition finish_sweep ::
  "ucd \<Rightarrow> ('p, 'w, 't) upstream \<Rightarrow> build_settings \<Rightarrow> (home_row list \<Rightarrow> home_row list) \<Rightarrow> genre_profiles \<Rightarrow> resume \<Rightarrow> gathered \<Rightarrow> place list \<Rightarrow>
   ('p, 'w, 't) desk \<Rightarrow> home_row list \<times> ('p, 'w, 't) desk" where
  "finish_sweep U E S recommended profiles r g pls d =
     (let (g1, d1) = sweep U E pls g d in cache_home U E S recommended profiles r g1 d1)"

text \<open>
  \<^verbatim>\<open>load_home\<close>: the cached rows, else the persisted snapshot, else a build is due.  The flag tells that a
  build is started; \<open>None\<close> is the caller that waits for it.
\<close>

definition load_home ::
  "('p, 'w, 't) upstream \<Rightarrow> (home_row list \<times> sources_map option) option \<Rightarrow> ('p, 'w, 't) desk \<Rightarrow>
   (home_row list option \<times> bool) \<times> ('p, 'w, 't) desk" where
  "load_home E persisted d =
     (let now = monotonic E (world d); (v, cache) = cache_get now home_key (cat_home (owner d));
          c = (owner d)\<lparr>cat_home := cache\<rparr>
      in case v of
           Some rows \<Rightarrow> ((Some rows, False), d\<lparr>owner := c\<rparr>)
         | None \<Rightarrow>
             (case persisted of
                Some (rows, src) \<Rightarrow> ((Some rows, True), d\<lparr>owner := apply_snapshot now rows src False c\<rparr>)
              | None \<Rightarrow> ((None, True), d\<lparr>owner := c\<rparr>)))"

section \<open>Deep rows\<close>

definition recent_row_form :: "ustr \<Rightarrow> media_form option" where
  "recent_row_form k =
     (if k = u ''recent_movie'' then Some Movie else if k = u ''recent_series'' then Some Series else None)"

definition row_is_extendable :: "ustr \<Rightarrow> bool" where
  "row_is_extendable k = (case dget row_kinds k of None \<Rightarrow> False | Some rk \<Rightarrow> rk_extendable rk)"

definition row_sources :: "sites \<Rightarrow> ustr \<Rightarrow> (ustr \<times> ustr) list" where
  "row_sources sites k =
     concat (map (\<lambda>(p, s).
       if recent_row_form k \<noteq> None then (case st_newest s of None \<Rightarrow> [] | Some i \<Rightarrow> [(p, i)])
       else if k = u ''popular'' then (if has_section s (u ''popular'') then [(p, u ''popular'')] else [])
       else [(p, sec_id sec). sec \<leftarrow> st_sections s, section_row_type sec = Some k]) sites)"

definition deep_key :: "ustr \<Rightarrow> ustr" where
  "deep_key k = u ''row-deep:'' @ k"

definition page_key :: "ustr \<times> ustr \<times> int \<Rightarrow> ustr" where
  "page_key t = (case t of (p, i, n) \<Rightarrow> u ''deep:'' @ p @ u '':'' @ i @ u '':'' @ dec_int n)"

definition deep_tasks :: "build_settings \<Rightarrow> sites \<Rightarrow> ustr \<Rightarrow> (ustr \<times> ustr \<times> int) list" where
  "deep_tasks S sites k = [(p, i, n). (p, i) \<leftarrow> row_sources sites k, n \<leftarrow> [2..max (bs_max_pages S) 1]]"

text \<open>
  What one \<^verbatim>\<open>_fetch\<close> leaves: the listings collected so far, the page cache and the tracker.  A finished
  fetch carries its clock readings, its task, and the answer it would get from the provider.
\<close>

record 't deep_run =
  dr_collected :: listings
  dr_pages :: "search_result list ttl_cache"
  dr_lanes :: "'t tracker"

definition keep_page :: "media_form option \<Rightarrow> ustr \<Rightarrow> search_result list \<Rightarrow> listings \<Rightarrow> listings" where
  "keep_page f p l collected =
     (let kept = (case f of None \<Rightarrow> l | Some x \<Rightarrow> filter (\<lambda>s. form s = x) l) in
      if kept = [] then collected else dset p (look_up p collected @ kept) collected)"

fun finish_fetch ::
  "media_form option \<Rightarrow> 't deep_run \<Rightarrow> rat \<times> 't \<times> (ustr \<times> ustr \<times> int) \<times> browse_answer \<Rightarrow> 't deep_run" where
  "finish_fetch f r (now, t, task, a) =
     (let (v, pages) = cache_get now (page_key task) (dr_pages r); r1 = r\<lparr>dr_pages := pages\<rparr> in
      case v of
        Some l \<Rightarrow> r1\<lparr>dr_collected := keep_page f (fst task) l (dr_collected r1)\<rparr>
      | None \<Rightarrow>
          (case a of
             Listed l \<Rightarrow>
               r1\<lparr>dr_lanes := record_outcome t (fst task) True (dr_lanes r1),
                 dr_pages := cache_set now (page_key task) l None (dr_pages r1),
                 dr_collected := keep_page f (fst task) l (dr_collected r1)\<rparr>
           | _ \<Rightarrow> r1\<lparr>dr_lanes := record_verdict t (fst task) (verdict_code a) (dr_lanes r1)\<rparr>))"

definition fetch_pages ::
  "media_form option \<Rightarrow> (rat \<times> 't \<times> (ustr \<times> ustr \<times> int) \<times> browse_answer) list \<Rightarrow> 't deep_run \<Rightarrow> 't deep_run" where
  "fetch_pages f done r = foldl (finish_fetch f) r done"

text \<open>The loop that appends the cards the row does not show yet.\<close>

fun append_new :: "ustr list \<Rightarrow> home_item list \<Rightarrow> home_item list" where
  "append_new seen [] = []"
| "append_new seen (it # rest) =
     (if hi_group_key it \<in> set seen then append_new seen rest
      else it # append_new (hi_group_key it # seen) rest)"

definition extend_row_pool ::
  "ucd \<Rightarrow> ('p, 'w, 't) upstream \<Rightarrow> build_settings \<Rightarrow> sites \<Rightarrow> ustr \<Rightarrow> home_item list \<Rightarrow>
   (rat \<times> 't \<times> (ustr \<times> ustr \<times> int) \<times> browse_answer) list \<Rightarrow> 'w \<Rightarrow> search_result list ttl_cache \<times> ('p, 'w, 't) desk \<Rightarrow>
   home_item list option \<times> search_result list ttl_cache \<times> ('p, 'w, 't) desk" where
  "extend_row_pool U E S sites k shown done w st =
     (case st of (pages, d) \<Rightarrow>
        if \<not> row_is_extendable k \<or> shown = [] then (None, pages, d)
        else
          (let (v, deep) = cache_get (monotonic E (world d)) (deep_key k) (cat_deep (owner d));
               d1 = d\<lparr>owner := (owner d)\<lparr>cat_deep := deep\<rparr>\<rparr>
           in if v \<noteq> None then (v, pages, d1)
              else if deep_tasks S sites k = [] then (None, pages, d1)
              else
                (let r = fetch_pages (recent_row_form k) done \<lparr>dr_collected = [], dr_pages = pages, dr_lanes = lanes d\<rparr>;
                     d2 = d1\<lparr>lanes := dr_lanes r, world := w\<rparr>
                 in if \<not> any_listing (dr_collected r) then (None, dr_pages r, d2)
                    else
                      (let deeper = round_robin_dedup U (dr_collected r)
                             (int (length (concat (map snd (dr_collected r)))));
                           pool = shown @ append_new (map hi_group_key shown) deeper
                       in (Some pool, dr_pages r,
                           d2\<lparr>owner := (owner d2)\<lparr>cat_deep :=
                             cache_set (monotonic E w) (deep_key k) pool None (cat_deep (owner d2))\<rparr>\<rparr>)))))"

section \<open>What the resolution map holds\<close>

lemma keyed_setdefault: "keyed d \<Longrightarrow> keyed (snd (dsetdefault (provider s) s d))"
  by (auto simp: keyed_def dsetdefault_def list_all_iff split: option.splits)

definition group_keys :: "ucd \<Rightarrow> merge_group \<Rightarrow> ustr set" where
  "group_keys U g = item_group_key U ` set (sources g)"

lemma dset_all:
  "dget (foldl (\<lambda>m k. dset k v m) m ks) k = (if k \<in> set ks then Some v else dget m k)"
  by (induction ks arbitrary: m) (auto simp: dget_dset)

lemma project_group_some:
  "sources g \<noteq> [] \<Longrightarrow> \<exists>pr. project_group U g = Some pr \<and> gp_sources pr = sources g \<and> set (gp_member_keys pr) = group_keys U g"
  by (auto simp: project_group_def Let_def group_keys_def simp del: find.simps split: list.splits)

lemma set_union_eq:
  "sources g \<noteq> [] \<Longrightarrow>
   dget (set_union U m g) k = (if k \<in> group_keys U g then Some (provider_union (sources g)) else dget m k)"
  using project_group_some [of g U] by (auto simp: set_union_def dset_all)

lemma union_pass:
  assumes "\<forall>g \<in> set gs. sources g \<noteq> []" and "\<exists>g \<in> set gs. k \<in> group_keys U g"
  shows "\<exists>g \<in> set gs. k \<in> group_keys U g \<and> dget (foldl (set_union U) m gs) k = Some (provider_union (sources g))"
  using assms
proof (induction gs rule: rev_induct)
  case (snoc g gs)
  then show ?case by (cases "k \<in> group_keys U g") (auto simp: set_union_eq)
qed simp

lemma sources_kin:
  assumes "ucd_ok U" and "keys_separate U (all_listed g)" and "a \<in> set (all_listed g)"
  shows "\<exists>d. dget (build_sources_map U g) (item_group_key U a) = Some d \<and> keyed d \<and>
    fst ` set d = provider ` kin U (set (all_listed g)) a"
proof -
  let ?its = "all_listed g"
  have "\<forall>gr \<in> set (merge_groups U ?its). sources gr \<noteq> []" using merge_groups_sources by blast
  moreover have "\<exists>gr \<in> set (merge_groups U ?its). item_group_key U a \<in> group_keys U gr"
    using some_group [OF assms(3), of U] by (auto simp: group_keys_def)
  ultimately obtain gr where gr: "gr \<in> set (merge_groups U ?its)" "item_group_key U a \<in> group_keys U gr"
    "dget (build_sources_map U g) (item_group_key U a) = Some (provider_union (sources gr))"
    using union_pass unfolding build_sources_map_def Let_def by blast
  then obtain b where b: "b \<in> set (sources gr)" "item_group_key U b = item_group_key U a" by (auto simp: group_keys_def)
  have "b \<in> set ?its" using merge_groups_sources [OF gr(1)] b(1) by blast
  from same_key_kin [OF assms(1,2) this assms(3) b(2)] group_kin [OF gr(1) b(1)] gr(3) show ?thesis by simp
qed

lemma keyed_sources: "(k, d) \<in> set (build_sources_map U g) \<Longrightarrow> keyed d"
proof -
  let ?ok = "\<lambda>m :: sources_map. \<forall>(k, d) \<in> set m. keyed d"
  have put: "?ok (dset j x m)" if "?ok m" "keyed x" for j x and m :: sources_map
    using that set_dset [of j x m] by fastforce
  have add: "?ok (add_listing U m it)" if "?ok m" for m it
  proof -
    have "keyed (case dget m (item_group_key U it) of None \<Rightarrow> [] | Some d \<Rightarrow> d)"
      using that by (auto split: option.splits dest: map_of_SomeD)
    then show ?thesis unfolding add_listing_def Let_def by (intro put that keyed_setdefault)
  qed
  have union: "?ok (set_union U m gr)" if "?ok m" for m gr
  proof (cases "project_group U gr")
    case (Some pr)
    have "?ok (foldl (\<lambda>m k. dset k (provider_union (gp_sources pr)) m) m (gp_member_keys pr))"
      by (rule foldl_invariant [where P = ?ok]) (rule that, erule put [OF _ provider_union_ok(2)])
    then show ?thesis by (simp add: set_union_def Some)
  qed (simp add: set_union_def that)
  have "?ok (foldl (add_listing U) [] (all_listed g))"
    by (rule foldl_invariant [where P = ?ok], simp, erule add)
  then have "?ok (build_sources_map U g)"
    unfolding build_sources_map_def Let_def by (rule foldl_invariant [where P = ?ok]) (erule union)
  then show "(k, d) \<in> set (build_sources_map U g) \<Longrightarrow> keyed d" by auto
qed

section \<open>Every card opens\<close>

text \<open>A card opens: every key it carries has a map, all of them with the same providers, its own among them.\<close>

definition card_opens :: "sources_map \<Rightarrow> home_item \<Rightarrow> bool" where
  "card_opens m it \<longleftrightarrow>
     (case dget m (hi_group_key it) of
        None \<Rightarrow> False
      | Some d \<Rightarrow> set (hi_providers it) \<subseteq> fst ` set d \<and>
          list_all (\<lambda>k. case dget m k of None \<Rightarrow> False | Some d' \<Rightarrow> fst ` set d' = fst ` set d) (item_keys it))"

definition rows_open :: "sources_map \<Rightarrow> home_row list \<Rightarrow> bool" where
  "rows_open m rows \<longleftrightarrow> list_all (\<lambda>row. list_all (card_opens m) (hr_items row)) rows"

lemma card_opensI:
  assumes "\<And>k. k = hi_group_key it \<or> k \<in> set (item_keys it) \<Longrightarrow> \<exists>d. dget m k = Some d \<and> fst ` set d = P"
    and "set (hi_providers it) \<subseteq> P"
  shows "card_opens m it"
proof -
  obtain d where d: "dget m (hi_group_key it) = Some d" "fst ` set d = P" using assms(1) by blast
  have "case dget m k of None \<Rightarrow> False | Some d' \<Rightarrow> fst ` set d' = fst ` set d" if "k \<in> set (item_keys it)" for k
    using assms(1) [of k] that d(2) by auto
  then show ?thesis using d assms(2) by (simp add: card_opens_def list_all_iff)
qed

lemma card_opens_keys:
  assumes "card_opens m it" and "k = hi_group_key it \<or> k \<in> set (item_keys it)" and "p \<in> set (hi_providers it)"
  shows "\<exists>d. dget m k = Some d \<and> p \<in> fst ` set d"
proof -
  obtain d where d: "dget m (hi_group_key it) = Some d" "set (hi_providers it) \<subseteq> fst ` set d"
    "\<And>k. k \<in> set (item_keys it) \<Longrightarrow> case dget m k of None \<Rightarrow> False | Some d' \<Rightarrow> fst ` set d' = fst ` set d"
    using assms(1) by (auto simp: card_opens_def list_all_iff split: option.splits)
  show ?thesis
  proof (cases "k = hi_group_key it")
    case False
    then have "k \<in> set (item_keys it)" using assms(2) by simp
    from d(3) [OF this] show ?thesis using d(2) assms(3) by (cases "dget m k") auto
  qed (use d assms(3) in auto)
qed

lemma history_item_opens:
  assumes "ucd_ok U" and "keys_separate U (all_listed g)" and "a \<in> set (all_listed g)"
  shows "card_opens (build_sources_map U g) (history_item U a)"
  by (rule card_opensI [where P = "provider ` kin U (set (all_listed g)) a"])
    (use sources_kin [OF assms] in \<open>auto simp: history_item_def item_keys_def\<close>)

lemma group_opens:
  assumes "ucd_ok U" and "keys_separate U (all_listed g)" and "set col \<subseteq> set (all_listed g)"
    and "gr \<in> set (merge_groups U col)"
  shows "card_opens (build_sources_map U g) (home_item_of U gr)"
proof -
  let ?X = "set (all_listed g)" and ?m = "build_sources_map U g"
  have src: "sources gr \<noteq> []" "set (sources gr) \<subseteq> ?X" using merge_groups_sources [OF assms(4)] assms(3) by blast+
  let ?a = "hd (sources gr)"
  have a: "?a \<in> set (sources gr)" using src(1) by simp
  have sub: "set (sources gr) \<subseteq> kin U ?X ?a"
    using group_kin [OF assms(4) a] kin_mono [OF assms(3), of U ?a] by blast
  have key: "\<exists>d. dget ?m (item_group_key U b) = Some d \<and> fst ` set d = provider ` kin U ?X ?a" if "b \<in> set (sources gr)" for b
    using sources_kin [OF assms(1,2), of b] kin_eq [of b U ?X ?a] that src(2) sub by force
  have "mg_key gr \<in> item_group_key U ` set (sources gr)"
  proof -
    obtain bs where "merge_groups U col = map (group_of U col) bs" using merge_groups_run by blast
    then have "mg_key gr = merge_key U (sources gr)" using assms(4) by (auto simp: group_of_def Let_def)
    then show ?thesis using merge_key_member [OF src(1)] by simp
  qed
  then obtain b where b: "b \<in> set (sources gr)" "mg_key gr = item_group_key U b" by auto
  show ?thesis
  proof (rule card_opensI [where P = "provider ` kin U ?X ?a"])
    fix k assume "k = hi_group_key (home_item_of U gr) \<or> k \<in> set (item_keys (home_item_of U gr))"
    then have "k \<in> item_group_key U ` set (sources gr)"
      using b src(1) by (auto simp: home_item_of_def item_keys_def Let_def)
    then show "\<exists>d. dget ?m k = Some d \<and> fst ` set d = provider ` kin U ?X ?a" using key by auto
  qed (use sub in \<open>auto simp: home_item_of_def Let_def\<close>)
qed

lemma tl_members: "set (tl xs) \<subseteq> set xs"
  by (cases xs) auto

lemma set_add_providers: "set (hi_providers (add_providers ps it)) = set (hi_providers it) \<union> set ps"
proof -
  have "set (foldl (\<lambda>acc p. if p \<notin> set acc then acc @ [p] else acc) acc ps) = set acc \<union> set ps" for acc
    by (induction ps arbitrary: acc) auto
  then show ?thesis by (simp add: add_providers_def)
qed

lemma item_keys_add_providers [simp]: "item_keys (add_providers ps it) = item_keys it"
  by (simp add: item_keys_def add_providers_def)

lemma aggregate_opens:
  assumes "\<forall>it \<in> set its. card_opens m it" and "x \<in> set (aggregate_by_group_key its)"
  shows "card_opens m x"
proof -
  obtain k where k: "k \<in> hi_group_key ` set its" "x = merged_item its k" using assms(2) by (auto simp: aggregate_eq)
  let ?same = "filter (\<lambda>it. hi_group_key it = k) its"
  have ne: "?same \<noteq> []" using k(1) by (auto simp: filter_empty_conv)
  have opens: "card_opens m it \<and> hi_group_key it = k" if "it \<in> set ?same" for it using assms(1) that by auto
  then have h: "card_opens m (hd ?same)" "hi_group_key (hd ?same) = k" using hd_in_set [OF ne] by blast+
  then obtain d where d: "dget m k = Some d" by (auto simp: card_opens_def split: option.splits)
  have "set (hi_providers it) \<subseteq> fst ` set d" if "it \<in> set ?same" for it
    using opens [OF that] d by (auto simp: card_opens_def)
  moreover have "set (tl ?same) \<subseteq> set ?same" by (rule tl_members)
  ultimately have "set (concat (map hi_providers (tl ?same))) \<subseteq> fst ` set d" by (simp only: set_concat set_map) blast
  then show ?thesis
    using h d unfolding k(2) merged_item_def Let_def by (auto simp: card_opens_def set_add_providers)
qed

text \<open>The listings stay dictionaries.\<close>

definition gathered_ok :: "gathered \<Rightarrow> bool" where
  "gathered_ok g \<longleftrightarrow> dwf (ga_newest g) \<and> dwf (ga_popular g) \<and> (\<forall>(k, d) \<in> set (ga_types g). dwf d)"

lemma look_up_ok: "\<forall>(k, d) \<in> set t. dwf d \<Longrightarrow> dwf (look_up k t)"
  by (auto simp: look_up_def dwf_def split: option.splits dest: map_of_SomeD)

lemma types_ok_dset: "(k, d) \<in> set (dset j x t) \<Longrightarrow> \<forall>(k, d) \<in> set t. dwf d \<Longrightarrow> dwf x \<Longrightarrow> dwf d"
  using set_dset [of j x t] by fastforce

lemma put_listing_ok: "gathered_ok g \<Longrightarrow> gathered_ok (put_listing k l g)"
  by (cases k) (auto simp: gathered_ok_def Let_def dest!: types_ok_dset intro!: dwf_dset look_up_ok)

lemma set_listing_ok: "gathered_ok g \<Longrightarrow> gathered_ok (set_listing pl l g)"
  by (cases pl) (auto simp: gathered_ok_def dest!: types_ok_dset intro!: dwf_dset look_up_ok)

lemma fan_out_ok: "gathered_ok (fst (fan_out done h))"
proof -
  have step: "gathered_ok (fst gh) \<Longrightarrow> gathered_ok (fst (finish_task gh e))" for gh :: "gathered \<times> 'a tracker" and e
    by (cases gh; cases e) (auto simp: put_listing_ok split: browse_answer.splits)
  have "gathered_ok (fst gh) \<Longrightarrow> gathered_ok (fst (foldl finish_task gh done))" for gh :: "gathered \<times> 'a tracker"
    by (induction "done" arbitrary: gh) (simp_all only: foldl.simps step)
  from this [of "(\<lparr>ga_newest = [], ga_popular = [], ga_types = []\<rparr>, h)"] show ?thesis
    by (simp add: fan_out_def) (simp add: gathered_ok_def dwf_def)
qed

text \<open>The sweep touches no catalogue.\<close>

lemma known_gate_owner: "owner (snd (known_gate E key st)) = owner st"
  by (auto simp: known_gate_def read_gated_def read_contents_def set_gated_def Let_def split: prod.splits option.splits)

lemma gate_check_owner: "owner (snd (gate_check U E s st)) = owner st"
proof -
  have k: "known_gate E key st = (b, st') \<Longrightarrow> owner st' = owner st" for key st st' b
    using known_gate_owner [of E key st] by simp
  have a: "ask f e st = (x, st') \<Longrightarrow> owner st' = owner st" for f e st x st'
    by (auto simp: ask_def split: prod.splits)
  show ?thesis
    by (auto simp: gate_check_def Let_def set_gated_def set_blocklist_def set_contents_def
        dest!: k a split: prod.splits option.splits content_answer.splits)
qed

lemma filter_gated_owner: "owner (snd (filter_gated_items U E l st)) = owner st"
proof -
  have "owner (snd (gated_ids U E todo st)) = owner st" for todo
  proof (induction todo arbitrary: st)
    case (Cons s ss)
    then show ?case using gate_check_owner [of U E s st] by (auto simp: Let_def split: prod.splits) (metis snd_conv)
  qed simp
  then show ?thesis by (auto simp: filter_gated_items_def Let_def split: prod.splits) (metis snd_conv)
qed

lemma sweep_ok:
  assumes "gathered_ok g"
  shows "gathered_ok (fst (sweep U E pls g d)) \<and> owner (snd (sweep U E pls g d)) = owner d"
  using assms unfolding sweep_def
proof (induction pls arbitrary: g d)
  case (Cons pl pls)
  have "gathered_ok (fst (sweep_step U E (g, d) pl)) \<and> owner (snd (sweep_step U E (g, d) pl)) = owner d"
    using Cons.prems filter_gated_owner [of U E "listing_at pl g" d]
    by (auto simp: sweep_step_def set_listing_ok split: prod.splits)
  with Cons.IH [of "fst (sweep_step U E (g, d) pl)" "snd (sweep_step U E (g, d) pl)"] show ?case by simp
qed simp

section \<open>The rows of a build open\<close>

lemma listed_members:
  "(p, l) \<in> set (ga_newest g) \<Longrightarrow> set l \<subseteq> set (all_listed g)"
  "(p, l) \<in> set (ga_popular g) \<Longrightarrow> set l \<subseteq> set (all_listed g)"
  "(k, d) \<in> set (ga_types g) \<Longrightarrow> (p, l) \<in> set d \<Longrightarrow> set l \<subseteq> set (all_listed g)"
  by (force simp: all_listed_def)+

lemma section_members:
  "(p, l) \<in> set (case dget (ga_types g) k of Some s \<Rightarrow> s | None \<Rightarrow> []) \<Longrightarrow> set l \<subseteq> set (all_listed g)"
  using listed_members(3) [of k _ g p l] by (cases "dget (ga_types g) k") (auto dest: map_of_SomeD)

lemma section_ok: "gathered_ok g \<Longrightarrow> dwf (case dget (ga_types g) k of Some s \<Rightarrow> s | None \<Rightarrow> [])"
  by (auto simp: gathered_ok_def dwf_def split: option.splits dest: map_of_SomeD)

lemma round_robin_opens:
  assumes "ucd_ok U" and "keys_separate U (all_listed g)"
    and "dwf d" and "\<And>p l. (p, l) \<in> set d \<Longrightarrow> set l \<subseteq> set (all_listed g)"
    and "x \<in> set (round_robin_dedup U (filter_listings P d) limit)"
  shows "card_opens (build_sources_map U g) x"
proof -
  obtain gr where gr: "gr \<in> set (merge_groups U (collect (filter_listings P d) limit))" "x = home_item_of U gr"
    using in_set_takeD [OF assms(5) [unfolded round_robin_dedup_def]] by auto
  have "set (collect (filter_listings P d) limit) \<subseteq> set (all_listed g)"
  proof
    fix y assume "y \<in> set (collect (filter_listings P d) limit)"
    then obtain p l where "(p, l) \<in> set (filter_listings P d)" "y \<in> set l"
      using collect_members [of "filter_listings P d" y limit] assms(3) by auto
    then show "y \<in> set (all_listed g)" using assms(4) by (fastforce simp: filter_listings_def)
  qed
  from group_opens [OF assms(1,2) this gr(1)] show ?thesis by (simp add: gr(2))
qed

lemma filter_listings_True: "filter_listings (\<lambda>_. True) d = d"
  by (simp add: filter_listings_def case_prod_beta)

lemma unless_empty_opens:
  "\<forall>it \<in> set its. card_opens m it \<Longrightarrow> row \<in> set (row_unless_empty t k its) \<Longrightarrow> x \<in> set (hr_items row) \<Longrightarrow> card_opens m x"
  using aggregate_opens by (auto simp: row_unless_empty_def split: if_splits)

lemma known_items_members: "dget (known_items U its) k = Some it \<Longrightarrow> it \<in> set its"
proof -
  have "dget (foldl (\<lambda>d it. snd (dsetdefault (item_group_key U it) it d)) d its) k = Some it \<Longrightarrow>
      dget d k = Some it \<or> it \<in> set its" for d
  proof (induction its arbitrary: d)
    case (Cons x its)
    from Cons.IH [OF Cons.prems [simplified]] show ?case
      by (auto simp: dsetdefault_def map_add_Some_iff split: option.splits if_splits)
  qed simp
  from this [of "[]"] show "dget (known_items U its) k = Some it \<Longrightarrow> it \<in> set its" by (simp add: known_items_def)
qed

lemma py_take_members: "set (py_take n xs) \<subseteq> set xs"
  by (auto simp: py_take_def dest: in_set_takeD)

lemma home_rows_open:
  assumes "ucd_ok U" and "keys_separate U (all_listed g)" and "gathered_ok g"
  shows "rows_open (build_sources_map U g)
    (build_home_rows U (ga_newest g) (ga_popular g) (ga_types g) limit watched hist excluded)"
proof -
  let ?m = "build_sources_map U g" and ?opens = "card_opens (build_sources_map U g)"
  note rr = round_robin_opens [OF assms(1,2)]
  have new: "?opens x" if "x \<in> set (round_robin_dedup U (filter_listings P (ga_newest g)) limit)" for P x
    by (rule rr [OF _ listed_members(1) that]) (use assms(3) in \<open>simp_all add: gathered_ok_def\<close>)
  have pop: "?opens x" if "x \<in> set (round_robin_dedup U (ga_popular g) limit)" for x
    by (rule rr [OF _ listed_members(2), where P = "\<lambda>_. True"])
      (use assms(3) that in \<open>simp_all add: gathered_ok_def filter_listings_True\<close>)
  have kind: "?opens x" if "x \<in> set (round_robin_dedup U
      (filter_listings P (case dget (ga_types g) k of Some s \<Rightarrow> s | None \<Rightarrow> [])) limit)" for P k x
    by (rule rr [OF section_ok [OF assms(3)] section_members that])
  have recent: "?opens x" if "row \<in> set (recent_row U (ga_newest g) (ga_types g) limit fk)" "x \<in> set (hr_items row)" for row x fk
  proof -
    obtain f label ty where fk: "fk = (f, label, ty)" by (cases fk)
    let ?row = "round_robin_dedup U (filter_listings (\<lambda>it. form it = f) (ga_newest g)) limit"
    let ?extra = "round_robin_dedup U (filter_listings (admits (form_text f))
      (case dget (ga_types g) (form_text f) of Some s \<Rightarrow> s | None \<Rightarrow> [])) limit"
    let ?all = "if int (length ?row) < limit then top_up limit ?row (hi_group_key ` set ?row) ?extra else ?row"
    have "set ?all \<subseteq> set ?row \<union> set ?extra" using top_up_props [of ?row limit] by auto
    then have "\<forall>it \<in> set ?all. ?opens it" using new kind by blast
    moreover have "row \<in> set (row_unless_empty label ty ?all)" using that(1) by (simp only: recent_row_def fk prod.case Let_def)
    ultimately show ?thesis by (rule unless_empty_opens [OF _ _ that(2)])
  qed
  have episodes: "?opens x" if "row \<in> set (new_episodes_row U (ga_newest g) limit watched)" "x \<in> set (hr_items row)" for row x
    using that new by (auto simp: new_episodes_row_def intro: unless_empty_opens [rotated] split: option.splits)
  have watched: "?opens x" if w: "row \<in> set (recently_watched_row U (ga_newest g) (ga_types g) limit hist)" "x \<in> set (hr_items row)" for row x
  proof -
    obtain ks where ks: "hist = Some ks" using w(1) by (cases hist) (auto simp: recently_watched_row_def)
    let ?known = "known_items U (concat (map snd (ga_newest g) @ concat (map (\<lambda>(_, per). map snd per) (ga_types g))))"
    let ?picked = "py_take limit (List.map_filter (dget ?known) ks)"
    have "it \<in> set (all_listed g)" if "it \<in> set ?picked" for it
    proof -
      have "it \<in> set (List.map_filter (dget ?known) ks)" using that by (rule subsetD [OF py_take_members])
      then obtain k where "dget ?known k = Some it" by (auto simp: set_map_filter_valid)
      from known_items_members [OF this] show ?thesis by (auto simp: all_listed_def)
    qed
    then have "\<forall>it \<in> set (map (history_item U) ?picked). ?opens it" using history_item_opens [OF assms(1,2)] by auto
    moreover have "row \<in> set (row_unless_empty title_recently_watched (u ''recently_watched'') (map (history_item U) ?picked))"
      using w(1) by (simp add: recently_watched_row_def ks Let_def)
    ultimately show ?thesis by (rule unless_empty_opens [OF _ _ w(2)])
  qed
  have popular: "?opens x" if "row \<in> set (popular_row U (ga_popular g) limit)" "x \<in> set (hr_items row)" for row x
    using that pop by (auto simp: popular_row_def intro: aggregate_opens [rotated] split: if_splits)
  have shelf: "?opens x" if "row \<in> set (type_row U (ga_types g) limit k)" "x \<in> set (hr_items row)" for row x k
    using that kind by (auto simp: type_row_def Let_def intro: unless_empty_opens [rotated] split: if_splits)
  show ?thesis
    using recent episodes watched popular shelf
    by (fastforce simp: rows_open_def build_home_rows_def list_all_iff)
qed

lemma genre_row_members:
  assumes "row \<in> set (build_genre_rows U its profiles n m limit)"
  shows "set (hr_items row) \<subseteq> set its"
proof -
  have by_key: "dget (foldl (\<lambda>d it. dset (hi_group_key it) it d) d its) k = Some x \<Longrightarrow> dget d k = Some x \<or> x \<in> set its" for d k x
    by (induction its arbitrary: d) (fastforce simp: dget_dset split: if_splits)+
  have members: "set (genre_members limit profiles d g seen ms xs) \<subseteq> set ms \<union> {x. \<exists>k. dget d k = Some x}" for d g seen ms xs
  proof (induction limit profiles d g seen ms xs rule: genre_members.induct)
    case (2 limit profiles d g seen ms it rest)
    then show ?case by (fastforce split: option.splits if_splits)
  qed simp
  obtain g where "hr_items row = genre_members limit profiles (foldl (\<lambda>d it. dset (hi_group_key it) it d) [] its) g {} [] its"
    using assms by (auto simp: build_genre_rows_def Let_def split: prod.splits)
  then show ?thesis using members [of _ g "{}" "[]" its] by_key [of "[]"] by fastforce
qed

definition shows_home_cards :: "(home_row list \<Rightarrow> home_row list) \<Rightarrow> bool" where
  "shows_home_cards recommended \<longleftrightarrow>
     (\<forall>rows. \<forall>row \<in> set (recommended rows). set (hr_items row) \<subseteq> set (concat (map hr_items rows)))"

lemma with_recommendation_open:
  assumes "rows_open m rows" and "shows_home_cards recommended"
  shows "rows_open m (with_recommendation_rows U recommended profiles rows)"
proof -
  let ?cards = "set (concat (map hr_items rows))"
  define out where "out = (if recommended rows = [] then rows
    else take (insert_point rows) rows @ recommended rows @ drop (insert_point rows) rows)"
  have rows: "set (hr_items row) \<subseteq> ?cards" if "row \<in> set out" for row
    using that assms(2) unfolding shows_home_cards_def
    by (fastforce simp: out_def dest: in_set_takeD in_set_dropD split: if_splits)
  then have "set (concat (map hr_items out)) \<subseteq> ?cards" by auto
  then have "set (hr_items row) \<subseteq> ?cards" if "row \<in> set (with_recommendation_rows U recommended profiles rows)" for row
    using that rows genre_row_members [of row U "concat (map hr_items out)" profiles 6 3 20]
    unfolding with_recommendation_rows_def Let_def out_def [symmetric] by fastforce
  moreover have "card_opens m x" if "x \<in> ?cards" for x using assms(1) that by (auto simp: rows_open_def list_all_iff)
  ultimately show ?thesis unfolding rows_open_def list_all_iff by blast
qed

lemma build_home_open:
  assumes "ucd_ok U" and "shows_home_cards recommended"
    and "build_home U E S recommended profiles sites r done w due d = ((rows, g, late), d')"
    and "keys_separate U (all_listed g)"
  shows "rows_open (build_sources_map U g) rows \<and>
    (\<exists>c. cat_index c = cat_index (owner d) \<and> cat_regs c = cat_regs (owner d) \<and>
      default_ttl_s (cat_sources c) = default_ttl_s (cat_sources (owner d)) \<and>
      owner d' = apply_snapshot (monotonic E (world d')) rows (Some (build_sources_map U g)) True c)"
proof -
  obtain g0 h where f: "fan_out done (lanes d) = (g0, h)" by force
  let ?pls = "filter due (sweep_places E sites g0)" and ?d0 = "d\<lparr>lanes := h, world := w\<rparr>"
  obtain d1 where sw: "sweep U E ?pls g0 ?d0 = (g, d1)"
    and c: "cache_home U E S recommended profiles r g d1 = (rows, d')"
    using assms(3) by (auto simp: build_home_def f Let_def split: prod.splits)
  have "gathered_ok g0" using fan_out_ok [of "done" "lanes d"] by (simp add: f)
  from sweep_ok [OF this, of U E ?pls ?d0] have g: "gathered_ok g" "owner d1 = owner d" by (simp_all add: sw)
  let ?now = "monotonic E (world d1)"
  have "rows_open (build_sources_map U g) rows"
    using c home_rows_open [OF assms(1,4) g(1)] with_recommendation_open [OF _ assms(2)]
    by (auto simp: cache_home_def Let_def split: prod.splits)
  moreover have "owner d' = apply_snapshot ?now rows (Some (build_sources_map U g)) True (snd (current_sources ?now (owner d)))"
    "world d' = world d1"
    using c g(2) by (auto simp: cache_home_def Let_def split: prod.splits)
  ultimately show ?thesis by (auto intro!: exI [of _ "snd (current_sources ?now (owner d))"])
qed

lemma home_card_opens:
  assumes "ucd_ok U" and "shows_home_cards recommended"
    and "build_home U E S recommended profiles sites r done w due d = ((rows, g, late), d')"
    and "owner d = cat_run (new_catalog ss hs cs) ops" and "keys_separate U (all_listed g)"
    and "row \<in> set rows" "it \<in> set (hr_items row)" "k = hi_group_key it \<or> k \<in> set (item_keys it)"
    and "p \<in> set (hi_providers it)" and "t \<le> expiry (monotonic E (world d')) hs None"
  shows "\<exists>res. fst (resolve t k (owner d')) = Some res \<and> resolved_source res p \<noteq> None"
proof -
  let ?m = "build_sources_map U g" and ?now = "monotonic E (world d')"
  obtain c where c: "cat_index c = cat_index (owner d)" "cat_regs c = cat_regs (owner d)"
    "default_ttl_s (cat_sources c) = default_ttl_s (cat_sources (owner d))"
    "owner d' = apply_snapshot ?now rows (Some ?m) True c" and rows: "rows_open ?m rows"
    using build_home_open [OF assms(1-3,5)] by blast
  have ok: "cat_ok c" using cat_ok_run [OF cat_ok_new, of ss hs cs ops] c(1,2) assms(4) by (simp add: cat_ok_def)
  have ttl: "t \<le> expiry ?now (default_ttl_s (cat_sources c)) None"
    using assms(10) c(3) assms(4) by simp (simp add: new_catalog_def new_cache_def)
  have "card_opens ?m it" using rows assms(6,7) by (auto simp: rows_open_def list_all_iff)
  then obtain own where own: "dget ?m k = Some own" "p \<in> fst ` set own"
    using card_opens_keys assms(8,9) by blast
  have ko: "keyed own" using own(1) keyed_sources by (auto dest: map_of_SomeD)
  show ?thesis
  proof (cases "live_cards ?now c k")
    case None
    have "dget (fst (current_sources t (owner d'))) k = Some own"
      unfolding c(4) dget_after_apply [OF ok ttl] by (simp add: None own(1))
    then show ?thesis by (rule resolved_source_of) (use ko own in simp_all)
  next
    case (Some reg)
    then have "keyed reg" using ok
      by (auto simp: live_cards_def cat_ok_def layers_ok_def split: option.splits if_splits dest: map_of_SomeD)
    moreover have "dget (fst (current_sources t (owner d'))) k = Some (add_missing reg own)"
      unfolding c(4) dget_after_apply [OF ok ttl] by (simp add: Some own(1))
    ultimately show ?thesis using resolved_source_of [of t "owner d'" k "add_missing reg own" p] ko own
      by (simp add: keyed_add_missing)
  qed
qed

section \<open>The deep rows\<close>

lemma append_new_spec:
  "distinct (map hi_group_key (append_new seen its))" (is ?d)
  "hi_group_key ` set (append_new seen its) = hi_group_key ` set its - set seen" (is ?k)
  "set (append_new seen its) \<subseteq> set its" (is ?s)
proof -
  have "?d \<and> ?k \<and> ?s" by (induction seen its rule: append_new.induct) auto
  then show ?d ?k ?s by simp_all
qed

lemma length_columns: "length (columns n ls) = sum_list (map (\<lambda>l. min n (length l)) ls)"
proof (induction n)
  case (Suc n)
  have "length (column n ls) + sum_list (map (\<lambda>l. min n (length l)) ls) = sum_list (map (\<lambda>l. min (Suc n) (length l)) ls)"
    by (induction ls) (auto simp: column_def)
  with Suc show ?case by (simp add: columns_Suc)
qed (simp add: columns_def)

lemma longest_upper: "l \<in> set ls \<Longrightarrow> length l \<le> longest ls"
  using longest_less [of "longest ls" ls] by (auto simp: not_less [symmetric])

lemma set_interleave: "set (interleave ls) = \<Union> (set ` set ls)"
proof
  show "\<Union> (set ` set ls) \<subseteq> set (interleave ls)"
  proof
    fix x assume "x \<in> \<Union> (set ` set ls)"
    then obtain l k where l: "l \<in> set ls" "k < length l" "x = l ! k" by (auto simp: in_set_conv_nth)
    then have "k < longest ls" using longest_upper [OF l(1)] by simp
    with l show "x \<in> set (interleave ls)" by (auto simp: interleave_def columns_def column_def)
  qed
qed (use columns_members in \<open>simp add: interleave_def\<close>)

lemma collect_all:
  assumes "dwf d" and "n = length (concat (map snd d))"
  shows "set (collect d (int n)) = set (concat (map snd d))" and "length (collect d (int n)) = n"
proof -
  have "sum_list (map (\<lambda>l. min (longest ls) (length l)) ls) = length (concat ls)" for ls
  proof -
    have "map (\<lambda>l. min (longest ls) (length l)) ls = map length ls"
      using longest_upper by (intro map_cong) (auto simp: min_def intro: antisym)
    then show ?thesis by (simp only: length_concat)
  qed
  then have len: "length (interleave (map snd d)) = n" by (simp only: interleave_def length_columns assms(2))
  have "collect d (int n) = interleave (map snd d)"
    unfolding collect_columns [OF assms(1)] by (simp add: len walk_budget_def walk_budget_multiplier_def)
  then show "set (collect d (int n)) = set (concat (map snd d))" "length (collect d (int n)) = n"
    using len by (simp_all add: set_interleave)
qed

lemma merge_groups_length: "length (merge_groups U its) \<le> length its"
proof -
  obtain bs where bs: "merge_groups U its = map (group_of U its) bs"
    "good_partition (length its) (matches U its) bs" using merge_groups_run by blast
  have "distinct (concat bs)" "set (concat bs) = {..<length its}" "\<forall>b \<in> set bs. b \<noteq> []"
    using bs(2) by (auto simp: good_partition_def)
  then have "length (concat bs) = length its" using distinct_card [of "concat bs"] by simp
  moreover have "length bs \<le> length (concat bs)" using \<open>\<forall>b \<in> set bs. b \<noteq> []\<close>
    by (induction bs) (auto simp: Suc_le_eq length_greater_0_conv [symmetric] simp del: length_greater_0_conv)
  ultimately show ?thesis by (simp add: bs(1))
qed

lemma keep_page_ok: "dwf d \<Longrightarrow> dwf (keep_page f p l d)"
  by (auto simp: keep_page_def Let_def)

lemma fetch_pages_ok: "dwf (dr_collected r) \<Longrightarrow> dwf (dr_collected (fetch_pages f done r))"
  unfolding fetch_pages_def
proof (rule foldl_invariant [where P = "\<lambda>r. dwf (dr_collected r)"])
  fix r :: "'t deep_run" and e assume "dwf (dr_collected r)"
  then show "dwf (dr_collected (finish_fetch f r e))"
    by (cases e) (auto simp: keep_page_ok Let_def split: prod.splits option.splits browse_answer.splits)
qed

lemma deep_groups:
  assumes "dwf d" and "n = length (concat (map snd d))"
  shows "round_robin_dedup U d (int n) = map (home_item_of U) (merge_groups U (collect d (int n)))"
  using merge_groups_length [of U "collect d (int n)"] collect_all(2) [OF assms] by (simp add: round_robin_dedup_def)

lemma extend_row_pool_new:
  assumes "extend_row_pool U E S sites k shown done w (pages, d) = (Some pool, pages', d')"
    and "fst (cache_get (monotonic E (world d)) (deep_key k) (cat_deep (owner d))) = None"
  shows "\<exists>r. r = fetch_pages (recent_row_form k) done \<lparr>dr_collected = [], dr_pages = pages, dr_lanes = lanes d\<rparr> \<and>
    pool = shown @ append_new (map hi_group_key shown)
      (round_robin_dedup U (dr_collected r) (int (length (concat (map snd (dr_collected r)))))) \<and>
    cat_deep (owner d') = cache_set (monotonic E w) (deep_key k) pool None
      (snd (cache_get (monotonic E (world d)) (deep_key k) (cat_deep (owner d))))"
proof -
  obtain deep where miss: "cache_get (monotonic E (world d)) (deep_key k) (cat_deep (owner d)) = (None, deep)"
    using assms(2) by (cases "cache_get (monotonic E (world d)) (deep_key k) (cat_deep (owner d))") simp
  obtain r where r: "fetch_pages (recent_row_form k) done \<lparr>dr_collected = [], dr_pages = pages, dr_lanes = lanes d\<rparr> = r" by blast
  have "pool = shown @ append_new (map hi_group_key shown)
      (round_robin_dedup U (dr_collected r) (int (length (concat (map snd (dr_collected r)))))) \<and>
    cat_deep (owner d') = cache_set (monotonic E w) (deep_key k) pool None deep"
    using assms(1) by (auto simp: extend_row_pool_def Let_def miss r split: if_splits)
  then show ?thesis using r by (intro exI [of _ r]) (simp add: miss)
qed

text \<open>A row extended past the snapshot is the snapshot row followed by new cards, no group twice, and no fetched
  card is lost: every one is in the group of a card of the pool.  The pool is what the row shows for the
  life of the deep cache.\<close>

theorem deep_pool_spec:
  assumes "extend_row_pool U E S sites k shown done w (pages, d) = (Some pool, pages', d')"
    and "fst (cache_get (monotonic E (world d)) (deep_key k) (cat_deep (owner d))) = None"
    and "t \<le> expiry (monotonic E w) (default_ttl_s (cat_deep (owner d))) None"
  shows "let fetched = dr_collected (fetch_pages (recent_row_form k) done
      \<lparr>dr_collected = [], dr_pages = pages, dr_lanes = lanes d\<rparr>);
      groups = merge_groups U (collect fetched (int (length (concat (map snd fetched)))))
    in (\<exists>new. pool = shown @ new \<and> distinct (map hi_group_key new) \<and>
         hi_group_key ` set new \<inter> hi_group_key ` set shown = {}) \<and>
       (\<forall>s \<in> set (concat (map snd fetched)).
          \<exists>g \<in> set groups. s \<in> set (sources g) \<and> mg_key g \<in> hi_group_key ` set pool) \<and>
       fst (cache_get t (deep_key k) (cat_deep (owner d'))) = Some pool"
proof -
  obtain r where r_def: "r = fetch_pages (recent_row_form k) done \<lparr>dr_collected = [], dr_pages = pages, dr_lanes = lanes d\<rparr>"
    and pool: "pool = shown @ append_new (map hi_group_key shown)
      (round_robin_dedup U (dr_collected r) (int (length (concat (map snd (dr_collected r))))))"
    and deep: "cat_deep (owner d') = cache_set (monotonic E w) (deep_key k) pool None
      (snd (cache_get (monotonic E (world d)) (deep_key k) (cat_deep (owner d))))"
    using extend_row_pool_new [OF assms(1,2)] by blast
  let ?c = "dr_collected r" and ?n = "length (concat (map snd (dr_collected r)))"
  let ?deep = "snd (cache_get (monotonic E (world d)) (deep_key k) (cat_deep (owner d)))"
  have "dwf ?c" unfolding r_def by (rule fetch_pages_ok) (simp add: dwf_def)
  note all = collect_all [OF this refl] and groups = deep_groups [OF this refl, of U]
  have "\<exists>g \<in> set (merge_groups U (collect ?c (int ?n))). s \<in> set (sources g) \<and> mg_key g \<in> hi_group_key ` set pool"
    if s: "s \<in> set (concat (map snd ?c))" for s
  proof -
    obtain g where g: "g \<in> set (merge_groups U (collect ?c (int ?n)))" "s \<in> set (sources g)"
      using some_group [of s "collect ?c (int ?n)" U] s all(1) by auto
    have "mg_key g \<in> hi_group_key ` set (round_robin_dedup U ?c (int ?n))"
      using g(1) unfolding groups by (force simp: home_item_of_def Let_def)
    then have "mg_key g \<in> hi_group_key ` set pool"
      unfolding pool using append_new_spec(2) [of "map hi_group_key shown" "round_robin_dedup U ?c (int ?n)"] by auto
    then show ?thesis using g by blast
  qed
  moreover have "default_ttl_s ?deep = default_ttl_s (cat_deep (owner d))"
    by (auto simp: cache_get_def split: option.splits)
  then have "fst (cache_get t (deep_key k) (cat_deep (owner d'))) = Some pool"
    unfolding deep by (intro ttl.read_written) (use assms(3) in simp)
  moreover have "\<exists>new. pool = shown @ new \<and> distinct (map hi_group_key new) \<and> hi_group_key ` set new \<inter> hi_group_key ` set shown = {}"
    using append_new_spec [of "map hi_group_key shown" "round_robin_dedup U ?c (int ?n)"] unfolding pool
    by (intro exI [of _ "append_new (map hi_group_key shown) (round_robin_dedup U ?c (int ?n))"]) auto
  ultimately show ?thesis unfolding Let_def r_def [symmetric] by blast
qed

text \<open>C15: The extension registers nothing: a card past the snapshot whose group key has no sources when the client
  scrolls cannot be resolved afterwards, so it is on the screen and opens to nothing.\<close>

theorem deep_cards_do_not_open:
  assumes "extend_row_pool U E S sites k shown done w (pages, d) = (Some pool, pages', d')"
    and "it \<in> set pool" and "fst (resolve_group E (hi_group_key it) d) = None"
    and "monotonic E (world d) \<le> monotonic E (world d')"
  shows "fst (resolve_group_content E (hi_group_key it) d') = None"
proof -
  have same: "cat_sources (owner d') = cat_sources (owner d)"
    using assms(1) by (auto simp: extend_row_pool_def Let_def split: prod.splits if_splits)
  let ?now = "monotonic E (world d)" and ?then = "monotonic E (world d')"
  have none: "(case fst (cache_get ?now sources_key (cat_sources (owner d))) of None \<Rightarrow> [] | Some m \<Rightarrow> m) = m \<Longrightarrow>
      dget m (hi_group_key it) = None" for m
    using assms(3) by (auto simp: resolve_group_def current_sources_def split: prod.splits)
  have "fst (cache_get ?then sources_key (cat_sources (owner d))) = None \<or>
      fst (cache_get ?then sources_key (cat_sources (owner d))) = fst (cache_get ?now sources_key (cat_sources (owner d)))"
    by (rule ttl.read_stays [OF assms(4)])
  then have "fst (resolve_group E (hi_group_key it) d') = None"
    using none by (auto simp: resolve_group_def current_sources_def same split: prod.splits option.splits)
  then show ?thesis by (auto simp: resolve_group_content_def member_attempts_of_def Let_def split: prod.splits)
qed

section \<open>A home of one card\<close>

definition dune :: "string \<Rightarrow> string \<Rightarrow> search_result" where
  "dune i imdb = (sample_items ! 0)\<lparr>sr_id := u i, provider := u ''animeon'', imdb_id := Some (u imdb)\<rparr>"

definition sample_site :: sites where
  "sample_site = [(u ''animeon'', \<lparr>st_newest = None, st_sections =
     [\<lparr>sec_id = u ''popular'', sec_title = u ''P'', sec_form = None, sec_styles = None\<rparr>]\<rparr>)]"

definition open_env :: "(unit, nat, nat) upstream" where
  "open_env = (sample_env Suc)\<lparr>can_gate := \<lambda>_. False\<rparr>"

definition empty_desk :: "(unit, nat, nat) desk" where
  "empty_desk = (sample_desk [])\<lparr>owner := sample_catalog\<rparr>"

definition sample_settings :: build_settings where
  "sample_settings = \<lparr>bs_limit = 20, bs_hidden = {}, bs_max_pages = 5\<rparr>"

definition sample_home :: "(home_row list \<times> gathered \<times> place list) \<times> (unit, nat, nat) desk" where
  "sample_home = build_home ua_ucd open_env sample_settings (\<lambda>_. []) (\<lambda>_. None) sample_site empty_resume
     [(0, Popular_task (u ''animeon'') (u ''popular''), Listed [dune ''animeon:1'' ''tt1160419''])] 0 (\<lambda>_. True) empty_desk"

lemma one_card_rows:
  "map (\<lambda>r. map hi_providers (hr_items r)) (with_recommendation_rows ua_ucd (\<lambda>_. []) (\<lambda>_. None)
     (build_home_rows ua_ucd [] [(u ''animeon'', [dune ''animeon:1'' ''tt1160419''])] [] 20 (Some {}) (Some []) {})) =
   [[[u ''animeon'']]]"
  by code_simp

lemma sample_home_rows:
  "map (\<lambda>r. map hi_providers (hr_items r)) (fst (fst sample_home)) = [[[u ''animeon'']]]" (is ?rows)
  "all_listed (fst (snd (fst sample_home))) = [dune ''animeon:1'' ''tt1160419'']" (is ?listed)
proof -
  let ?g = "\<lparr>ga_newest = [], ga_popular = [(u ''animeon'', [dune ''animeon:1'' ''tt1160419''])], ga_types = []\<rparr>"
  have places: "sweep_places open_env sample_site g = []" for g
    by (simp add: sweep_places_def sweepable_def open_env_def case_prod_beta)
  have keys: "watched_group_keys ua_ucd empty_resume m = {}" "history_group_keys ua_ucd empty_resume m = []" for m
    by (simp_all add: watched_group_keys_def history_group_keys_def positions_entries_def history_def empty_resume_def
        by_progress_def newest_first_def uniq_def List.map_filter_simps)
  have rows: "fst (cache_home ua_ucd open_env sample_settings (\<lambda>_. []) (\<lambda>_. None) empty_resume ?g d) =
      with_recommendation_rows ua_ucd (\<lambda>_. []) (\<lambda>_. None) (build_home_rows ua_ucd []
        [(u ''animeon'', [dune ''animeon:1'' ''tt1160419''])] [] 20 (Some {}) (Some []) {})" for d
    by (simp add: cache_home_def keys sample_settings_def Let_def case_prod_beta)
  show ?rows
    unfolding one_card_rows [symmetric] rows [symmetric, of "empty_desk\<lparr>lanes := record_outcome 0 (u ''animeon'') True (lanes empty_desk), world := 0\<rparr>"]
    by (simp add: sample_home_def build_home_def fan_out_def places sweep_def case_prod_beta)
  show ?listed
    by (simp add: sample_home_def build_home_def fan_out_def places sweep_def case_prod_beta all_listed_def)
qed

lemma dune_valid: "valid_imdb ua_ucd (dune ''animeon:1'' ''tt1160419'') = Some (u ''tt1160419'')"
  "provider (dune ''animeon:1'' ''tt1160419'') = fst (split_wire_id (sr_id (dune ''animeon:1'' ''tt1160419'')))"
  by code_simp+

definition deep_row :: "home_item list option \<times> search_result list ttl_cache \<times> (unit, nat, nat) desk" where
  "deep_row = extend_row_pool ua_ucd open_env sample_settings sample_site (u ''popular'')
     [history_item ua_ucd (dune ''animeon:1'' ''tt1160419'')]
     [(10, 0, (u ''animeon'', u ''popular'', 2), Listed [dune ''animeon:2'' ''tt15239678''])] 0 (new_cache 1800, empty_desk)"

lemma deep_row_parts:
  "deep_tasks sample_settings sample_site (u ''popular'') \<noteq> []" "row_is_extendable (u ''popular'')"
  "recent_row_form (u ''popular'') = None" "any_listing [(u ''animeon'', [dune ''animeon:2'' ''tt15239678''])]"
  "hi_group_key (history_item ua_ucd (dune ''animeon:1'' ''tt1160419'')) = u ''g3:tt1160419''"
  "map hi_group_key (append_new [u ''g3:tt1160419'']
     (round_robin_dedup ua_ucd [(u ''animeon'', [dune ''animeon:2'' ''tt15239678''])] 1)) = [u ''g3:tt15239678'']"
  by code_simp+

lemma deep_row_pool: "\<exists>pool pages d. deep_row = (Some pool, pages, d) \<and> map hi_group_key pool = [u ''g3:tt1160419'', u ''g3:tt15239678'']"
proof -
  have miss: "cache_get t (deep_key (u ''popular'')) (cat_deep (owner empty_desk)) = (None, cat_deep (owner empty_desk))"
    "cache_get t k (new_cache n) = (None, new_cache n)" for t k n
    by (simp_all add: empty_desk_def sample_catalog_def new_catalog_def new_cache_def cache_get_def)
  show ?thesis
    using deep_row_parts by (simp add: deep_row_def extend_row_pool_def Let_def miss fetch_pages_def keep_page_def look_up_def)
qed

theorem deep_pool_spec_witness:
  "\<exists>pool pages d. deep_row = (Some pool, pages, d) \<and> length pool = 2 \<and>
     hd pool = history_item ua_ucd (dune ''animeon:1'' ''tt1160419'') \<and>
     fst (cache_get 10 (deep_key (u ''popular'')) (cat_deep (owner d))) = Some pool"
proof -
  obtain pool pages d where row: "deep_row = (Some pool, pages, d)" "map hi_group_key pool = [u ''g3:tt1160419'', u ''g3:tt15239678'']"
    using deep_row_pool by (elim exE conjE) (rule that)
  have n: "fst (cache_get (monotonic open_env (world empty_desk)) (deep_key (u ''popular'')) (cat_deep (owner empty_desk))) = None"
    by (simp add: empty_desk_def sample_catalog_def new_catalog_def new_cache_def cache_get_def)
  have t: "(10 :: rat) \<le> expiry (monotonic open_env 0) (default_ttl_s (cat_deep (owner empty_desk))) None"
    by (simp add: open_env_def sample_env_def empty_desk_def sample_catalog_def new_catalog_def new_cache_def expiry_def) code_simp
  have "length pool = 2" using arg_cong [OF row(2), of length] by simp
  with deep_pool_spec [OF row(1) [unfolded deep_row_def] n t] row(1) show ?thesis by (auto simp: Let_def)
qed

theorem deep_cards_do_not_open_witness:
  "\<exists>pool pages d it. deep_row = (Some pool, pages, d) \<and> it \<in> set pool \<and>
     fst (resolve_group_content open_env (hi_group_key it) d) = None"
proof -
  obtain pool pages d where row: "deep_row = (Some pool, pages, d)" "map hi_group_key pool = [u ''g3:tt1160419'', u ''g3:tt15239678'']"
    using deep_row_pool by (elim exE conjE) (rule that)
  then obtain it where it: "it \<in> set pool" by (cases pool) auto
  have "fst (resolve_group open_env (hi_group_key it) empty_desk) = None"
    by (simp add: resolve_group_def empty_desk_def sample_catalog_def new_catalog_def new_cache_def resolve_def
        current_sources_def cache_get_def Let_def entry_def)
  moreover have "monotonic open_env (world empty_desk) \<le> monotonic open_env (world d)"
    by (simp add: open_env_def sample_env_def)
  ultimately have "fst (resolve_group_content open_env (hi_group_key it) d) = None"
    by (rule deep_cards_do_not_open [OF row(1) [unfolded deep_row_def] it])
  with row(1) it show ?thesis by (intro exI conjI)
qed

end
