(* ===== verification/Teleport.thy ===== *)
theory Teleport
  imports Py_Float Json "HOL-Library.Word"
begin

unbundle bit_operations_syntax

text \<open>
  The alignment domain of the source teleport, \<^verbatim>\<open>backend/cs_uk_api/teleport.py\<close>: the comparison of two
  fingerprints at every offset, and the aligner around it.  A fingerprint is a list of 32-bit hashes, as the
  \<^verbatim>\<open>fpcalc\<close> reader leaves it; durations, rates and confidences are doubles (\<open>Py_Float\<close>).  What the external
  programs answer is an argument of the aligner.
\<close>

section \<open>The constants\<close>

definition trim_seconds :: rat where "trim_seconds = 2"
definition search_radius_seconds :: rat where "search_radius_seconds = 300"
definition matched_confidence :: rat where "matched_confidence = fl (4 / 5)"
definition matched_margin :: rat where "matched_margin = fl (1 / 20)"
definition ambiguous_floor :: rat where "ambiguous_floor = fl (3 / 5)"
definition min_reference_hashes :: nat where "min_reference_hashes = 30"
definition min_low_entropy_popcount :: nat where "min_low_entropy_popcount = 6"
definition max_low_entropy_popcount :: nat where "max_low_entropy_popcount = 26"
definition min_valid_hash_fraction :: rat where "min_valid_hash_fraction = fl (3 / 5)"

section \<open>The matcher\<close>

type_synonym fingerprint = "32 word list"

datatype teleport_status = Matched | Ambiguous | No_match

record fingerprint_match =
  fm_status :: teleport_status
  fm_offset :: "rat option"
  fm_confidence :: "rat option"
  fm_margin :: "rat option"
  fm_reason :: "ustr option"

definition popcount :: "32 word \<Rightarrow> nat" where
  "popcount v = length (filter (bit v) [0..<32])"

definition fingerprint_rate :: "fingerprint \<Rightarrow> fingerprint \<Rightarrow> rat \<Rightarrow> rat \<Rightarrow> rat" where
  "fingerprint_rate reference candidate rd cd =
     (let duration_delta = f_sub cd rd; frame_delta = int (length candidate) - int (length reference) in
      if duration_delta > 1 / 2 \<and> frame_delta > 0 then f_div (f_of_int frame_delta) duration_delta
      else f_div (f_of_int (int (length candidate))) cd)"

definition refused_match :: "ustr \<Rightarrow> fingerprint_match" where
  "refused_match reason =
     \<lparr>fm_status = No_match, fm_offset = None, fm_confidence = None, fm_margin = None, fm_reason = Some reason\<rparr>"

definition trim_frames :: "rat \<Rightarrow> nat" where
  "trim_frames rate = nat (max 1 (round_even (f_mul trim_seconds rate)))"

definition ref_core :: "nat \<Rightarrow> fingerprint \<Rightarrow> fingerprint" where
  "ref_core trim reference = drop trim (take (length reference - trim) reference)"

definition lively :: "32 word \<Rightarrow> bool" where
  "lively h \<longleftrightarrow> min_low_entropy_popcount \<le> popcount h \<and> popcount h \<le> max_low_entropy_popcount"

definition quiet :: "fingerprint \<Rightarrow> bool" where
  "quiet core \<longleftrightarrow>
     of_nat (length (filter lively core)) < f_mul min_valid_hash_fraction (f_of_int (int (length core))) \<or>
     card (set core) < min_reference_hashes"

text \<open>The bits in which the core and the window at \<open>j\<close> differ, and the window's score.\<close>

definition distance :: "fingerprint \<Rightarrow> fingerprint \<Rightarrow> nat \<Rightarrow> nat" where
  "distance core candidate j =
     sum_list (map2 (\<lambda>a b. popcount (a XOR b)) core (take (length core) (drop j candidate)))"

definition confidence :: "nat \<Rightarrow> nat \<Rightarrow> rat" where
  "confidence bits d = f_sub 1 (f_div (of_nat d) (of_nat bits))"

definition scores :: "nat \<Rightarrow> fingerprint \<Rightarrow> fingerprint \<Rightarrow> (rat \<times> nat) list" where
  "scores trim core candidate =
     map (\<lambda>j. (confidence (32 * length core) (distance core candidate j), j))
       [trim..<length candidate - length core + 1]"

text \<open>\<^verbatim>\<open>max\<close> of a list of tuples, and \<^verbatim>\<open>max\<close> with a default.\<close>

definition later_or_better :: "rat \<times> nat \<Rightarrow> rat \<times> nat \<Rightarrow> rat \<times> nat" where
  "later_or_better b s = (if fst b < fst s \<or> (fst b = fst s \<and> snd b < snd s) then s else b)"

definition best_score :: "(rat \<times> nat) list \<Rightarrow> rat \<times> nat" where
  "best_score ss = (case ss of [] \<Rightarrow> (0, 0) | s # rest \<Rightarrow> foldl later_or_better s rest)"

definition max_or :: "rat \<Rightarrow> rat list \<Rightarrow> rat" where
  "max_or d xs = (case xs of [] \<Rightarrow> d | x # rest \<Rightarrow> foldl max x rest)"

definition distinct_scores :: "rat \<Rightarrow> nat \<Rightarrow> (rat \<times> nat) list \<Rightarrow> (rat \<times> nat) list" where
  "distinct_scores rate best_j ss = filter (\<lambda>s. f_mul 2 rate < of_int \<bar>int (snd s) - int best_j\<bar>) ss"

text \<open>The verdict on the best window.\<close>

definition judge_scores :: "rat \<Rightarrow> nat \<Rightarrow> (rat \<times> nat) list \<Rightarrow> fingerprint_match" where
  "judge_scores rate trim ss =
     (let (best, best_j) = best_score ss;
          second = max_or 0 (map fst (distinct_scores rate best_j ss));
          margin = f_sub best second;
          candidate_offset = f_div (f_of_int (int best_j - int trim)) rate
      in if matched_confidence \<le> best \<and> matched_margin \<le> margin then
           \<lparr>fm_status = Matched, fm_offset = Some candidate_offset, fm_confidence = Some best,
            fm_margin = Some margin, fm_reason = None\<rparr>
         else if ambiguous_floor \<le> best then
           \<lparr>fm_status = Ambiguous, fm_offset = Some candidate_offset, fm_confidence = Some best,
            fm_margin = Some margin, fm_reason = Some (u ''low_confidence'')\<rparr>
         else
           \<lparr>fm_status = No_match, fm_offset = None, fm_confidence = Some best,
            fm_margin = Some margin, fm_reason = Some (u ''low_confidence'')\<rparr>)"

definition match_fingerprints :: "fingerprint \<Rightarrow> fingerprint \<Rightarrow> rat \<Rightarrow> rat \<Rightarrow> fingerprint_match" where
  "match_fingerprints reference candidate rd cd =
     (if rd \<le> 0 \<or> cd \<le> 0 then refused_match (u ''decode_failed'')
      else if reference = [] \<or> candidate = [] then refused_match (u ''reference_quiet'')
      else
        (let rate = fingerprint_rate reference candidate rd cd in
         if rate \<le> 0 then refused_match (u ''decode_failed'')
         else
           (let trim = trim_frames rate in
            if length reference \<le> 2 * trim + min_reference_hashes then refused_match (u ''decode_failed'')
            else
              (let core = ref_core trim reference in
               if length core < min_reference_hashes then refused_match (u ''reference_quiet'')
               else if quiet core then refused_match (u ''reference_quiet'')
               else if length candidate < length core then refused_match (u ''candidate_no_audio'')
               else
                 (let ss = scores trim core candidate in
                  if ss = [] then refused_match (u ''candidate_no_audio'')
                  else judge_scores rate trim ss)))))"

section \<open>The aligner\<close>

text \<open>
  What the external programs answer for one request: whether they are there, the durations of the two
  decoded files, and the two fingerprints.  The candidate's depend on where its window starts.
\<close>

record media =
  md_tools :: bool
  md_reference :: "rat option"
  md_candidate :: "rat \<Rightarrow> rat option"
  md_reference_print :: "fingerprint option"
  md_candidate_print :: "rat \<Rightarrow> fingerprint option"

record alignment =
  al_status :: teleport_status
  al_offset :: "rat option"
  al_confidence :: "rat option"
  al_margin :: "rat option"
  al_reason :: "ustr option"

definition unaligned :: "ustr \<Rightarrow> alignment" where
  "unaligned reason =
     \<lparr>al_status = No_match, al_offset = None, al_confidence = None, al_margin = None, al_reason = Some reason\<rparr>"

definition candidate_start :: "rat \<Rightarrow> rat" where
  "candidate_start pos = max 0 (f_sub pos search_radius_seconds)"

text \<open>\<open>None\<close> is \<^verbatim>\<open>TeleportUnavailable\<close>.\<close>

definition align :: "media \<Rightarrow> rat \<Rightarrow> alignment option" where
  "align M pos =
     (if \<not> md_tools M then None
      else
        (case md_reference M of
           None \<Rightarrow> Some (unaligned (u ''decode_failed''))
         | Some rd \<Rightarrow>
             (let start = candidate_start pos in
              case md_candidate M start of
                None \<Rightarrow> Some (unaligned (u ''candidate_no_audio''))
              | Some cd \<Rightarrow>
                  (case (md_reference_print M, md_candidate_print M start) of
                     (Some reference, Some candidate) \<Rightarrow>
                       (let m = match_fingerprints reference candidate rd cd in
                        case fm_offset m of
                          None \<Rightarrow> Some \<lparr>al_status = fm_status m, al_offset = None, al_confidence = fm_confidence m,
                                        al_margin = fm_margin m, al_reason = fm_reason m\<rparr>
                        | Some off \<Rightarrow>
                            if fm_status m = No_match then
                              Some \<lparr>al_status = fm_status m, al_offset = None, al_confidence = fm_confidence m,
                                    al_margin = fm_margin m, al_reason = fm_reason m\<rparr>
                            else
                              Some \<lparr>al_status = fm_status m,
                                    al_offset = Some (f_sub (f_add (f_add start off) rd) pos),
                                    al_confidence = fm_confidence m, al_margin = fm_margin m,
                                    al_reason = fm_reason m\<rparr>)
                   | _ \<Rightarrow> Some (unaligned (u ''decode_failed''))))))"

text \<open>
  \<^verbatim>\<open>_fingerprint\<close>: the exit code of \<^verbatim>\<open>fpcalc\<close> and its output, \<open>None\<close> when that is no JSON.  The outer \<open>None\<close>
  is the \<^verbatim>\<open>AttributeError\<close> of a document that is no object.
\<close>

definition read_fingerprint :: "int \<Rightarrow> json option \<Rightarrow> fingerprint option option" where
  "read_fingerprint code out =
     (if code \<noteq> 0 then Some None
      else case out of
        None \<Rightarrow> Some None
      | Some payload \<Rightarrow>
          (case as_dict payload of
             None \<Rightarrow> None
           | Some d \<Rightarrow>
               (case as_list (jget d (u ''fingerprint'')) of
                  None \<Rightarrow> Some None
                | Some vs \<Rightarrow>
                    if vs = [] then Some None
                    else if list_all (\<lambda>v. as_int v \<noteq> None) vs
                    then Some (Some (map word_of_int (List.map_filter as_int vs))) else Some None)))"

section \<open>The windows\<close>

text \<open>The windows the search looks at, and those it counts as another place than \<open>j\<close>.\<close>

definition windows :: "nat \<Rightarrow> fingerprint \<Rightarrow> fingerprint \<Rightarrow> nat set" where
  "windows trim core candidate = {j. trim \<le> j \<and> j + length core \<le> length candidate}"

definition elsewhere :: "rat \<Rightarrow> nat \<Rightarrow> nat \<Rightarrow> bool" where
  "elsewhere rate j i \<longleftrightarrow> f_mul 2 rate < of_int \<bar>int i - int j\<bar>"

lemma popcount_le: "popcount v \<le> 32"
  using length_filter_le [of "bit v" "[0..<32]"] by (simp add: popcount_def)

lemma popcount_0 [simp]: "popcount 0 = 0"
  by (simp add: popcount_def)

lemma popcount_0_iff: "popcount v = 0 \<longleftrightarrow> v = 0"
proof
  assume "popcount v = 0"
  then have "\<not> bit v n" if "n < 32" for n using that by (auto simp: popcount_def filter_empty_conv)
  then show "v = 0" by (intro bit_word_eqI) simp
qed simp

lemma distance_le: "distance core candidate j \<le> 32 * length core"
proof -
  have "sum_list (map2 (\<lambda>a b. popcount (a XOR b)) xs ys) \<le> 32 * length xs" for xs ys
    by (induction xs ys rule: list_induct2') (auto simp: add_le_mono [OF popcount_le])
  then show ?thesis by (simp add: distance_def)
qed

lemma distance_0: "take (length core) (drop j candidate) = core \<Longrightarrow> distance core candidate j = 0"
proof -
  have "sum_list (map2 (\<lambda>a b. popcount (a XOR b)) xs xs) = 0" for xs by (induction xs) simp_all
  then show "take (length core) (drop j candidate) = core \<Longrightarrow> distance core candidate j = 0"
    by (simp add: distance_def)
qed

lemma later_or_better_cases: "later_or_better b s = b \<or> later_or_better b s = s"
  by (simp add: later_or_better_def)

lemma best_score_spec:
  assumes "ss \<noteq> []"
  shows "best_score ss \<in> set ss" and "s \<in> set ss \<Longrightarrow> fst s \<le> fst (best_score ss)"
proof -
  have "foldl later_or_better b xs \<in> insert b (set xs) \<and>
      (\<forall>s \<in> insert b (set xs). fst s \<le> fst (foldl later_or_better b xs))" for b :: "rat \<times> nat" and xs
  proof (induction xs arbitrary: b)
    case (Cons x xs)
    have "fst b \<le> fst (later_or_better b x)" "fst x \<le> fst (later_or_better b x)"
      by (auto simp: later_or_better_def)
    with Cons [of "later_or_better b x"] later_or_better_cases [of b x] show ?case by fastforce
  qed simp
  with assms show "best_score ss \<in> set ss" "s \<in> set ss \<Longrightarrow> fst s \<le> fst (best_score ss)"
    by (fastforce simp: best_score_def split: list.splits)+
qed

lemma max_or_spec:
  "xs = [] \<Longrightarrow> max_or d xs = d" "xs \<noteq> [] \<Longrightarrow> max_or d xs \<in> set xs" "x \<in> set xs \<Longrightarrow> x \<le> max_or d xs"
proof -
  have "foldl max b xs \<in> insert b (set xs) \<and> (\<forall>x \<in> insert b (set xs). x \<le> foldl max b xs)" for b :: rat and xs
  proof (induction xs arbitrary: b)
    case (Cons x xs)
    from Cons [of "max b x"] show ?case by (auto simp: max_def split: if_splits)
  qed simp
  then show "xs = [] \<Longrightarrow> max_or d xs = d" "xs \<noteq> [] \<Longrightarrow> max_or d xs \<in> set xs"
    "x \<in> set xs \<Longrightarrow> x \<le> max_or d xs"
    by (fastforce simp: max_or_def split: list.splits)+
qed

lemma set_scores:
  "length core \<le> length candidate \<Longrightarrow>
   set (scores trim core candidate) =
     (\<lambda>j. (confidence (32 * length core) (distance core candidate j), j)) ` windows trim core candidate"
  by (auto simp: scores_def windows_def image_iff)

section \<open>The confidence in doubles\<close>

lemma fl_fraction:
  assumes "0 \<le> x" and "x \<le> 1"
  shows "fl x \<le> x + 1 / 2 ^ 53" and "x - 1 / 2 ^ 53 \<le> fl x"
proof -
  have "\<bar>x\<bar> / 2 ^ 53 \<le> 1 / 2 ^ 53" using assms by (intro divide_right_mono) simp_all
  then have e: "\<bar>fl x - x\<bar> \<le> 1 / 2 ^ 53" using fl_error [of x] by linarith
  from abs_le_D1 [OF e] show "fl x \<le> x + 1 / 2 ^ 53" by linarith
  from abs_le_D2 [OF e] show "x - 1 / 2 ^ 53 \<le> fl x" by linarith
qed

text \<open>The two roundings of a confidence cost less than \<open>2 ^ - 51\<close>.\<close>

lemma two_roundings:
  assumes "0 \<le> x" and "x \<le> 1"
  shows "fl (1 - fl x) \<le> 1 - x + 1 / 2 ^ 51" and "1 - x - 1 / 2 ^ 51 \<le> fl (1 - fl x)"
proof -
  note a = fl_fraction [OF assms]
  have "\<bar>1 - fl x\<bar> \<le> 2" using fl_mono [OF assms(1)] fl_mono [OF assms(2)] fl_of_int [of 1] by simp
  then have "\<bar>1 - fl x\<bar> / 2 ^ 53 \<le> 2 / 2 ^ 53" by (rule divide_right_mono) simp
  with fl_error [of "1 - fl x"] have b: "\<bar>fl (1 - fl x) - (1 - fl x)\<bar> \<le> 2 / 2 ^ 53" by linarith
  show "fl (1 - fl x) \<le> 1 - x + 1 / 2 ^ 51" using abs_le_D1 [OF b] a by simp
  show "1 - x - 1 / 2 ^ 51 \<le> fl (1 - fl x)" using abs_le_D2 [OF b] a by simp
qed

lemma confidence_near:
  assumes "d \<le> bits" and "0 < bits"
  shows "confidence bits d \<le> 1 - of_nat d / of_nat bits + 1 / 2 ^ 51"
    and "1 - of_nat d / of_nat bits - 1 / 2 ^ 51 \<le> confidence bits d"
  using assms two_roundings [of "of_nat d / of_nat bits"]
  by (simp_all add: confidence_def f_sub_def f_div_def divide_le_eq)

lemma bits_fraction:
  fixes a b :: nat
  assumes "0 < b" and "b < 2 ^ 42" and "of_nat a / of_nat b \<le> (x :: rat) + 1 / 2 ^ 47"
  shows "of_nat a < x * of_nat b + 1 / 32"
proof -
  have b: "0 < (of_nat b :: rat)" "of_nat b < (2 ^ 42 :: rat)"
    using assms(1,2) by (simp, metis of_nat_less_iff of_nat_numeral of_nat_power)
  have "of_nat a \<le> (x + 1 / 2 ^ 47) * of_nat b"
    using assms(3) b(1) by (simp only: pos_divide_le_eq)
  also have "\<dots> = x * of_nat b + of_nat b / 2 ^ 47" by (simp add: distrib_right)
  also have "\<dots> < x * of_nat b + 1 / 32" using b(2) by simp
  finally show ?thesis .
qed

lemma near_le:
  fixes x y c d :: rat
  shows "1 - x - 1 / 2 ^ 51 \<le> c \<Longrightarrow> d \<le> 1 - y + 1 / 2 ^ 51 \<Longrightarrow> c \<le> d \<Longrightarrow> y \<le> x + 1 / 2 ^ 47"
  by simp

lemma confidence_le:
  assumes "d \<le> bits" "d' \<le> bits" "0 < bits" "bits < 2 ^ 42" and "confidence bits d' \<le> confidence bits d"
  shows "d \<le> d'"
proof -
  have "of_nat d / of_nat bits \<le> of_nat d' / of_nat bits + (1 / 2 ^ 47 :: rat)"
    by (rule near_le [OF confidence_near(2) [OF assms(2,3)] confidence_near(1) [OF assms(1,3)] assms(5)])
  from bits_fraction [OF assms(3,4) this] have "of_nat d < (of_nat d' :: rat) + 1 / 32" using assms(3) by simp
  then have "(of_nat d :: rat) < of_nat (Suc d')" by simp
  then show ?thesis by (simp only: of_nat_less_iff)
qed

lemma confidence_matched:
  assumes "d \<le> bits" "0 < bits" "bits < 2 ^ 42" and "matched_confidence \<le> confidence bits d"
  shows "5 * d \<le> bits"
proof -
  have "of_nat d / of_nat bits \<le> (1 / 5 :: rat) + 1 / 2 ^ 47"
    using confidence_near(1) [OF assms(1,2)] fl_fraction(2) [of "4 / 5"] assms(4)
    unfolding matched_confidence_def by simp
  from bits_fraction [OF assms(2,3) this] have "(of_nat (5 * d) :: rat) < of_nat (Suc bits)" by simp
  then show ?thesis by (simp only: of_nat_less_iff less_Suc_eq_le)
qed

lemma confidence_margin:
  assumes "d \<le> bits" "d' \<le> bits" "0 < bits" "bits < 2 ^ 42" "d \<le> d'"
    and "matched_margin \<le> f_sub (confidence bits d) (confidence bits d')"
  shows "bits \<le> 20 * (d' - d)"
proof -
  define x y where "x = (of_nat d / of_nat bits :: rat)" and "y = (of_nat d' / of_nat bits :: rat)"
  let ?m = "confidence bits d - confidence bits d'"
  have xy: "0 \<le> x" "x \<le> y" "y \<le> 1" using assms(2,3,5) by (simp_all add: x_def y_def divide_right_mono)
  have m: "?m \<le> y - x + 1 / 2 ^ 50" "- 1 \<le> ?m"
    using confidence_near [OF assms(1,3)] confidence_near [OF assms(2,3)] xy by (simp_all add: x_def [symmetric] y_def [symmetric])
  have "\<bar>?m\<bar> / 2 ^ 53 \<le> 2 / 2 ^ 53" using m xy by (intro divide_right_mono) simp_all
  with fl_error [of ?m] have b: "\<bar>fl ?m - ?m\<bar> \<le> 2 / 2 ^ 53" by linarith
  have "1 / 20 - 1 / 2 ^ 53 \<le> fl ?m"
    using assms(6) fl_fraction(2) [of "1 / 20"] by (simp add: matched_margin_def f_sub_def)
  then have close: "1 / 20 \<le> y - x + 1 / 2 ^ 47" using abs_le_D1 [OF b] m(1) by simp
  have bit: "0 < (of_nat bits :: rat)" "of_nat bits < (2 ^ 42 :: rat)"
    using assms(3,4) by (simp, metis of_nat_less_iff of_nat_numeral of_nat_power)
  have "of_nat bits \<le> (20 * (y - x) + 20 / 2 ^ 47) * (of_nat bits :: rat)"
    using mult_right_mono [OF close, of "20 * of_nat bits"] bit(1) by (simp add: algebra_simps)
  also have "\<dots> = 20 * (of_nat d' - of_nat d) + 20 * of_nat bits / 2 ^ 47"
    using bit(1) by (simp add: x_def y_def algebra_simps)
  also have "\<dots> < 20 * (of_nat d' - of_nat d) + 1" using bit(2) by simp
  finally have "(of_nat bits :: rat) < of_nat (20 * (d' - d) + 1)" using assms(5) by (simp add: of_nat_diff)
  then show ?thesis by (simp only: of_nat_less_iff)
qed

section \<open>The verdict\<close>

lemma match_judged:
  assumes "fm_confidence (match_fingerprints reference candidate rd cd) \<noteq> None"
  defines "rate \<equiv> fingerprint_rate reference candidate rd cd"
  defines "core \<equiv> ref_core (trim_frames rate) reference"
  shows "match_fingerprints reference candidate rd cd =
      judge_scores rate (trim_frames rate) (scores (trim_frames rate) core candidate)"
    and "scores (trim_frames rate) core candidate \<noteq> []" and "length core \<le> length candidate"
    and "min_reference_hashes \<le> length core"
  using assms by (auto simp: match_fingerprints_def refused_match_def Let_def split: if_splits)

lemma judged_confidence:
  "fm_status m \<noteq> No_match \<Longrightarrow> m = match_fingerprints reference candidate rd cd \<Longrightarrow> fm_confidence m \<noteq> None"
  by (auto simp: match_fingerprints_def refused_match_def judge_scores_def Let_def split: if_splits prod.splits)

text \<open>C14: A match is a window that differs from the clip in at most a fifth of its bits, from which every other
  window differs no less, and every window elsewhere by a twentieth of the bits more: the two roundings
  behind a confidence, and the third behind the margin, never admit a window that exact arithmetic refuses.\<close>

theorem match_is_the_best_window:
  assumes "fm_status (match_fingerprints reference candidate rd cd) = Matched" and "length reference < 2 ^ 37"
  shows "let rate = fingerprint_rate reference candidate rd cd; trim = trim_frames rate;
      core = ref_core trim reference; ds = distance core candidate; bits = 32 * length core
    in \<exists>j \<in> windows trim core candidate.
      fm_offset (match_fingerprints reference candidate rd cd) = Some (f_div (f_of_int (int j - int trim)) rate) \<and>
      5 * ds j \<le> bits \<and> (\<forall>i \<in> windows trim core candidate. ds j \<le> ds i \<and> (elsewhere rate j i \<longrightarrow> 20 * ds j + bits \<le> 20 * ds i))"
proof -
  define rate where "rate = fingerprint_rate reference candidate rd cd"
  define trim where "trim = trim_frames rate"
  define core where "core = ref_core trim reference"
  let ?m = "match_fingerprints reference candidate rd cd"
  let ?ds = "distance core candidate" and ?bits = "32 * length core" and ?W = "windows trim core candidate"
  let ?ss = "scores trim core candidate"
  have "fm_confidence ?m \<noteq> None" by (rule judged_confidence [OF _ refl]) (simp add: assms(1))
  note j = match_judged [OF this, folded rate_def, folded trim_def, folded core_def]
  have "length core \<le> length reference" by (simp add: core_def ref_core_def)
  then have bits: "0 < ?bits" "?bits < 2 ^ 42"
    using assms(2) j(4) by (auto simp: min_reference_hashes_def)
  obtain best b where best: "best_score ?ss = (best, b)" by force
  let ?second = "max_or 0 (map fst (distinct_scores rate b ?ss))"
  have m: "matched_confidence \<le> best" "matched_margin \<le> f_sub best ?second"
    "fm_offset ?m = Some (f_div (f_of_int (int b - int trim)) rate)"
    using assms(1) unfolding j(1) by (auto simp: judge_scores_def best Let_def split: if_splits)
  have b: "b \<in> ?W" "best = confidence ?bits (?ds b)"
    using best_score_spec(1) [OF j(2)] by (auto simp: best set_scores [OF j(3)])
  have le: "?ds b \<le> ?ds i" if "i \<in> ?W" for i
  proof (rule confidence_le [OF distance_le distance_le bits])
    show "confidence ?bits (?ds i) \<le> confidence ?bits (?ds b)"
      using best_score_spec(2) [OF j(2), of "(confidence ?bits (?ds i), i)"] that b(2) by (auto simp: best set_scores [OF j(3)])
  qed
  have far: "?bits \<le> 20 * (?ds i - ?ds b)" if "i \<in> ?W" "elsewhere rate b i" for i
  proof (rule confidence_margin [OF distance_le distance_le bits le [OF that(1)]])
    have "confidence ?bits (?ds i) \<in> set (map fst (distinct_scores rate b ?ss))"
      using that by (force simp: distinct_scores_def elsewhere_def set_scores [OF j(3)])
    from max_or_spec(3) [OF this] have "f_sub best ?second \<le> f_sub best (confidence ?bits (?ds i))"
      by (simp add: f_sub_def fl_mono)
    with m(2) show "matched_margin \<le> f_sub (confidence ?bits (?ds b)) (confidence ?bits (?ds i))"
      unfolding b(2) by linarith
  qed
  have "5 * ?ds b \<le> ?bits"
    using m(1) unfolding b(2) by (rule confidence_matched [OF distance_le bits])
  moreover have "20 * ?ds b + ?bits \<le> 20 * ?ds i" if "i \<in> ?W" "elsewhere rate b i" for i
    using far [OF that] le [OF that(1)] by simp
  ultimately show ?thesis
    unfolding Let_def rate_def [symmetric] trim_def [symmetric] core_def [symmetric] using b(1) m(3) le by blast
qed

section \<open>A clip that occurs is found\<close>

lemma fl_gt0: "0 < x \<Longrightarrow> 0 < fl x"
  using fl_pos_bounds(1) [of x] less_le_trans [OF pow2_pos [of "expo x"]] by (simp add: fl_def)

lemma rate_pos:
  assumes "0 < cd" and "candidate \<noteq> []"
  shows "0 < fingerprint_rate reference candidate rd cd"
  using assms by (auto simp: fingerprint_rate_def f_div_def f_of_int_def Let_def intro!: fl_gt0 divide_pos_pos)

lemma confidence_0: "confidence bits 0 = 1"
  using fl_of_int [of 1] by (simp add: confidence_def f_sub_def f_div_def)

lemma confidence_far:
  assumes "bits \<le> 10 * d" "d \<le> bits" "0 < bits"
  shows "confidence bits d \<le> 9 / 10 + 1 / 2 ^ 51"
proof -
  have "of_nat bits \<le> (10 * of_nat d :: rat)"
    using assms(1) by (metis of_nat_le_iff of_nat_mult of_nat_numeral)
  then have "1 / 10 \<le> of_nat d / (of_nat bits :: rat)" using assms(3) by (simp add: field_simps)
  with confidence_near(1) [OF assms(2,3)] show ?thesis by simp
qed

lemma judge_exact:
  assumes "ss \<noteq> []" and "(1, b) \<in> set ss" and "\<And>s. s \<in> set ss \<Longrightarrow> s \<noteq> (1, b) \<Longrightarrow> fst s < 1"
    and "\<And>s. s \<in> set ss \<Longrightarrow> elsewhere rate b (snd s) \<Longrightarrow> fst s \<le> 9 / 10 + 1 / 2 ^ 51"
  shows "fm_status (judge_scores rate trim ss) = Matched \<and>
    fm_offset (judge_scores rate trim ss) = Some (f_div (f_of_int (int b - int trim)) rate) \<and>
    fm_confidence (judge_scores rate trim ss) = Some 1"
proof -
  have best: "best_score ss = (1, b)"
    using best_score_spec [OF assms(1)] assms(2,3) by (metis fst_conv leD)
  let ?xs = "map fst (distinct_scores rate b ss)"
  have "max_or 0 ?xs \<le> 9 / 10 + 1 / 2 ^ 51"
  proof (cases "?xs = []")
    case True
    then show ?thesis by (simp add: max_or_spec(1))
  next
    case False
    then have "max_or 0 ?xs \<in> fst ` set (distinct_scores rate b ss)" using max_or_spec(2) [of ?xs 0] by simp
    then show ?thesis using assms(4) unfolding distinct_scores_def elsewhere_def by auto
  qed
  then have "1 / 20 \<le> 1 - max_or 0 ?xs" by simp
  from fl_mono [OF this] have "matched_margin \<le> f_sub 1 (max_or 0 ?xs)"
    by (simp add: matched_margin_def f_sub_def)
  moreover have "matched_confidence \<le> 1"
    using fl_mono [of "4 / 5" 1] fl_of_int [of 1] by (simp add: matched_confidence_def)
  ultimately show ?thesis by (simp add: judge_scores_def best)
qed

lemma occurring_clip_found:
  assumes "candidate = before @ reference @ after" and "rate = fingerprint_rate reference candidate rd cd"
    and "trim = trim_frames rate" and "core = ref_core trim reference"
    and "0 < rd" "0 < cd" and "2 * trim + min_reference_hashes < length reference" "length reference < 2 ^ 37"
    and "\<not> quiet core"
    and "\<forall>i \<in> windows trim core candidate. i \<noteq> length before + trim \<longrightarrow> 0 < distance core candidate i"
    and "\<forall>i \<in> windows trim core candidate.
      elsewhere rate (length before + trim) i \<longrightarrow> 32 * length core \<le> 10 * distance core candidate i"
  shows "fm_status (match_fingerprints reference candidate rd cd) = Matched \<and>
    fm_offset (match_fingerprints reference candidate rd cd) = Some (f_div (f_of_int (int (length before))) rate) \<and>
    fm_confidence (match_fingerprints reference candidate rd cd) = Some 1"
proof -
  let ?b = "length before + trim" and ?ss = "scores trim core candidate" and ?bits = "32 * length core"
  let ?c = "\<lambda>i. confidence ?bits (distance core candidate i)"
  have len: "length core = length reference - 2 * trim" "length core \<le> length candidate"
    "min_reference_hashes \<le> length core"
    using assms(7) by (simp_all add: assms(1,4) ref_core_def)
  have bits: "0 < ?bits" "?bits < 2 ^ 42" using assms(8) len by (auto simp: min_reference_hashes_def)
  have "take (length core) (drop ?b candidate) = core"
    using assms(7) by (simp add: len(1) assms(1,4) ref_core_def take_drop)
  then have d0: "distance core candidate ?b = 0" by (rule distance_0)
  have b: "?b \<in> windows trim core candidate" using len assms(7) by (simp add: windows_def assms(1))
  have "fst s < 1" if s: "s \<in> set ?ss" "s \<noteq> (1, ?b)" for s
  proof -
    obtain i where i: "i \<in> windows trim core candidate" "s = (?c i, i)" using s(1) unfolding set_scores [OF len(2)] by blast
    then have "i \<noteq> ?b" using s(2) by (auto simp: d0 confidence_0)
    then have "0 < distance core candidate i" using assms(10) i(1) by blast
    with confidence_le [OF distance_le [of core candidate i] _ bits, of 0] show ?thesis
      by (fastforce simp: i(2) confidence_0)
  qed
  moreover have "fst s \<le> 9 / 10 + 1 / 2 ^ 51" if "s \<in> set ?ss" "elsewhere rate ?b (snd s)" for s
    using that assms(11) confidence_far [OF _ distance_le bits(1)] by (auto simp: set_scores [OF len(2)])
  moreover have mem: "(1, ?b) \<in> set ?ss"
    using b d0 confidence_0 [of ?bits] by (force simp: set_scores [OF len(2)] image_iff)
  moreover have ne: "?ss \<noteq> []" using mem by auto
  ultimately have "fm_status (judge_scores rate trim ?ss) = Matched \<and>
    fm_offset (judge_scores rate trim ?ss) = Some (f_div (f_of_int (int ?b - int trim)) rate) \<and>
    fm_confidence (judge_scores rate trim ?ss) = Some 1"
    by (intro judge_exact)
  moreover have "reference \<noteq> []" "candidate \<noteq> []" using assms(7) by (auto simp: assms(1))
  moreover have "match_fingerprints reference candidate rd cd = judge_scores rate trim ?ss"
    using assms(5-7,9) len ne \<open>reference \<noteq> []\<close> \<open>candidate \<noteq> []\<close> rate_pos [OF assms(6) \<open>candidate \<noteq> []\<close>, of reference rd, folded assms(2)]
    by (simp add: match_fingerprints_def Let_def assms(2) [symmetric] assms(3) [symmetric] assms(4) [symmetric])
  ultimately show ?thesis by simp
qed

text \<open>C39: A lively clip that occurs in the alternate's soundtrack, and nowhere else even nearly, is matched with
  full confidence at exactly the frame where it starts.\<close>

theorem occurring_clip_matches:
  assumes "candidate = before @ reference @ after" and "rate = fingerprint_rate reference candidate rd cd"
    and "trim = trim_frames rate" and "core = ref_core trim reference"
    and "0 < rd" "0 < cd" and "2 * trim + min_reference_hashes < length reference" "length reference < 2 ^ 37"
    and "\<not> quiet core"
    and "\<forall>i \<in> windows trim core candidate. i \<noteq> length before + trim \<longrightarrow> 0 < distance core candidate i"
    and "\<forall>i \<in> windows trim core candidate.
      elsewhere rate (length before + trim) i \<longrightarrow> 32 * length core \<le> 10 * distance core candidate i"
  shows "fm_status (match_fingerprints reference candidate rd cd) = Matched \<and>
    fm_offset (match_fingerprints reference candidate rd cd) = Some (f_div (f_of_int (int (length before))) rate) \<and>
    fm_confidence (match_fingerprints reference candidate rd cd) = Some 1"
  using assms by (rule occurring_clip_found)

section \<open>Witnesses\<close>

definition sample_core :: fingerprint where
  "sample_core =
     [295853050, 387276917, 535203442, 683129967, 774553834, 922480359, 1013904226, 1161830751, 1309757276,
      1401181143, 1549107668, 1697034193, 1788458060, 1936384585, 2027808452, 2175734977, 2323661502,
      2415085369, 2563011894, 2654435761, 2802362286, 2950288811, 3041712678, 3189639203, 3337565728,
      3428989595, 3576916120, 3668339987, 3816266512, 3964193037, 4055616904]"

definition sample_clip :: fingerprint where
  "sample_clip = 147926525 # sample_core @ [4203543429]"

definition sample_alternate :: fingerprint where
  "sample_alternate = 1810039509 # sample_clip"

text \<open>The ones of a numeral, read off its binary digits.\<close>

fun ones :: "num \<Rightarrow> nat" where
  "ones num.One = 1"
| "ones (num.Bit0 n) = ones n"
| "ones (num.Bit1 n) = Suc (ones n)"

lemma card_ones: "finite {i. bit (numeral n :: int) i} \<and> card {i. bit (numeral n :: int) i} = ones n"
proof (induction n)
  case One
  have "{i. bit (numeral num.One :: int) i} = {0}" by (auto simp: bit_1_iff)
  then show ?case by simp
next
  case (Bit0 n)
  have "{i. bit (numeral (num.Bit0 n) :: int) i} = Suc ` {i. bit (numeral n :: int) i}"
    (is "?l = ?r")
  proof (rule set_eqI)
    show "i \<in> ?l \<longleftrightarrow> i \<in> ?r" for i by (cases i) (simp_all add: bit_numeral_rec image_iff)
  qed
  with Bit0 show ?case by (simp add: card_image)
next
  case (Bit1 n)
  have "{i. bit (numeral (num.Bit1 n) :: int) i} = insert 0 (Suc ` {i. bit (numeral n :: int) i})"
    (is "?l = ?r")
  proof (rule set_eqI)
    show "i \<in> ?l \<longleftrightarrow> i \<in> ?r" for i by (cases i) (simp_all add: bit_numeral_rec image_iff)
  qed
  with Bit1 show ?case by (simp add: card_image)
qed

lemma popcount_numeral:
  assumes "(numeral n :: int) < 2 ^ 32"
  shows "popcount (numeral n) = ones n"
proof -
  have "i < 32" if "bit (numeral n :: int) i" for i
    using that assms by (metis bit_take_bit_iff take_bit_int_eq_self_iff zero_le_numeral)
  then have "set (filter (bit (numeral n :: 32 word)) [0..<32]) = {i. bit (numeral n :: int) i}" by auto
  then show ?thesis
    using card_ones [of n] distinct_card [of "filter (bit (numeral n :: 32 word)) [0..<32]"]
    by (simp add: popcount_def)
qed

lemma sample_length: "length sample_core = 31"
  by (simp add: sample_core_def)

lemma sample_rate: "fingerprint_rate sample_clip sample_alternate 10 14 = 1 / 4"
proof -
  have "f_sub 14 10 = 4" "f_of_int 1 = 1" "f_div 1 4 = 1 / 4" by code_simp+
  then show ?thesis by (simp add: fingerprint_rate_def sample_clip_def sample_alternate_def sample_length)
qed

lemma sample_trim: "trim_frames (1 / 4) = 1"
  by code_simp

lemma sample_ref_core: "ref_core 1 sample_clip = sample_core"
  by (simp add: ref_core_def sample_clip_def)

lemma sample_lively: "list_all lively sample_core"
  by (simp add: sample_core_def lively_def popcount_numeral min_low_entropy_popcount_def max_low_entropy_popcount_def)

lemma sample_distances:
  "distance sample_core sample_alternate 1 = 470" "distance sample_core sample_alternate 3 = 469"
  by (simp_all add: distance_def sample_core_def sample_alternate_def sample_clip_def popcount_numeral)

lemma sample_quiet: "\<not> quiet sample_core"
proof -
  have "filter lively sample_core = sample_core" using sample_lively by (simp add: list_all_iff filter_id_conv)
  moreover have "sorted_wrt (<) (map unat sample_core)"
    by (simp add: sample_core_def sorted_wrt1 sorted_wrt2 del: sorted_wrt.simps(2))
  then have "distinct (map unat sample_core)" by (simp only: strict_sorted_iff)
  then have "distinct sample_core" by (simp only: distinct_map)
  then have "card (set sample_core) = 31" by (simp add: distinct_card sample_length)
  moreover have "min_valid_hash_fraction \<le> 1"
    using fl_mono [of "3 / 5" 1] fl_of_int [of 1] by (simp add: min_valid_hash_fraction_def)
  then have "f_mul min_valid_hash_fraction (f_of_int 31) \<le> of_nat 31"
    using fl_mono [of "min_valid_hash_fraction * 31" 31] fl_of_int [of 31] by (simp add: f_mul_def f_of_int_def)
  ultimately show ?thesis by (simp add: quiet_def sample_length min_reference_hashes_def)
qed

lemma sample_windows: "windows 1 sample_core sample_alternate = {1, 2, 3}"
  by (auto simp: windows_def sample_length sample_alternate_def sample_clip_def)

lemma sample_apart: "elsewhere (1 / 4) 2 1" "elsewhere (1 / 4) 2 3" "\<not> elsewhere (1 / 4) 2 2"
  by code_simp+

lemma sample_ok:
  "sample_alternate = [sample_alternate ! 0] @ sample_clip @ []"
  "1 / 4 = fingerprint_rate sample_clip sample_alternate 10 14"
  "1 = trim_frames (1 / 4)"
  "sample_core = ref_core 1 sample_clip"
  "(0 :: rat) < 10" "(0 :: rat) < 14"
  "2 * 1 + min_reference_hashes < length sample_clip" "length sample_clip < 2 ^ 37"
  "\<not> quiet sample_core"
  "\<forall>i \<in> windows 1 sample_core sample_alternate. i \<noteq> length [sample_alternate ! 0] + 1 \<longrightarrow>
     0 < distance sample_core sample_alternate i"
  "\<forall>i \<in> windows 1 sample_core sample_alternate. elsewhere (1 / 4) (length [sample_alternate ! 0] + 1) i \<longrightarrow>
     32 * length sample_core \<le> 10 * distance sample_core sample_alternate i"
proof -
  have two: "length [sample_alternate ! 0] + 1 = 2" by simp
  show "\<forall>i \<in> windows 1 sample_core sample_alternate. i \<noteq> length [sample_alternate ! 0] + 1 \<longrightarrow>
      0 < distance sample_core sample_alternate i"
    unfolding two sample_windows using sample_distances by auto
  show "\<forall>i \<in> windows 1 sample_core sample_alternate. elsewhere (1 / 4) (length [sample_alternate ! 0] + 1) i \<longrightarrow>
      32 * length sample_core \<le> 10 * distance sample_core sample_alternate i"
    unfolding two sample_windows using sample_distances sample_apart by (auto simp: sample_length)
qed (simp_all only: sample_rate sample_trim sample_ref_core sample_quiet,
  simp_all add: sample_alternate_def sample_clip_def sample_length min_reference_hashes_def)

theorem occurring_clip_matches_witness:
  "fm_offset (match_fingerprints sample_clip sample_alternate 10 14) = Some 4"
proof -
  have "f_div (f_of_int (int (length [sample_alternate ! 0]))) (1 / 4) = 4" by code_simp
  with occurring_clip_matches [OF sample_ok] show ?thesis by simp
qed

theorem match_is_the_best_window_witness:
  "\<exists>j \<in> {1, 2, 3}. 5 * distance sample_core sample_alternate j \<le> 992"
proof -
  note found = occurring_clip_found [OF sample_ok, THEN conjunct1]
  from match_is_the_best_window [OF found sample_ok(8)] show ?thesis
    unfolding Let_def sample_rate sample_trim sample_ref_core sample_windows by (auto simp: sample_length)
qed

end
