(* ===== verification/Playback.thy ===== *)
theory Playback
  imports Delivery User_State Json "HOL-Library.Product_Lexorder" "HOL-Library.Multiset"
begin

text \<open>
  The conversation before play: \<^verbatim>\<open>_catalog_state/playback.py\<close> (the dubs an item offers, their order, what
  a pick is remembered as, and where an episode sits) and the route over it, \<^verbatim>\<open>jellyfin/playback_info.py\<close>.
  A page's body (\<open>Resolution\<close> leaves it open) gets its fields here.

  The session id is an argument, and so is what the torrent lane's probe leaves when it runs out of its budget.
\<close>

section \<open>A page's body\<close>

record translation =
  tn_id :: ustr
  tn_label :: ustr

record show_episode =
  se_number :: int
  se_id :: ustr
  se_title :: ustr
  se_translations :: "translation list option"

record show_season =
  ss_number :: int
  ss_episodes :: "show_episode list"

record page_body =
  pb_translations :: "translation list"
  pb_seasons :: "show_season list option"
  pb_genres :: "ustr list"
  pb_people :: "ustr list"
  pb_styles :: "media_style set"

section \<open>The order of the dubs\<close>

definition max_translation_sources :: nat where "max_translation_sources = 8"

definition translation_label :: "translation list \<Rightarrow> ustr \<Rightarrow> ustr option" where
  "translation_label ts i = map_option tn_label (find (\<lambda>t. tn_id t = i) ts)"

text \<open>The loop that drops repeated labels and stops at the cap; \<^verbatim>\<open>seen_labels\<close> are the labels of \<open>acc\<close>.\<close>

fun collect_dubs :: "translation list \<Rightarrow> translation list \<Rightarrow> translation list" where
  "collect_dubs acc [] = acc"
| "collect_dubs acc (t # ts) =
     (if tn_label t \<in> set (map tn_label acc) then collect_dubs acc ts
      else if max_translation_sources \<le> length (acc @ [t]) then acc @ [t]
      else collect_dubs (acc @ [t]) ts)"

definition dub_rank :: "ustr option \<Rightarrow> int option \<Rightarrow> nat \<times> translation \<Rightarrow> nat \<times> nat" where
  "dub_rank remembered picked it =
     (case it of (i, t) \<Rightarrow>
        if picked = Some (int i) then (0, i)
        else if picked = None \<and> remembered = Some (tn_label t) then (0, i)
        else (1, i))"

definition ordered_translation_candidates ::
  "translation list \<Rightarrow> ustr option \<Rightarrow> int option \<Rightarrow> translation list" where
  "ordered_translation_candidates ts remembered picked =
     map snd (sort_key (dub_rank remembered picked) (enumerate 1 (collect_dubs [] ts)))"

section \<open>What an item offers\<close>

definition season_dubs :: "ustr \<Rightarrow> ustr \<Rightarrow> translation list \<Rightarrow> show_season \<Rightarrow> translation list" where
  "season_dubs tail i acc s =
     (case find (\<lambda>e. se_id e = tail \<or> se_id e = i) (ss_episodes s) of
        None \<Rightarrow> acc
      | Some e \<Rightarrow> (case se_translations e of None \<Rightarrow> acc | Some ts \<Rightarrow> if ts = [] then acc else ts))"

definition page_dubs :: "page_body page \<Rightarrow> ustr \<Rightarrow> translation list" where
  "page_dubs pg i =
     (let tail = remove_prefix (fst (split_wire_id (pg_id pg)) @ u '':'') i; body = pg_body pg in
      foldl (season_dubs tail i) (pb_translations body) (case pb_seasons body of None \<Rightarrow> [] | Some ss \<Rightarrow> ss))"

definition find_group ::
  "ucd \<Rightarrow> ('p, 'w, 't) upstream \<Rightarrow> ustr \<Rightarrow> ('p, 'w, 't) desk \<Rightarrow> ustr option \<times> ('p, 'w, 't) desk" where
  "find_group U E i d =
     (let (m, c) = current_sources (monotonic E (world d)) (owner d) in (episode_group_key U i m, d\<lparr>owner := c\<rparr>))"

definition playback_translations ::
  "ucd \<Rightarrow> (page_body, 'w, 't) upstream \<Rightarrow> user_state \<Rightarrow> ustr \<Rightarrow> (page_body, 'w, 't) desk \<Rightarrow>
   (translation list \<times> ustr option) \<times> (page_body, 'w, 't) desk" where
  "playback_translations U E us i d =
     (if is_group_key i then
        (let (pg, d1) = resolve_group_content E i d in
         (case pg of None \<Rightarrow> (([], None), d1) | Some p \<Rightarrow> ((pb_translations (pg_body p), None), d1)))
      else
        (let (k, d1) = find_group U E i d in
         case k of
           None \<Rightarrow> (([], None), d1)
         | Some k \<Rightarrow>
             (let (pg, d2) = resolve_group_content E k d1 in
              (case pg of None \<Rightarrow> (([], None), d2) | Some p \<Rightarrow> ((page_dubs p i, dub_for us k), d2)))))"

definition record_dub_choice ::
  "ucd \<Rightarrow> (page_body, 'w, 't) upstream \<Rightarrow> ustr \<Rightarrow> ustr \<Rightarrow> user_state \<times> (page_body, 'w, 't) desk \<Rightarrow>
   user_state \<times> (page_body, 'w, 't) desk" where
  "record_dub_choice U E i t ud =
     (case ud of (us, d) \<Rightarrow>
        if is_group_key i then (us, d)
        else
          (let ((ts, _), d1) = playback_translations U E us i d in
           case translation_label ts t of
             None \<Rightarrow> (us, d1)
           | Some label \<Rightarrow>
               (let (k, d2) = find_group U E i d1 in
                case k of None \<Rightarrow> (us, d2) | Some k \<Rightarrow> (remember_dub k label us, d2))))"

section \<open>Where an episode sits\<close>

record episode_pairing =
  ep_group_key :: ustr
  ep_provider :: ustr
  ep_series_title :: ustr
  ep_season :: show_season
  ep_episode :: show_episode
  ep_next :: "show_episode option"

definition played_episode_wire :: "ustr \<Rightarrow> ustr \<Rightarrow> ustr" where
  "played_episode_wire p e = (if starts_with (p @ u '':'') e then e else p @ u '':'' @ e)"

fun pair_in_season :: "ustr \<Rightarrow> ustr \<Rightarrow> show_episode list \<Rightarrow> (show_episode \<times> show_episode option) option" where
  "pair_in_season p i [] = None"
| "pair_in_season p i (e # es) =
     (if played_episode_wire p (se_id e) = i then Some (e, case es of [] \<Rightarrow> None | n # _ \<Rightarrow> Some n)
      else pair_in_season p i es)"

fun pair_in_seasons ::
  "ustr \<Rightarrow> ustr \<Rightarrow> show_season list \<Rightarrow> (show_season \<times> show_episode \<times> show_episode option) option" where
  "pair_in_seasons p i [] = None"
| "pair_in_seasons p i (s # ss) =
     (case pair_in_season p i (ss_episodes s) of Some (e, n) \<Rightarrow> Some (s, e, n) | None \<Rightarrow> pair_in_seasons p i ss)"

definition playback_episode_pair ::
  "ucd \<Rightarrow> (page_body, 'w, 't) upstream \<Rightarrow> ustr \<Rightarrow> (page_body, 'w, 't) desk \<Rightarrow>
   episode_pairing option \<times> (page_body, 'w, 't) desk" where
  "playback_episode_pair U E i d =
     (let (k, d1) = find_group U E i d in
      case k of
        None \<Rightarrow> (None, d1)
      | Some k \<Rightarrow>
          (let (pg, d2) = resolve_group_content E k d1 in
           (case pg of
              None \<Rightarrow> None
            | Some p \<Rightarrow>
                (let provider_id = fst (split_wire_id (pg_id p)) in
                 map_option (\<lambda>(s, e, n).
                     \<lparr>ep_group_key = k, ep_provider = provider_id, ep_series_title = pg_title p, ep_season = s,
                      ep_episode = e, ep_next = n\<rparr>)
                   (pair_in_seasons provider_id i (case pb_seasons (pg_body p) of None \<Rightarrow> [] | Some ss \<Rightarrow> ss))), d2)))"

section \<open>The route\<close>

record media_stream =
  ms_type :: ustr
  ms_index :: "int option"
  ms_display :: "ustr option"
  ms_delivery :: "ustr option"

definition video_stream :: media_stream where
  "video_stream = \<lparr>ms_type = u ''Video'', ms_index = None, ms_display = None, ms_delivery = None\<rparr>"

record media_source =
  src_id :: ustr
  src_container :: ustr
  src_streams :: "media_stream list"
  src_path :: ustr
  src_session :: ustr
  src_display :: "ustr option"

definition source_path :: "ustr \<Rightarrow> ustr" where
  "source_path i = u ''/Videos/'' @ i @ u ''/stream''"

text \<open>What the route reads of a stream.\<close>

record 's stream_view =
  sv_type :: "'s \<Rightarrow> ustr"
  sv_subtitle :: "'s \<Rightarrow> ustr option"

definition engine_media_streams :: "'s stream_view \<Rightarrow> ustr \<Rightarrow> 's \<Rightarrow> media_stream list" where
  "engine_media_streams V i s =
     (if sv_subtitle V s = None then [video_stream]
      else [video_stream, \<lparr>ms_type = u ''Subtitle'', ms_index = None, ms_display = None,
                           ms_delivery = Some (u ''/Stream/'' @ i @ u ''/vtt'')\<rparr>])"

definition dub_source :: "ustr \<Rightarrow> nat \<times> translation \<Rightarrow> media_source" where
  "dub_source i nt =
     (case nt of (n, t) \<Rightarrow>
        \<lparr>src_id = translation_source_id i (tn_id t), src_container = u ''m3u8'',
         src_streams = [video_stream,
           \<lparr>ms_type = u ''Audio'', ms_index = Some (int n), ms_display = Some (tn_label t), ms_delivery = None\<rparr>],
         src_path = source_path i, src_session = [], src_display = Some (tn_label t)\<rparr>)"

definition multi_source_media_sources :: "ustr \<Rightarrow> translation list \<Rightarrow> media_source list" where
  "multi_source_media_sources i ts = map (dub_source i) (enumerate 1 ts)"

text \<open>The picked index: the query, else the body of a POST; \<open>None\<close> is a body that is no JSON.\<close>

definition picked_index :: "int option \<Rightarrow> bool \<Rightarrow> json option \<Rightarrow> int option" where
  "picked_index query post body =
     (if query = None \<and> post then
        (case body of
           None \<Rightarrow> None
         | Some b \<Rightarrow> (case as_dict b of None \<Rightarrow> None | Some d \<Rightarrow> as_int (jget d (u ''AudioStreamIndex''))))
      else query)"

definition thin_source :: "'s stream_view \<Rightarrow> ustr \<Rightarrow> ustr \<Rightarrow> 's option \<Rightarrow> media_source" where
  "thin_source V i session s =
     \<lparr>src_id = i, src_container = (case s of None \<Rightarrow> u ''mp4'' | Some x \<Rightarrow> sv_type V x),
      src_streams = (case s of None \<Rightarrow> [video_stream] | Some x \<Rightarrow> engine_media_streams V i x),
      src_path = source_path i, src_session = session, src_display = None\<rparr>"

text \<open>
  \<^verbatim>\<open>playback_info\<close>: \<open>None\<close> inside \<open>Inr\<close> is the 404.  \<open>overrun\<close> says whether the probe of the torrent lane exceeds
  its budget, and what it leaves then.
\<close>

definition single_source ::
  "ucd \<Rightarrow> (page_body, 'w, 't) upstream \<Rightarrow> 's registry \<Rightarrow> 's stream_view \<Rightarrow> ustr \<Rightarrow> ustr \<Rightarrow>
   ((page_body, 'w, 't) stage \<Rightarrow> (page_body, 'w, 't) stage) option \<Rightarrow> (page_body, 'w, 't) stage \<Rightarrow>
   (wire_error + media_source list option) \<times> (page_body, 'w, 't) stage" where
  "single_source U E reg V i session overrun s =
     (case provider_for_item U E reg i s of
        (Inl e, s1) \<Rightarrow> (Inl e, s1)
      | (Inr p, s1) \<Rightarrow>
          (if p = Some (u ''yts'') \<and> overrun \<noteq> None then
             (Inr (Some [thin_source V i session None]), the overrun s1)
           else
             (case resolve_stream U E reg i None (Some S_playbackinfo) s1 of
                (Inl e, s2) \<Rightarrow> (Inl e, s2)
              | (Inr r, s2) \<Rightarrow> (Inr (map_option (\<lambda>x. [thin_source V i session (Some x)]) r), s2))))"

definition playback_info ::
  "ucd \<Rightarrow> (page_body, 'w, 't) upstream \<Rightarrow> 's registry \<Rightarrow> 's stream_view \<Rightarrow> user_state \<Rightarrow> ustr \<Rightarrow> ustr \<Rightarrow> int option \<Rightarrow>
   ((page_body, 'w, 't) stage \<Rightarrow> (page_body, 'w, 't) stage) option \<Rightarrow> (page_body, 'w, 't) stage \<Rightarrow>
   (wire_error + media_source list option) \<times> (page_body, 'w, 't) stage" where
  "playback_info U E reg V us i session picked overrun s =
     (let ((ts, remembered), d) = playback_translations U E us i (sg_desk s); s1 = s\<lparr>sg_desk := d\<rparr> in
      if length ts \<le> 1 then single_source U E reg V i session overrun s1
      else
        (Inr (Some (map (\<lambda>x. x\<lparr>src_session := session\<rparr>)
           (multi_source_media_sources i (ordered_translation_candidates ts remembered picked)))), s1))"

section \<open>The order, by reference\<close>

definition to_front :: "nat \<Rightarrow> 'a list \<Rightarrow> 'a list" where
  "to_front i xs = xs ! i # take i xs @ drop (Suc i) xs"

text \<open>The position that goes first: the picked one, or without a pick the first with the remembered label.\<close>

fun index_of :: "('a \<Rightarrow> bool) \<Rightarrow> 'a list \<Rightarrow> nat option" where
  "index_of P [] = None"
| "index_of P (x # xs) = (if P x then Some 0 else map_option Suc (index_of P xs))"

definition front :: "translation list \<Rightarrow> ustr option \<Rightarrow> int option \<Rightarrow> nat option" where
  "front ds remembered picked =
     (case picked of
        Some i \<Rightarrow> if 1 \<le> i \<and> i \<le> int (length ds) then Some (nat i - 1) else None
      | None \<Rightarrow> (case remembered of None \<Rightarrow> None | Some r \<Rightarrow> index_of (\<lambda>t. tn_label t = r) ds))"

lemma index_of_Some: "index_of P xs = Some i \<Longrightarrow> i < length xs \<and> P (xs ! i)"
  by (induction xs arbitrary: i) (auto split: if_splits)

lemma index_of_None: "index_of P xs = None \<longleftrightarrow> list_all (\<lambda>x. \<not> P x) xs"
  by (induction xs) auto

lemma collect_dubs_spec:
  assumes "distinct (map tn_label acc)" and "length acc < max_translation_sources"
  shows "distinct (map tn_label (collect_dubs acc ts)) \<and> length (collect_dubs acc ts) \<le> max_translation_sources \<and>
    set (collect_dubs acc ts) \<subseteq> set acc \<union> set ts"
  using assms
proof (induction ts arbitrary: acc)
  case (Cons t ts)
  then show ?case using Cons.IH [of acc] Cons.IH [of "acc @ [t]"] by (auto simp: image_iff)
qed simp

lemma collect_dubs_ok:
  "distinct (map tn_label (collect_dubs [] ts))" "length (collect_dubs [] ts) \<le> max_translation_sources"
  "set (collect_dubs [] ts) \<subseteq> set ts"
  using collect_dubs_spec [of "[]" ts] by (auto simp: max_translation_sources_def)

text \<open>A sort that puts one position first.\<close>

lemma sort_front:
  fixes f :: "nat \<times> 'a \<Rightarrow> nat \<times> nat"
  assumes "i < length ds" and "\<And>j. j < length ds \<Longrightarrow> f (Suc j, ds ! j) = (if j = i then 0 else 1, Suc j)"
  shows "map snd (sort_key f (enumerate 1 ds)) = to_front i ds"
proof -
  let ?zs = "enumerate 1 ds" and ?ys = "to_front i (enumerate 1 ds)"
  have split: "?zs = take i ?zs @ ?zs ! i # drop (Suc i) ?zs" using assms(1) by (simp add: id_take_nth_drop)
  have f: "f (?zs ! j) = (if j = i then 0 else 1, Suc j)" if "j < length ds" for j
    using assms(2) [OF that] that by (simp add: nth_enumerate_eq)
  have ys: "map f ?ys = (0, Suc i) # map (\<lambda>j. (1, Suc j)) ([0..<i] @ [Suc i..<length ds])"
    using assms(1) f by (auto simp: to_front_def take_map [symmetric] drop_map [symmetric] nth_append intro!: nth_equalityI)
  have "sort_key f ?zs = ?ys"
  proof (rule sort_key_inj_key_eq)
    show "mset ?zs = mset ?ys" by (subst split) (simp add: to_front_def)
    show "inj_on f (set ?zs)"
    proof (rule inj_onI)
      fix x y assume "x \<in> set ?zs" "y \<in> set ?zs" "f x = f y"
      then show "x = y" using f by (auto simp: in_set_conv_nth split: if_splits)
    qed
    show "sorted (map f ?ys)"
      using assms(1) unfolding ys by (auto simp: sorted_append sorted_iff_nth_mono nth_append)
  qed
  then show ?thesis by (simp add: to_front_def take_map [symmetric] drop_map [symmetric] nth_enumerate_eq assms(1))
qed

lemma sort_none:
  fixes f :: "nat \<times> 'a \<Rightarrow> nat \<times> nat"
  assumes "\<And>j. j < length ds \<Longrightarrow> f (Suc j, ds ! j) = (1, Suc j)"
  shows "map snd (sort_key f (enumerate 1 ds)) = ds"
proof -
  have "sort_key f (enumerate 1 ds) = enumerate 1 ds"
    by (rule sort_key_inj_key_eq) (auto simp: inj_on_def in_set_conv_nth sorted_iff_nth_mono nth_enumerate_eq assms)
  then show ?thesis by simp
qed

text \<open>C20: The picker's order is the deduplicated list with one dub moved to the front: the picked position, or without a
  pick the remembered label.\<close>

theorem candidates_spec:
  "ordered_translation_candidates ts remembered picked =
     (let ds = collect_dubs [] ts in case front ds remembered picked of None \<Rightarrow> ds | Some i \<Rightarrow> to_front i ds)"
proof -
  let ?ds = "collect_dubs [] ts" and ?f = "dub_rank remembered picked"
  have d: "distinct (map tn_label ?ds)" by (rule collect_dubs_ok)
  show ?thesis
  proof (cases "front ?ds remembered picked")
    case None
    have "?f (Suc j, ?ds ! j) = (1, Suc j)" if "j < length ?ds" for j
      using None that
      by (auto simp: front_def dub_rank_def index_of_None list_all_length split: option.splits if_splits)
    from sort_none [of ?ds ?f, OF this] show ?thesis using None by (simp add: ordered_translation_candidates_def)
  next
    case (Some i)
    have i: "i < length ?ds" using Some by (auto simp: front_def dest: index_of_Some split: option.splits if_splits)
    have "?f (Suc j, ?ds ! j) = (if j = i then 0 else 1, Suc j)" if j: "j < length ?ds" for j
    proof (cases picked)
      case None
      then obtain r where r: "remembered = Some r" "tn_label (?ds ! i) = r"
        using Some by (auto simp: front_def dest: index_of_Some split: option.splits)
      then have "tn_label (?ds ! j) = r \<longleftrightarrow> j = i" using nth_eq_iff_index_eq [OF d] i j by auto
      then show ?thesis using None r(1) by (auto simp: dub_rank_def)
    next
      fix k assume "picked = Some k"
      then show ?thesis using Some by (auto simp: front_def dub_rank_def split: if_splits)
    qed
    from sort_front [OF i, of ?f, OF this] show ?thesis using Some by (simp add: ordered_translation_candidates_def)
  qed
qed

section \<open>The picked source plays\<close>

definition audio_index :: "media_source \<Rightarrow> int option" where
  "audio_index x = Option.bind (find (\<lambda>m. ms_type m = u ''Audio'') (src_streams x)) ms_index"

lemma nth_sources:
  assumes "x \<in> set (multi_source_media_sources i ts)" and "audio_index x = Some n"
  shows "\<exists>k < length ts. n = int (Suc k) \<and> x = dub_source i (Suc k, ts ! k)"
  using assms by (auto simp: multi_source_media_sources_def in_set_conv_nth nth_enumerate_eq audio_index_def dub_source_def
      video_stream_def u_def)

lemma hd_sources: "ts \<noteq> [] \<Longrightarrow> hd (multi_source_media_sources i ts) = dub_source i (1, hd ts)"
  by (cases ts) (simp_all add: multi_source_media_sources_def)

lemma to_front_simps [simp]: "hd (to_front i xs) = xs ! i" "to_front i xs \<noteq> []" "i < length xs \<Longrightarrow> length (to_front i xs) = length xs"
  by (simp_all add: to_front_def)

lemma nth_to_front: "i < length xs \<Longrightarrow> k < length xs \<Longrightarrow> to_front i xs ! k = xs ! (if k = 0 then i else if k \<le> i then k - 1 else k)"
  by (cases k) (auto simp: to_front_def nth_append min_def)

lemma front_picked: "k < length ds \<Longrightarrow> front ds r (Some (int (Suc k))) = Some k"
  by (simp add: front_def)

text \<open>The client echoes the audio index of the source it was shown: with no dub remembered that source comes first.\<close>

theorem echoed_pick_plays_first:
  assumes "x \<in> set (multi_source_media_sources i (ordered_translation_candidates ts None None))"
    and "audio_index x = Some n"
  shows "src_id (hd (multi_source_media_sources i (ordered_translation_candidates ts None (Some n)))) = src_id x"
proof -
  let ?ds = "collect_dubs [] ts"
  have "ordered_translation_candidates ts None None = ?ds" by (simp add: candidates_spec front_def)
  then obtain k where k: "k < length ?ds" "n = int (Suc k)" "x = dub_source i (Suc k, ?ds ! k)"
    using nth_sources [OF assms] by auto
  have "ordered_translation_candidates ts None (Some n) = to_front k ?ds"
    unfolding candidates_spec Let_def k(2) front_picked [OF k(1)] by simp
  then show ?thesis by (simp add: hd_sources k(3) dub_source_def)
qed

text \<open>C16: With a dub remembered that is not the first, the indices shown are those of the reordered list and the echo is
  read in the list before it: every source up to the remembered one plays as another dub.\<close>

theorem remembered_dub_swaps_picks:
  assumes "x \<in> set (multi_source_media_sources i (ordered_translation_candidates ts (Some r) None))"
    and "audio_index x = Some n"
    and "index_of (\<lambda>t. tn_label t = r) (collect_dubs [] ts) = Some j" "0 < j" "n \<le> int j + 1"
  shows "src_display (hd (multi_source_media_sources i (ordered_translation_candidates ts (Some r) (Some n)))) \<noteq> src_display x"
proof -
  let ?ds = "collect_dubs [] ts"
  have j: "j < length ?ds" using index_of_Some [OF assms(3)] by simp
  have shown: "ordered_translation_candidates ts (Some r) None = to_front j ?ds"
    by (simp add: candidates_spec front_def assms(3))
  then obtain k where k: "k < length ?ds" "n = int (Suc k)" "x = dub_source i (Suc k, to_front j ?ds ! k)"
    using nth_sources [OF assms(1,2)] j by auto
  have "ordered_translation_candidates ts (Some r) (Some n) = to_front k ?ds"
    unfolding candidates_spec Let_def k(2) front_picked [OF k(1)] by simp
  then have hd: "src_display (hd (multi_source_media_sources i (ordered_translation_candidates ts (Some r) (Some n)))) =
      Some (tn_label (?ds ! k))"
    by (simp add: hd_sources dub_source_def)
  let ?k = "if k = 0 then j else k - 1"
  have "to_front j ?ds ! k = ?ds ! ?k" using nth_to_front [OF j k(1)] assms(5) k(2) by simp
  moreover have "?k < length ?ds" "?k \<noteq> k" using j k(1) assms(4) by auto
  then have "tn_label (?ds ! ?k) \<noteq> tn_label (?ds ! k)"
    using nth_eq_iff_index_eq [OF collect_dubs_ok(1), of ?k ts k] k(1) by simp
  ultimately show ?thesis unfolding hd k(3) by (simp add: dub_source_def)
qed

section \<open>A dub is remembered for the series\<close>

lemma dub_remembered: "dub_for (remember_dub k label us) k = Some label"
proof -
  let ?d = "dpop k (dub_memory us)"
  have "drop (length (?d @ [(k, label)]) - max_dub_memory) (?d @ [(k, label)]) =
      drop (Suc (length ?d) - max_dub_memory) ?d @ [(k, label)]"
    by (simp add: max_dub_memory_def)
  moreover have "dget (drop n ?d) k = None" for n
  proof -
    have "fst ` set (drop n ?d) \<subseteq> fst ` set ?d" by (rule image_mono [OF set_drop_subset])
    then have "k \<notin> fst ` set (drop n ?d)" by auto
    then show ?thesis by (simp only: map_of_eq_None_iff not_False_eq_True)
  qed
  ultimately show ?thesis by (simp add: dub_for_def remember_dub_def Let_def map_add_def)
qed

lemma remembered_first:
  assumes "label \<in> tn_label ` set (collect_dubs [] ts)"
  shows "tn_label (hd (ordered_translation_candidates ts (Some label) None)) = label"
proof (cases "index_of (\<lambda>t. tn_label t = label) (collect_dubs [] ts)")
  case None
  then show ?thesis using assms by (auto simp: index_of_None list_all_iff)
next
  case (Some j)
  then show ?thesis using index_of_Some [OF Some] by (simp add: candidates_spec front_def)
qed


section \<open>Where an episode sits\<close>

definition pairing_ok :: "ustr \<Rightarrow> ustr \<Rightarrow> show_season list \<Rightarrow> show_season \<times> show_episode \<times> show_episode option \<Rightarrow> bool" where
  "pairing_ok p i ss x \<longleftrightarrow>
     (case x of (s, e, n) \<Rightarrow> s \<in> set ss \<and>
        (\<exists>k < length (ss_episodes s). e = ss_episodes s ! k \<and> played_episode_wire p (se_id e) = i \<and>
           n = (if Suc k < length (ss_episodes s) then Some (ss_episodes s ! Suc k) else None)))"

lemma pair_in_season_spec:
  "case pair_in_season p i es of
     None \<Rightarrow> list_all (\<lambda>e. played_episode_wire p (se_id e) \<noteq> i) es
   | Some (e, n) \<Rightarrow> \<exists>k < length es. e = es ! k \<and> played_episode_wire p (se_id e) = i \<and>
       n = (if Suc k < length es then Some (es ! Suc k) else None)"
proof (induction es)
  case (Cons e es)
  show ?case
  proof (cases "played_episode_wire p (se_id e) = i")
    case True
    then show ?thesis by (auto intro!: exI [of _ 0] split: list.splits)
  next
    case False
    show ?thesis
    proof (cases "pair_in_season p i es")
      case None
      then show ?thesis using Cons False by simp
    next
      case (Some x)
      obtain f n where x: "x = (f, n)" by (cases x)
      obtain k where "k < length es" "f = es ! k" "played_episode_wire p (se_id f) = i"
        "n = (if Suc k < length es then Some (es ! Suc k) else None)"
        using Cons Some x by auto
      then show ?thesis using Some x False by (auto intro!: exI [of _ "Suc k"])
    qed
  qed
qed simp

text \<open>A played episode is found in its series exactly when some episode's wire id is the played one, and what follows is
  the next entry of its season.\<close>

theorem episode_pair_spec:
  "case pair_in_seasons p i ss of
     None \<Rightarrow> list_all (\<lambda>s. list_all (\<lambda>e. played_episode_wire p (se_id e) \<noteq> i) (ss_episodes s)) ss
   | Some x \<Rightarrow> pairing_ok p i ss x"
proof (induction ss)
  case (Cons s ss)
  then show ?case using pair_in_season_spec [of p i "ss_episodes s"]
    by (auto simp: pairing_ok_def split: option.splits prod.splits)
qed simp

section \<open>A series with three dubs\<close>

definition sample_dubs :: "translation list" where
  "sample_dubs = [\<lparr>tn_id = u ''1'', tn_label = u ''A''\<rparr>, \<lparr>tn_id = u ''2'', tn_label = u ''B''\<rparr>,
     \<lparr>tn_id = u ''3'', tn_label = u ''A''\<rparr>, \<lparr>tn_id = u ''4'', tn_label = u ''C''\<rparr>]"

definition sample_dub_list :: "translation list" where
  "sample_dub_list = [\<lparr>tn_id = u ''1'', tn_label = u ''A''\<rparr>, \<lparr>tn_id = u ''2'', tn_label = u ''B''\<rparr>, \<lparr>tn_id = u ''4'', tn_label = u ''C''\<rparr>]"

lemma sample_collected:
  "collect_dubs [] sample_dubs = sample_dub_list" "front sample_dub_list None None = None"
  "front sample_dub_list (Some (u ''C'')) None = Some 2"
  "to_front 2 sample_dub_list = [\<lparr>tn_id = u ''4'', tn_label = u ''C''\<rparr>, \<lparr>tn_id = u ''1'', tn_label = u ''A''\<rparr>, \<lparr>tn_id = u ''2'', tn_label = u ''B''\<rparr>]"
  "index_of (\<lambda>t. tn_label t = u ''C'') (collect_dubs [] sample_dubs) = Some 2"
  by code_simp+

theorem echoed_pick_plays_first_witness:
  "src_id (hd (multi_source_media_sources (u ''p:7:s1e1'') (ordered_translation_candidates sample_dubs None (Some 3)))) =
   u ''p:7:s1e1::4''"
proof -
  let ?x = "dub_source (u ''p:7:s1e1'') (Suc (Suc (Suc 0)), \<lparr>tn_id = u ''4'', tn_label = u ''C''\<rparr>)"
  have "ordered_translation_candidates sample_dubs None None = sample_dub_list"
    by (simp add: candidates_spec sample_collected)
  then have "?x \<in> set (multi_source_media_sources (u ''p:7:s1e1'') (ordered_translation_candidates sample_dubs None None))"
    by (simp add: sample_dub_list_def multi_source_media_sources_def)
  moreover have "audio_index ?x = Some 3" by (simp add: audio_index_def dub_source_def video_stream_def u_def)
  ultimately show ?thesis using echoed_pick_plays_first [of ?x "u ''p:7:s1e1''" sample_dubs 3]
    by (simp add: dub_source_def translation_source_id_def u_def)
qed

theorem remembered_dub_swaps_picks_witness:
  "src_display (hd (multi_source_media_sources (u ''p:7:s1e1'') (ordered_translation_candidates sample_dubs (Some (u ''C'')) (Some 2)))) \<noteq>
   Some (u ''A'')"
proof -
  let ?x = "dub_source (u ''p:7:s1e1'') (Suc (Suc 0), \<lparr>tn_id = u ''1'', tn_label = u ''A''\<rparr>)"
  have "?x \<in> set (multi_source_media_sources (u ''p:7:s1e1'') (ordered_translation_candidates sample_dubs (Some (u ''C'')) None))"
    by (simp add: candidates_spec sample_collected multi_source_media_sources_def)
  moreover have "audio_index ?x = Some 2" by (simp add: audio_index_def dub_source_def video_stream_def u_def)
  ultimately show ?thesis
    using remembered_dub_swaps_picks [of ?x "u ''p:7:s1e1''" sample_dubs "u ''C''" 2 2] sample_collected(5) by (simp add: dub_source_def)
qed

definition dub_page :: "page_body page" where
  "dub_page = \<lparr>pg_id = u ''b:2'', pg_form = Series, pg_title = u ''X'', pg_year = None, pg_country = None, pg_group_key = [],
     pg_body = \<lparr>pb_translations = sample_dubs,
       pb_seasons = Some [\<lparr>ss_number = 1, ss_episodes =
         [\<lparr>se_number = 1, se_id = u ''2:s1e1'', se_title = u ''E1'', se_translations = None\<rparr>,
          \<lparr>se_number = 2, se_id = u ''2:s1e2'', se_title = u ''E2'', se_translations = Some (tl sample_dubs)\<rparr>]\<rparr>],
       pb_genres = [], pb_people = [], pb_styles = {}\<rparr>\<rparr>"

definition dub_env :: "(page_body, nat, nat) upstream" where
  "dub_env =
     \<lparr>monotonic = (\<lambda>_. 10), wall = (\<lambda>n. n),
      content_of = (\<lambda>p. if p = u ''b'' then Some (\<lambda>e w. (Page dub_page, w)) else None),
      can_gate = (\<lambda>_. True), retry_pause = (\<lambda>w. w), block_russian = True, cache_content_s = 1800\<rparr>"

definition dub_desk :: "(page_body, nat, nat) desk" where
  "dub_desk =
     \<lparr>contents = new_cache 1800, blocklist = new_cache 1800, gated = new_cache 86400,
      lanes = lanes (sample_desk []), owner = owner (sample_desk [sample_card ''b'' ''2'']), world = 0\<rparr>"

definition no_marks :: user_state where
  "no_marks = \<lparr>favorites = {}, played = {}, dub_memory = []\<rparr>"

lemma sample_dub_steps:
  "fst (playback_translations ua_ucd dub_env no_marks (u ''b:2:s1e1'') dub_desk) = (sample_dubs, None)"
  "fst (find_group ua_ucd dub_env (u ''b:2:s1e1'') (snd (playback_translations ua_ucd dub_env no_marks (u ''b:2:s1e1'') dub_desk))) =
     Some (u ''g2:x'')"
  "fst (find_group ua_ucd dub_env (u ''b:2:s1e2'') (snd (record_dub_choice ua_ucd dub_env (u ''b:2:s1e1'') (u ''4'') (no_marks, dub_desk)))) =
     Some (u ''g2:x'')"
  "fst (playback_translations ua_ucd dub_env
     (fst (record_dub_choice ua_ucd dub_env (u ''b:2:s1e1'') (u ''4'') (no_marks, dub_desk))) (u ''b:2:s1e2'')
     (snd (record_dub_choice ua_ucd dub_env (u ''b:2:s1e1'') (u ''4'') (no_marks, dub_desk)))) = (tl sample_dubs, Some (u ''C''))"
  by code_simp+

lemma sample_dub_labels:
  "translation_label sample_dubs (u ''4'') = Some (u ''C'')"
  "list_ex (\<lambda>t. tn_label t = u ''C'') (collect_dubs [] (tl sample_dubs))"
  "\<not> is_group_key (u ''b:2:s1e1'')" "\<not> is_group_key (u ''b:2:s1e2'')"
  by code_simp+


end
