(* ===== verification/Recommend.thy ===== *)
theory Recommend
  imports Snapshot Playback
begin

text \<open>
  The recommendations, \<^verbatim>\<open>backend/cs_uk_api/recommend.py\<close>, and what feeds them, \<^verbatim>\<open>_catalog_state/warm.py\<close>: the
  profiles of the home groups, the warm-up that fills them, the taste signal, and the personal rows.

  Python sums left to right (3.11, the version the project is checked against).  A profile's sets are sets; the order in
  which Python walks one, which its string hashes decide, is the argument \<open>walk\<close>.  The language model's taste profile is
  an argument.
\<close>

section \<open>Square roots\<close>

text \<open>
  \<^verbatim>\<open>math.sqrt\<close> of a non-negative integer: the root scaled to more bits than a double has, with one more bit that tells
  whether anything was cut off, so that rounding it rounds the root.
\<close>

fun isqrt :: "nat \<Rightarrow> nat" where
  "isqrt n = (if n = 0 then 0 else (let r = 2 * isqrt (n div 4) in if Suc r * Suc r \<le> n then Suc r else r))"

declare isqrt.simps [simp del]

definition f_sqrt :: "nat \<Rightarrow> rat" where
  "f_sqrt n =
     (let m = n * 4 ^ 60; r = isqrt m in fl (of_nat (2 * r + (if r * r = m then 0 else 1)) / 2 ^ 61))"

definition py_sum :: "rat list \<Rightarrow> rat" where
  "py_sum xs = foldl f_add 0 xs"

section \<open>Profiles and scores\<close>

record item_profile =
  ip_genres :: "ustr set"
  ip_people :: "ustr set"
  ip_year :: "int option"
  ip_form :: "media_form option"
  ip_styles :: "media_style set"

type_synonym profiles = "(ustr, item_profile) pdict"

definition tokens :: "ucd \<Rightarrow> ustr list \<Rightarrow> ustr set" where
  "tokens U xs = set (map (\<lambda>x. lower U (strip U x)) (filter (\<lambda>x. strip U x \<noteq> []) xs))"

definition profile_from_content :: "ucd \<Rightarrow> page_body page \<Rightarrow> item_profile" where
  "profile_from_content U p =
     \<lparr>ip_genres = tokens U (pb_genres (pg_body p)), ip_people = tokens U (pb_people (pg_body p)), ip_year = pg_year p,
      ip_form = Some (pg_form p), ip_styles = pb_styles (pg_body p)\<rparr>"

definition genre_w :: rat where "genre_w = 1"
definition people_w :: rat where "people_w = fl (9 / 10)"
definition style_w :: rat where "style_w = fl (2 / 5)"
definition year_w :: rat where "year_w = fl (3 / 10)"
definition year_window :: int where "year_window = 2"
definition form_mismatch :: rat where "form_mismatch = 1 / 2"
definition query_match_boost :: rat where "query_match_boost = 1"
definition anchor_weights :: "rat list" where "anchor_weights = [1, fl (7 / 10), 1 / 2]"
definition max_anchors :: nat where "max_anchors = 3"
definition recommended_limit :: nat where "recommended_limit = 20"
definition similar_limit :: nat where "similar_limit = 10"
definition llm_idea_row_types :: "ustr list" where "llm_idea_row_types = [u ''llm_idea_1'', u ''llm_idea_2'']"

definition cosine :: "'a set \<Rightarrow> 'a set \<Rightarrow> rat" where
  "cosine a b =
     (if a = {} \<or> b = {} then 0 else f_div (f_of_int (int (card (a \<inter> b)))) (f_sqrt (card a * card b)))"

definition genre_cosine ::
  "(ustr set \<Rightarrow> ustr list) \<Rightarrow> ustr set \<Rightarrow> ustr set \<Rightarrow> (ustr, rat) pdict option \<Rightarrow> rat" where
  "genre_cosine walk a b weights =
     (if a = {} \<or> b = {} \<or> a \<inter> b = {} then 0
      else case weights of
        None \<Rightarrow> f_div (f_of_int (int (card (a \<inter> b)))) (f_sqrt (card a * card b))
      | Some ws \<Rightarrow>
          f_div (py_sum (map (\<lambda>g. case dget ws g of None \<Rightarrow> 1 | Some x \<Rightarrow> x) (walk (a \<inter> b)))) (f_sqrt (card a * card b)))"

definition year_proximity :: "int option \<Rightarrow> int option \<Rightarrow> rat" where
  "year_proximity a b = (case (a, b) of (Some x, Some y) \<Rightarrow> if \<bar>x - y\<bar> \<le> year_window then 1 else 0 | _ \<Rightarrow> 0)"

definition similarity ::
  "(ustr set \<Rightarrow> ustr list) \<Rightarrow> item_profile \<Rightarrow> item_profile \<Rightarrow> (ustr, rat) pdict option \<Rightarrow> rat" where
  "similarity walk a b weights =
     (let score = f_add (f_add (f_add
            (f_mul genre_w (genre_cosine walk (ip_genres a) (ip_genres b) weights))
            (f_mul people_w (cosine (ip_people a) (ip_people b))))
            (f_mul style_w (cosine (ip_styles a) (ip_styles b))))
            (f_mul year_w (year_proximity (ip_year a) (ip_year b)))
      in if ip_form a \<noteq> None \<and> ip_form b \<noteq> None \<and> ip_form a \<noteq> ip_form b then f_mul score form_mismatch else score)"

definition query_matches :: "ucd \<Rightarrow> item_profile \<Rightarrow> ustr \<Rightarrow> ustr \<Rightarrow> bool" where
  "query_matches U p t q =
     (let token = lower U (strip U q) in
      token \<noteq> [] \<and> (contains token (lower U t) \<or> (\<exists>g \<in> ip_genres p. contains token g)))"

definition query_boost :: "ucd \<Rightarrow> item_profile \<Rightarrow> ustr \<Rightarrow> ustr list \<Rightarrow> rat" where
  "query_boost U p t qs = foldl (\<lambda>boost q. if query_matches U p t q then f_add boost query_match_boost else boost) 0 qs"

definition taste_score ::
  "(ustr set \<Rightarrow> ustr list) \<Rightarrow> item_profile \<Rightarrow> (item_profile \<times> rat) list \<Rightarrow> (ustr, rat) pdict option \<Rightarrow> rat" where
  "taste_score walk p anchors weights =
     (let total_w = py_sum (map snd anchors) in
      if anchors = [] \<or> total_w \<le> 0 then 0
      else f_div (py_sum (map (\<lambda>(a, w). f_mul (similarity walk p a weights) w) anchors)) total_w)"

section \<open>The rows\<close>

record row_idea =
  ri_title :: ustr
  ri_genres :: "ustr list"
  ri_max :: int

record taste_profile =
  tp_weights :: "(ustr, rat) pdict"
  tp_tags :: "ustr list"
  tp_ideas :: "row_idea list"

text \<open>The candidates: every group once, every title of a year once, with a profile and not watched.\<close>

fun candidate_pool ::
  "ucd \<Rightarrow> profiles \<Rightarrow> ustr set \<Rightarrow> ustr set \<Rightarrow> (ustr \<times> int option) set \<Rightarrow> home_item list \<Rightarrow> (home_item \<times> item_profile) list" where
  "candidate_pool U profiles watched seen_keys seen_titles [] = []"
| "candidate_pool U profiles watched seen_keys seen_titles (it # rest) =
     (if hi_group_key it \<in> seen_keys then candidate_pool U profiles watched seen_keys seen_titles rest
      else
        (let keys = insert (hi_group_key it) seen_keys; title_key = (lower U (strip U (hi_title it)), hi_year it) in
         if title_key \<in> seen_titles then candidate_pool U profiles watched keys seen_titles rest
         else
           (case dget profiles (hi_group_key it) of
              None \<Rightarrow> candidate_pool U profiles watched keys (insert title_key seen_titles) rest
            | Some p \<Rightarrow>
                if hi_group_key it \<in> watched then candidate_pool U profiles watched keys (insert title_key seen_titles) rest
                else (it, p) # candidate_pool U profiles watched keys (insert title_key seen_titles) rest)))"

text \<open>\<^verbatim>\<open>sort(key=score, reverse=True)\<close>, which keeps equal scores in their order.\<close>

definition by_score :: "(home_item \<times> rat) list \<Rightarrow> (home_item \<times> rat) list" where
  "by_score xs = sort_key (\<lambda>x. - snd x) xs"

definition scored :: "(home_item \<times> item_profile \<Rightarrow> rat) \<Rightarrow> (home_item \<times> item_profile) list \<Rightarrow> (home_item \<times> rat) list" where
  "scored f pool = map (\<lambda>x. (fst x, f x)) pool"

definition top_positive :: "nat \<Rightarrow> (home_item \<times> rat) list \<Rightarrow> home_item list" where
  "top_positive n xs = take n (map fst (filter (\<lambda>x. 0 < snd x) (by_score xs)))"

definition title_recommended :: ustr where
  "title_recommended =
     [1056, 1077, 1082, 1086, 1084, 1077, 1085, 1076, 1086, 1074, 1072, 1085, 1086, 32, 1076, 1083, 1103, 32, 1090, 1077, 1073, 1077]"

definition title_similar :: "ustr \<Rightarrow> ustr" where
  "title_similar t = [1057, 1093, 1086, 1078, 1077, 32, 1085, 1072, 32] @ t"

definition row_of :: "ustr \<Rightarrow> ustr \<Rightarrow> home_item list \<Rightarrow> home_row list" where
  "row_of t k its = (if its = [] then [] else [\<lparr>hr_title = t, hr_type = k, hr_items = its\<rparr>])"

definition weights_of :: "taste_profile option \<Rightarrow> (ustr, rat) pdict option" where
  "weights_of tp = map_option tp_weights tp"

definition recommended_score ::
  "ucd \<Rightarrow> (ustr set \<Rightarrow> ustr list) \<Rightarrow> (item_profile \<times> rat) list \<Rightarrow> ustr list \<Rightarrow> taste_profile option \<Rightarrow> home_item \<times> item_profile \<Rightarrow> rat" where
  "recommended_score U walk anchors qs tp x =
     f_add (taste_score walk (snd x) anchors (weights_of tp))
       (query_boost U (snd x) (hi_title (fst x)) (qs @ (case tp of None \<Rightarrow> [] | Some p \<Rightarrow> tp_tags p)))"

definition idea_rows ::
  "(ustr set \<Rightarrow> ustr list) \<Rightarrow> (home_item \<times> item_profile) list \<Rightarrow> (item_profile \<times> rat) list \<Rightarrow> taste_profile \<Rightarrow> home_row list" where
  "idea_rows walk pool anchors tp =
     concat (map (\<lambda>(kind, idea).
         row_of (ri_title idea) kind (py_take (ri_max idea) (map fst (by_score (scored
           (\<lambda>x. taste_score walk (snd x) anchors (Some (tp_weights tp)))
           (filter (\<lambda>x. set (ri_genres idea) \<inter> ip_genres (snd x) \<noteq> {}) pool))))))
       (zip llm_idea_row_types (tp_ideas tp)))"

definition build_recommendation_rows ::
  "ucd \<Rightarrow> (ustr set \<Rightarrow> ustr list) \<Rightarrow> home_item list \<Rightarrow> profiles \<Rightarrow> ustr set \<Rightarrow> (item_profile \<times> rat) list \<Rightarrow>
   (item_profile \<times> ustr) option \<Rightarrow> ustr list \<Rightarrow> taste_profile option \<Rightarrow> home_row list" where
  "build_recommendation_rows U walk its profiles watched anchors similar qs tp =
     (let pool = candidate_pool U profiles watched {} {} its in
      (if (anchors \<noteq> [] \<or> qs \<noteq> []) \<and> pool \<noteq> [] then
         row_of title_recommended (u ''recommended'')
           (top_positive recommended_limit (scored (recommended_score U walk anchors qs tp) pool))
       else []) @
      (case similar of
         None \<Rightarrow> []
       | Some (p, t) \<Rightarrow>
           row_of (title_similar t) (u ''similar'')
             (top_positive similar_limit (scored (\<lambda>x. similarity walk (snd x) p None) pool))) @
      (case tp of None \<Rightarrow> [] | Some t \<Rightarrow> idea_rows walk pool anchors t))"

section \<open>The taste signal\<close>

record taste_signal =
  sg_anchors :: "(item_profile \<times> rat) list"
  sg_similar :: "(item_profile \<times> ustr) option"
  sg_recency :: nat

definition signal_step ::
  "ucd \<Rightarrow> sources_map \<Rightarrow> profiles \<Rightarrow> (ustr, home_item) pdict \<Rightarrow> taste_signal \<Rightarrow> ustr \<Rightarrow> taste_signal" where
  "signal_step U m profiles by_key sg i =
     (case Option.bind (episode_group_key U i m) (\<lambda>k. map_option (Pair k) (dget profiles k)) of
        None \<Rightarrow> sg
      | Some (k, p) \<Rightarrow>
          \<lparr>sg_anchors = (if sg_recency sg < length anchor_weights
             then sg_anchors sg @ [(p, anchor_weights ! sg_recency sg)] else sg_anchors sg),
           sg_similar = (case (sg_similar sg, dget by_key k) of (None, Some it) \<Rightarrow> Some (p, hi_title it) | (x, _) \<Rightarrow> x),
           sg_recency = sg_recency sg + 1\<rparr>)"

definition taste_signals :: "ucd \<Rightarrow> sources_map \<Rightarrow> profiles \<Rightarrow> home_item list \<Rightarrow> resume \<Rightarrow> taste_signal" where
  "taste_signals U m profiles its r =
     foldl (signal_step U m profiles (foldl (\<lambda>d it. dset (hi_group_key it) it d) [] its))
       \<lparr>sg_anchors = [], sg_similar = None, sg_recency = 0\<rparr> (dkeys (recent_entries max_anchors r))"

definition recommendation_rows ::
  "ucd \<Rightarrow> (ustr set \<Rightarrow> ustr list) \<Rightarrow> sources_map \<Rightarrow> profiles \<Rightarrow> resume \<Rightarrow> taste_profile option \<Rightarrow> home_row list \<Rightarrow> home_row list" where
  "recommendation_rows U walk m profiles r tp rows =
     (let its = concat (map hr_items rows) in
      if its = [] \<or> profiles = [] then []
      else
        (let sg = taste_signals U m profiles its r in
         if sg_anchors sg = [] \<and> queries r = [] \<and> \<not> (case tp of None \<Rightarrow> False | Some t \<Rightarrow> tp_ideas t \<noteq> []) then []
         else build_recommendation_rows U walk its profiles (watched_group_keys U r m) (sg_anchors sg) (sg_similar sg)
                (queries r) tp))"

section \<open>The warm-up\<close>

record ('w, 't) warm_state =
  ws_profiles :: profiles
  ws_desk :: "(page_body, 'w, 't) desk"
  ws_added :: bool

definition warm_one :: "ucd \<Rightarrow> (page_body, 'w, 't) upstream \<Rightarrow> ('w, 't) warm_state \<Rightarrow> ustr \<Rightarrow> ('w, 't) warm_state" where
  "warm_one U E s k =
     (if k \<in> set (dkeys (ws_profiles s)) then s
      else
        (let (pg, d) = resolve_group_content E k (ws_desk s) in
         case pg of
           None \<Rightarrow> s\<lparr>ws_desk := d\<rparr>
         | Some p \<Rightarrow> s\<lparr>ws_profiles := dset k (profile_from_content U p) (ws_profiles s), ws_desk := d, ws_added := True\<rparr>))"

definition home_groups :: "home_row list \<Rightarrow> ustr list" where
  "home_groups rows = sorted_list_of_set (hi_group_key ` set (concat (map hr_items rows)))"

text \<open>
  \<^verbatim>\<open>_warm_profiles\<close>: the groups \<open>due\<close> finish within the budget, the others later; \<^verbatim>\<open>asyncio.wait\<close> cancels nothing.
  The flag tells whether the home cache was invalidated.
\<close>

definition warm_profiles ::
  "ucd \<Rightarrow> (page_body, 'w, 't) upstream \<Rightarrow> (ustr \<Rightarrow> bool) \<Rightarrow> home_row list \<Rightarrow> profiles \<Rightarrow> (page_body, 'w, 't) desk \<Rightarrow>
   bool \<times> profiles \<times> (page_body, 'w, 't) desk" where
  "warm_profiles U E due rows profiles d =
     (let s = foldl (warm_one U E) \<lparr>ws_profiles = profiles, ws_desk = d, ws_added = False\<rparr> (filter due (home_groups rows));
          d1 = (if ws_added s then (ws_desk s)\<lparr>owner := invalidate (owner (ws_desk s))\<rparr> else ws_desk s);
          late = foldl (warm_one U E) (s\<lparr>ws_desk := d1\<rparr>) (filter (\<lambda>k. \<not> due k) (home_groups rows))
      in (ws_added s, ws_profiles late, ws_desk late))"

section \<open>The candidates\<close>

definition title_key :: "ucd \<Rightarrow> home_item \<Rightarrow> ustr \<times> int option" where
  "title_key U it = (lower U (strip U (hi_title it)), hi_year it)"

definition pool_ok ::
  "ucd \<Rightarrow> profiles \<Rightarrow> ustr set \<Rightarrow> home_item list \<Rightarrow> (home_item \<times> item_profile) list \<Rightarrow> bool" where
  "pool_ok U profiles watched its pool \<longleftrightarrow>
     set (map fst pool) \<subseteq> set its \<and> distinct (map (hi_group_key \<circ> fst) pool) \<and> distinct (map (title_key U \<circ> fst) pool) \<and>
     list_all (\<lambda>(it, p). dget profiles (hi_group_key it) = Some p \<and> hi_group_key it \<notin> watched) pool"

lemma candidate_pool_spec:
  "pool_ok U profiles watched its (candidate_pool U profiles watched ks ts its) \<and>
   (hi_group_key \<circ> fst) ` set (candidate_pool U profiles watched ks ts its) \<inter> ks = {} \<and>
   (title_key U \<circ> fst) ` set (candidate_pool U profiles watched ks ts its) \<inter> ts = {}"
proof (induction its arbitrary: ks ts)
  case (Cons it its)
  let ?k = "hi_group_key it" and ?t = "title_key U it"
  have fold: "(lower U (strip U (hi_title it)), hi_year it) = ?t" by (simp add: title_key_def)
  consider "?k \<in> ks" | "?k \<notin> ks" "?t \<in> ts" | "?k \<notin> ks" "?t \<notin> ts" by blast
  then show ?case
  proof cases
    case 1
    then show ?thesis using Cons.IH [of ks ts] by (auto simp: pool_ok_def)
  next
    case 2
    then show ?thesis using Cons.IH [of "insert ?k ks" ts] by (auto simp: pool_ok_def Let_def fold)
  next
    case 3
    then show ?thesis using Cons.IH [of "insert ?k ks" "insert ?t ts"]
      by (auto simp: pool_ok_def Let_def fold split: option.splits)
  qed
qed (simp add: pool_ok_def)

lemmas pool_facts = candidate_pool_spec [THEN conjunct1, unfolded pool_ok_def]

section \<open>The best of the pool\<close>

definition best_of ::
  "nat \<Rightarrow> (home_item \<times> item_profile \<Rightarrow> rat) \<Rightarrow> (home_item \<times> item_profile) list \<Rightarrow> (home_item \<times> item_profile) list \<Rightarrow> bool" where
  "best_of n f pool xs \<longleftrightarrow>
     set xs \<subseteq> set pool \<and> distinct xs \<and> length xs \<le> n \<and> list_all (\<lambda>x. 0 < f x) xs \<and>
     sorted_wrt (\<lambda>x y. f y \<le> f x) xs \<and>
     (\<forall>y \<in> set pool - set xs. 0 < f y \<longrightarrow> length xs = n \<and> (\<forall>x \<in> set xs. f y \<le> f x))"

lemma map_sort_key: "map g (sort_key (\<lambda>x. f (g x)) xs) = sort_key f (map g xs)"
proof -
  have ins: "map g (insort_key (\<lambda>x. f (g x)) x ys) = insort_key f (g x) (map g ys)" for x ys
    by (induction ys) auto
  show ?thesis by (induction xs) (simp_all add: ins)
qed

lemma by_score_scored: "by_score (scored f pool) = scored f (sort_key (\<lambda>x. - f x) pool)"
  using map_sort_key [of "\<lambda>x. (fst x, f x)" "\<lambda>x. - snd x" pool] by (simp add: by_score_def scored_def)

lemma sorted_descending: "sorted_wrt (\<lambda>x y. f y \<le> f x) (sort_key (\<lambda>x. - f x) xs)" for f :: "'a \<Rightarrow> rat"
  using sorted_sort_key [of "\<lambda>x. - f x" xs] by (simp add: sorted_map)

lemma top_positive_best:
  assumes "distinct pool"
  shows "\<exists>xs. top_positive n (scored f pool) = map fst xs \<and> best_of n f pool xs"
proof -
  let ?good = "filter (\<lambda>x. 0 < f x) (sort_key (\<lambda>x. - f x) pool)"
  let ?xs = "take n ?good"
  have "top_positive n (scored f pool) = map fst ?xs"
    by (simp add: top_positive_def by_score_scored) (simp add: scored_def filter_map take_map comp_def)
  moreover have sorted: "sorted_wrt (\<lambda>x y. f y \<le> f x) ?good" using sorted_descending by (rule sorted_wrt_filter)
  have "best_of n f pool ?xs"
    unfolding best_of_def
  proof (intro conjI ballI impI)
    show "set ?xs \<subseteq> set pool" by (auto dest: in_set_takeD)
    show "distinct ?xs" using assms by (simp add: distinct_sort)
    show "list_all (\<lambda>x. 0 < f x) ?xs" by (auto simp: list_all_iff dest: in_set_takeD)
    show "sorted_wrt (\<lambda>x y. f y \<le> f x) ?xs" using sorted by (rule sorted_wrt_take)
    fix y assume y: "y \<in> set pool - set ?xs" "0 < f y"
    then have "y \<in> set ?good" by simp
    then have late: "y \<in> set (drop n ?good)" using y(1) by (metis DiffD2 UnE append_take_drop_id set_append)
    then show "length ?xs = n" by (cases "n \<le> length ?good") auto
    show "f y \<le> f x" if "x \<in> set ?xs" for x
      using sorted_wrt_append [of "\<lambda>x y. f y \<le> f x" ?xs "drop n ?good"] sorted that late by simp
  qed simp
  ultimately show ?thesis by blast
qed

section \<open>The rows hold the best candidates\<close>

definition picks_ok :: "ucd \<Rightarrow> profiles \<Rightarrow> ustr set \<Rightarrow> home_item list \<Rightarrow> home_row \<Rightarrow> bool" where
  "picks_ok U profiles watched its row \<longleftrightarrow>
     hr_items row \<noteq> [] \<and> set (hr_items row) \<subseteq> set its \<and> distinct (map hi_group_key (hr_items row)) \<and>
     distinct (map (title_key U) (hr_items row)) \<and>
     list_all (\<lambda>it. hi_group_key it \<in> set (dkeys profiles) \<and> hi_group_key it \<notin> watched) (hr_items row)"

lemma picks_of_pool:
  assumes "pool_ok U profiles watched its pool" and "set xs \<subseteq> set pool" "distinct xs" and "row \<in> set (row_of t k (map fst xs))"
  shows "picks_ok U profiles watched its row \<and> hr_type row = k \<and> hr_items row = map fst xs"
proof -
  have row: "row = \<lparr>hr_title = t, hr_type = k, hr_items = map fst xs\<rparr>" "xs \<noteq> []"
    using assms(4) by (auto simp: row_of_def split: if_splits)
  have ok: "distinct (map (hi_group_key \<circ> fst) pool)" "distinct (map (title_key U \<circ> fst) pool)" "set (map fst pool) \<subseteq> set its"
    "\<forall>(it, p) \<in> set pool. dget profiles (hi_group_key it) = Some p \<and> hi_group_key it \<notin> watched"
    using assms(1) by (simp_all add: pool_ok_def list_all_iff)
  have "distinct (map (hi_group_key \<circ> fst) xs)" "distinct (map (title_key U \<circ> fst) xs)"
    using ok(1,2) assms(2,3) inj_on_subset by (simp_all only: distinct_map) blast+
  moreover have "set (map fst xs) \<subseteq> set its" using ok(3) image_mono [OF assms(2), of fst] by simp
  moreover have "hi_group_key it \<in> set (dkeys profiles) \<and> hi_group_key it \<notin> watched" if it: "it \<in> set (map fst xs)" for it
  proof -
    obtain p where "(it, p) \<in> set pool" using it assms(2) by auto
    then have "dget profiles (hi_group_key it) = Some p" "hi_group_key it \<notin> watched" using ok(4) by auto
    then show ?thesis by (metis map_of_SomeD image_eqI fst_conv list.set_map)
  qed
  then have "list_all (\<lambda>it. hi_group_key it \<in> set (dkeys profiles) \<and> hi_group_key it \<notin> watched) (map fst xs)"
    by (simp only: list_all_iff) blast
  ultimately show ?thesis unfolding picks_ok_def row(1) using row(2) by simp
qed

lemma recommended_rows_ok:
  "list_all (picks_ok U profiles watched its) (build_recommendation_rows U walk its profiles watched anchors similar qs tp) \<and>
   subseq (map hr_type (build_recommendation_rows U walk its profiles watched anchors similar qs tp))
     (u ''recommended'' # u ''similar'' # llm_idea_row_types)"
proof -
  let ?pool = "candidate_pool U profiles watched {} {} its"
  have ok: "pool_ok U profiles watched its ?pool" using candidate_pool_spec by blast
  then have d: "distinct ?pool" by (auto simp: pool_ok_def distinct_map)
  have one: "list_all (picks_ok U profiles watched its) (row_of t k (map fst xs)) \<and> subseq (map hr_type (row_of t k (map fst xs))) [k]"
    if "set xs \<subseteq> set ?pool" "distinct xs" for t k xs
    using picks_of_pool [OF ok that] by (auto simp: list_all_iff) (simp add: row_of_def)
  have best: "list_all (picks_ok U profiles watched its) (row_of t k (top_positive n (scored f ?pool))) \<and>
      subseq (map hr_type (row_of t k (top_positive n (scored f ?pool)))) [k]" for t k n f
    using top_positive_best [OF d, of n f] one by (auto simp: best_of_def)
  have ideas: "list_all (picks_ok U profiles watched its) (idea_rows walk ?pool anchors t) \<and>
      subseq (map hr_type (idea_rows walk ?pool anchors t)) llm_idea_row_types" for t
  proof -
    let ?f = "\<lambda>x. taste_score walk (snd x) anchors (Some (tp_weights t))"
    let ?row = "\<lambda>(kind, idea). row_of (ri_title idea) kind (py_take (ri_max idea) (map fst (by_score (scored ?f
      (filter (\<lambda>x. set (ri_genres idea) \<inter> ip_genres (snd x) \<noteq> {}) ?pool)))))"
    have row: "list_all (picks_ok U profiles watched its) (?row x) \<and> subseq (map hr_type (?row x)) [fst x]" for x
    proof -
      obtain kind idea where x: "x = (kind, idea)" by (cases x)
      let ?xs = "py_take (ri_max idea) (sort_key (\<lambda>x. - ?f x) (filter (\<lambda>x. set (ri_genres idea) \<inter> ip_genres (snd x) \<noteq> {}) ?pool))"
      have "map fst (scored ?f ys) = map fst ys" for ys by (simp add: scored_def)
      then have "?row x = row_of (ri_title idea) kind (map fst ?xs)"
        by (simp add: x by_score_scored py_take_def take_map)
      moreover have "distinct ?xs" using d by (simp add: py_take_def distinct_sort)
      moreover have "set ?xs \<subseteq> set ?pool" using py_take_members [of "ri_max idea"] by fastforce
      ultimately show ?thesis using one x by simp
    qed
    have "subseq (map hr_type (concat (map ?row (zip llm_idea_row_types (tp_ideas t))))) (map fst (zip llm_idea_row_types (tp_ideas t)))"
      by (rule subseq_rows) (use row in blast)
    moreover have "subseq (map fst (zip ks ys)) ks" for ks :: "ustr list" and ys :: "row_idea list"
      by (simp only: map_fst_zip_take) (rule prefix_imp_subseq [OF take_is_prefix])
    ultimately have "subseq (map hr_type (idea_rows walk ?pool anchors t)) llm_idea_row_types"
      unfolding idea_rows_def by (rule subseq_order.trans)
    then show ?thesis using row by (auto simp: idea_rows_def list_all_iff)
  qed
  let ?r1 = "if (anchors \<noteq> [] \<or> qs \<noteq> []) \<and> ?pool \<noteq> [] then row_of title_recommended (u ''recommended'')
      (top_positive recommended_limit (scored (recommended_score U walk anchors qs tp) ?pool)) else []"
  let ?r2 = "case similar of None \<Rightarrow> [] | Some (p, t) \<Rightarrow> row_of (title_similar t) (u ''similar'')
      (top_positive similar_limit (scored (\<lambda>x. similarity walk (snd x) p None) ?pool))"
  let ?r3 = "case tp of None \<Rightarrow> [] | Some t \<Rightarrow> idea_rows walk ?pool anchors t"
  have r1: "list_all (picks_ok U profiles watched its) ?r1 \<and> subseq (map hr_type ?r1) [u ''recommended'']" using best by simp
  have r2: "list_all (picks_ok U profiles watched its) ?r2 \<and> subseq (map hr_type ?r2) [u ''similar'']"
    using best by (auto split: option.splits)
  have r3: "list_all (picks_ok U profiles watched its) ?r3 \<and> subseq (map hr_type ?r3) llm_idea_row_types"
    using ideas by (auto split: option.splits)
  have "subseq (map hr_type ?r1 @ map hr_type ?r2 @ map hr_type ?r3) ([u ''recommended''] @ [u ''similar''] @ llm_idea_row_types)"
    using r1 r2 r3 by (intro list_emb_append_mono) blast+
  then show ?thesis using r1 r2 r3 by (simp add: build_recommendation_rows_def Let_def)
qed

text \<open>The personal rows show only home cards of the viewer's taste: with a profile, never a watched group, no group and
  no title of a year twice in a row, no row empty; the rows come in a fixed order, no kind twice.\<close>

theorem recommendations_ok:
  "let rows = build_recommendation_rows U walk its profiles watched anchors similar qs tp in
   list_all (picks_ok U profiles watched its) rows \<and>
   subseq (map hr_type rows) (u ''recommended'' # u ''similar'' # llm_idea_row_types)"
  unfolding Let_def by (rule recommended_rows_ok)

text \<open>C10: The recommended row is the best twenty: the candidates of the highest positive score, the best first.\<close>

theorem recommended_are_best:
  "\<exists>xs. best_of recommended_limit (recommended_score U walk anchors qs tp) (candidate_pool U profiles watched {} {} its) xs \<and>
     filter (\<lambda>row. hr_type row = u ''recommended'')
       (build_recommendation_rows U walk its profiles watched anchors similar qs tp) =
     (if anchors = [] \<and> qs = [] then [] else row_of title_recommended (u ''recommended'') (map fst xs))"
proof -
  let ?pool = "candidate_pool U profiles watched {} {} its" and ?f = "recommended_score U walk anchors qs tp"
  have "distinct ?pool" using candidate_pool_spec [of U profiles watched its "{}" "{}"] by (auto simp: pool_ok_def distinct_map)
  from top_positive_best [OF this, of recommended_limit ?f]
  obtain xs where xs: "top_positive recommended_limit (scored ?f ?pool) = map fst xs" "best_of recommended_limit ?f ?pool xs" by blast
  have kind: "filter (\<lambda>row. hr_type row = u ''recommended'') (row_of t k its') = (if k = u ''recommended'' then row_of t k its' else [])"
    for t k its' by (simp add: row_of_def)
  have "filter (\<lambda>row. hr_type row = u ''recommended'') (idea_rows walk ?pool anchors t) = []" for t
    by (auto simp: idea_rows_def filter_concat kind llm_idea_row_types_def dest!: set_zip_leftD)
  moreover have "?pool = [] \<Longrightarrow> xs = []" using xs(2) by (simp add: best_of_def)
  ultimately have "filter (\<lambda>row. hr_type row = u ''recommended'') (build_recommendation_rows U walk its profiles watched anchors similar qs tp) =
      (if anchors = [] \<and> qs = [] then [] else row_of title_recommended (u ''recommended'') (map fst xs))"
    using xs(1) by (auto simp: build_recommendation_rows_def Let_def kind row_of_def split: option.splits)
  with xs(2) show ?thesis by blast
qed

section \<open>An empty taste profile changes nothing\<close>

definition walk_ok :: "(ustr set \<Rightarrow> ustr list) \<Rightarrow> bool" where
  "walk_ok walk \<longleftrightarrow> (\<forall>A. finite A \<longrightarrow> distinct (walk A) \<and> set (walk A) = A)"

definition few_genres :: "item_profile \<Rightarrow> bool" where
  "few_genres p \<longleftrightarrow> finite (ip_genres p) \<and> card (ip_genres p) < 2 ^ 53"

lemma sum_ones: "n < 2 ^ 53 \<Longrightarrow> foldl f_add 0 (replicate n 1) = of_int (int n)"
proof (induction n)
  case (Suc n)
  have "replicate (Suc n) (1::rat) = replicate n 1 @ [1]" by (simp add: replicate_append_same)
  then have "foldl f_add 0 (replicate (Suc n) 1) = f_add (foldl f_add 0 (replicate n 1)) 1" by (simp del: replicate.simps)
  also have "\<dots> = f_add (of_int (int n)) 1" using Suc by simp
  also have "\<dots> = f_of_int (int (Suc n))" by (simp add: f_add_def f_of_int_def add.commute)
  also have "\<dots> = of_int (int (Suc n))" using Suc.prems by (intro f_of_int_exact) simp
  finally show ?case .
qed simp

lemma genre_cosine_empty:
  assumes "walk_ok walk" and "finite a" and "card a < 2 ^ 53"
  shows "genre_cosine walk a b (Some []) = genre_cosine walk a b None"
proof -
  let ?w = "walk (a \<inter> b)"
  have w: "distinct ?w" "set ?w = a \<inter> b" using assms(1,2) by (simp_all add: walk_ok_def)
  have n: "length ?w = card (a \<inter> b)" using distinct_card [OF w(1)] w(2) by simp
  have "card (a \<inter> b) \<le> card a" using assms(2) by (simp add: card_mono)
  with assms(3) have small: "card (a \<inter> b) < 2 ^ 53" by linarith
  have "map (\<lambda>g. case dget ([] :: (ustr, rat) pdict) g of None \<Rightarrow> 1 | Some x \<Rightarrow> x) ?w = replicate (card (a \<inter> b)) 1"
    by (simp add: n [symmetric] map_replicate_const)
  then have "py_sum (map (\<lambda>g. case dget ([] :: (ustr, rat) pdict) g of None \<Rightarrow> 1 | Some x \<Rightarrow> x) ?w) = f_of_int (int (card (a \<inter> b)))"
    using small by (simp add: py_sum_def sum_ones f_of_int_exact)
  then show ?thesis by (simp add: genre_cosine_def)
qed

lemma taste_score_empty:
  "walk_ok walk \<Longrightarrow> few_genres p \<Longrightarrow> taste_score walk p anchors (Some []) = taste_score walk p anchors None"
proof -
  assume "walk_ok walk" "few_genres p"
  then have "similarity walk p a (Some []) = similarity walk p a None" for a
    unfolding similarity_def few_genres_def by (simp only: genre_cosine_empty)
  then have "(\<lambda>(a, w). f_mul (similarity walk p a (Some [])) w) = (\<lambda>(a, w). f_mul (similarity walk p a None) w)"
    by (intro ext) (simp only: split_def)
  then show "taste_score walk p anchors (Some []) = taste_score walk p anchors None" by (simp only: taste_score_def)
qed

text \<open>A taste profile with nothing in it, once the language model answers one, gives the rows of no profile at all.\<close>

theorem empty_profile_changes_nothing:
  assumes "walk_ok walk" and "list_all (few_genres \<circ> snd) profiles"
  shows "build_recommendation_rows U walk its profiles watched anchors similar qs
      (Some \<lparr>tp_weights = [], tp_tags = [], tp_ideas = []\<rparr>) =
    build_recommendation_rows U walk its profiles watched anchors similar qs None"
proof -
  let ?pool = "candidate_pool U profiles watched {} {} its"
  have "few_genres (snd x)" if "x \<in> set ?pool" for x
  proof -
    have "dget profiles (hi_group_key (fst x)) = Some (snd x)"
      using candidate_pool_spec [of U profiles watched its "{}" "{}"] that by (fastforce simp: pool_ok_def list_all_iff)
    then show ?thesis using assms(2) by (fastforce simp: list_all_iff dest: map_of_SomeD)
  qed
  then have "scored (recommended_score U walk anchors qs (Some \<lparr>tp_weights = [], tp_tags = [], tp_ideas = []\<rparr>)) ?pool =
      scored (recommended_score U walk anchors qs None) ?pool"
    using assms(1) by (simp add: scored_def recommended_score_def weights_of_def taste_score_empty)
  then show ?thesis by (simp add: build_recommendation_rows_def idea_rows_def Let_def)
qed

section \<open>The personal rows open\<close>

lemma recommendation_rows_home_cards: "shows_home_cards (recommendation_rows U walk m profiles r tp)"
  unfolding shows_home_cards_def
proof (intro allI ballI)
  fix rows row assume row: "row \<in> set (recommendation_rows U walk m profiles r tp rows)"
  let ?its = "concat (map hr_items rows)"
  let ?sg = "taste_signals U m profiles ?its r"
  have "row \<in> set (build_recommendation_rows U walk ?its profiles (watched_group_keys U r m) (sg_anchors ?sg) (sg_similar ?sg) (queries r) tp)"
    using row by (auto simp: recommendation_rows_def Let_def split: if_splits)
  then have "picks_ok U profiles (watched_group_keys U r m) ?its row"
    using recommended_rows_ok by (auto simp: list_all_iff)
  then show "set (hr_items row) \<subseteq> set ?its" by (simp add: picks_ok_def)
qed

text \<open>C2: Every card of the home screen opens: whatever the listings, the sweep and the searches before, each key the
  card carries resolves after the build, for the life of the map, to a source of every provider the card
  lists.  The rows come from parts of the listings and the map from all of them, and both merge on
  their own; the personal rows and the rails are made of cards of the others.\<close>

theorem every_home_card_opens:
  assumes "ucd_ok U"
    and "build_home U E S (recommendation_rows U walk m profs resume tp) profiles sites r done w due d = ((rows, g, late), d')"
    and "owner d = cat_run (new_catalog ss hs cs) ops" and "keys_separate U (all_listed g)"
    and "row \<in> set rows" "it \<in> set (hr_items row)" "k = hi_group_key it \<or> k \<in> set (item_keys it)"
    and "p \<in> set (hi_providers it)" and "t \<le> expiry (monotonic E (world d')) hs None"
  shows "\<exists>res. fst (resolve t k (owner d')) = Some res \<and> resolved_source res p \<noteq> None"
  using home_card_opens [OF assms(1) recommendation_rows_home_cards assms(2-9)] .

section \<open>The warm-up\<close>

definition known :: "profiles \<Rightarrow> ustr set" where
  "known ps = set (dkeys ps)"

lemma known_dset [simp]: "known (dset k p ps) = insert k (known ps)"
  by (simp add: known_def)

lemma warm_one_keys:
  "known (ws_profiles s) \<subseteq> known (ws_profiles (warm_one U E s k)) \<and>
   known (ws_profiles (warm_one U E s k)) \<subseteq> insert k (known (ws_profiles s)) \<and>
   (ws_added (warm_one U E s k) \<longleftrightarrow> ws_added s \<or> known (ws_profiles (warm_one U E s k)) \<noteq> known (ws_profiles s))"
  unfolding warm_one_def known_def [symmetric] by (auto split: prod.splits option.splits)

lemma warm_fold_keys:
  "known (ws_profiles s) \<subseteq> known (ws_profiles (foldl (warm_one U E) s ks)) \<and>
   known (ws_profiles (foldl (warm_one U E) s ks)) \<subseteq> set ks \<union> known (ws_profiles s) \<and>
   (ws_added (foldl (warm_one U E) s ks) \<longleftrightarrow>
     ws_added s \<or> known (ws_profiles (foldl (warm_one U E) s ks)) \<noteq> known (ws_profiles s))"
proof (induction ks arbitrary: s)
  case (Cons k ks)
  show ?case using Cons.IH [of "warm_one U E s k"] warm_one_keys [of s U E k] unfolding foldl.simps list.set by blast
qed simp

lemma warm_profiles_keys:
  assumes "warm_profiles U E due rows ps d = (anew, ps', d')"
  shows "known ps \<subseteq> known ps'" "known ps' \<subseteq> set (home_groups rows) \<union> known ps"
    and "anew \<Longrightarrow> known ps' \<noteq> known ps"
    and "\<not> anew \<Longrightarrow> known ps' - known ps \<subseteq> {k. \<not> due k}"
    and "set (home_groups rows) \<subseteq> known ps \<Longrightarrow> \<not> anew"
proof -
  let ?on = "filter due (home_groups rows)" and ?off = "filter (\<lambda>k. \<not> due k) (home_groups rows)"
  obtain s where s: "s = foldl (warm_one U E) \<lparr>ws_profiles = ps, ws_desk = d, ws_added = False\<rparr> ?on" by blast
  obtain d1 where late: "anew = ws_added s" "ps' = ws_profiles (foldl (warm_one U E) (s\<lparr>ws_desk := d1\<rparr>) ?off)"
    using assms by (auto simp: warm_profiles_def Let_def s)
  have a: "known ps \<subseteq> known (ws_profiles s)" "known (ws_profiles s) \<subseteq> set ?on \<union> known ps"
    "anew \<longleftrightarrow> known (ws_profiles s) \<noteq> known ps"
    using warm_fold_keys [of "\<lparr>ws_profiles = ps, ws_desk = d, ws_added = False\<rparr>" U E ?on] by (simp_all add: s late(1))
  have b: "known (ws_profiles s) \<subseteq> known ps'" "known ps' \<subseteq> set ?off \<union> known (ws_profiles s)"
    using warm_fold_keys [of "s\<lparr>ws_desk := d1\<rparr>" U E ?off] by (simp_all add: late(2))
  have sets: "set ?on \<subseteq> set (home_groups rows)" "set ?off \<subseteq> set (home_groups rows)" "set ?off \<subseteq> {k. \<not> due k}"
    by simp_all blast+
  show "known ps \<subseteq> known ps'" "known ps' \<subseteq> set (home_groups rows) \<union> known ps" using a b sets by blast+
  show "anew \<Longrightarrow> known ps' \<noteq> known ps" using a b by blast
  show "\<not> anew \<Longrightarrow> known ps' - known ps \<subseteq> {k. \<not> due k}" using a(3) b(2) sets(3) by blast
  show "set (home_groups rows) \<subseteq> known ps \<Longrightarrow> \<not> anew" using a sets(1) by blast
qed

text \<open>The rounds of warm-ups: the profiles go on, the desk of each round is whatever the time between left.\<close>

fun warm_rounds ::
  "ucd \<Rightarrow> ((page_body, 'w, 't) upstream \<times> (ustr \<Rightarrow> bool) \<times> home_row list \<times> (page_body, 'w, 't) desk) list \<Rightarrow> profiles \<Rightarrow> nat" where
  "warm_rounds U [] ps = 0"
| "warm_rounds U ((E, due, rows, d) # rounds) ps =
     (case warm_profiles U E due rows ps d of (anew, ps', _) \<Rightarrow> (if anew then 1 else 0) + warm_rounds U rounds ps')"

text \<open>C17: The rebuild that a warm-up triggers warms again, but the loop ends: over any rounds of homes with the groups \<open>G\<close> the
  warm-up throws the home away at most once for each group without a profile.\<close>

theorem warm_loop_ends:
  assumes "finite G" and "list_all (\<lambda>(_, _, rows, _). set (home_groups rows) \<subseteq> G) rounds"
  shows "warm_rounds U rounds ps \<le> card (G - known ps)"
  using assms(2)
proof (induction rounds arbitrary: ps)
  case (Cons x rounds)
  obtain E due rows d where x: "x = (E, due, rows, d)" by (cases x)
  obtain anew ps' d' where w: "warm_profiles U E due rows ps d = (anew, ps', d')" by (cases "warm_profiles U E due rows ps d")
  note keys = warm_profiles_keys [OF w]
  have sub: "G - known ps' \<subseteq> G - known ps" using keys(1) by blast
  have "(if anew then 1 else 0) + card (G - known ps') \<le> card (G - known ps)"
  proof (cases anew)
    case True
    have "set (home_groups rows) \<subseteq> G" using Cons.prems by (simp add: x)
    with keys(1,2) keys(3) [OF True] have "G - known ps' \<subset> G - known ps" by blast
    then show ?thesis using True psubset_card_mono [of "G - known ps"] assms(1) by (simp add: Suc_le_eq)
  next
    case False
    then show ?thesis using card_mono [OF _ sub] assms(1) by simp
  qed
  moreover have "warm_rounds U rounds ps' \<le> card (G - known ps')" using Cons by simp
  ultimately show ?case by (simp add: x w)
qed simp

text \<open>A profile that lands after the budget is stored, but the home is not thrown away for it, then or by any later
  warm-up of the same groups: the rows wait for the home's own expiry.\<close>

theorem late_profile_waits:
  assumes "warm_profiles U E due rows ps d = (False, ps', d')"
    and "k \<in> known ps'" "k \<notin> known ps"
    and "set (home_groups rows') \<subseteq> known ps'"
  shows "\<not> due k \<and> \<not> fst (warm_profiles U E' due' rows' ps' d'')"
proof
  show "\<not> due k" using warm_profiles_keys(4) [OF assms(1)] assms(2,3) by auto
  obtain anew ps2 d2 where "warm_profiles U E' due' rows' ps' d'' = (anew, ps2, d2)" by (metis prod.exhaust_sel)
  then show "\<not> fst (warm_profiles U E' due' rows' ps' d'')" using warm_profiles_keys(5) assms(4) by fastforce
qed

section \<open>Samples\<close>

lemma no_profiles_no_rows: "recommendation_rows U walk m [] r tp = (\<lambda>_. [])"
  by (rule ext) (simp add: recommendation_rows_def)

theorem every_home_card_opens_witness:
  "\<exists>rows g late d' row it res. sample_home = ((rows, g, late), d') \<and> row \<in> set rows \<and> it \<in> set (hr_items row) \<and>
     fst (resolve 10 (hi_group_key it) (owner d')) = Some res \<and> resolved_source res (u ''animeon'') \<noteq> None"
proof -
  obtain rows g late d' where home: "sample_home = ((rows, g, late), d')" by (metis prod.exhaust_sel)
  have rows: "map (\<lambda>r. map hi_providers (hr_items r)) rows = [[[u ''animeon'']]]"
    and g: "all_listed g = [dune ''animeon:1'' ''tt1160419'']"
    using sample_home_rows by (simp_all add: home)
  obtain row it where it: "row \<in> set rows" "it \<in> set (hr_items row)" "u ''animeon'' \<in> set (hi_providers it)"
  proof -
    obtain row where "rows = [row]" "map hi_providers (hr_items row) = [[u ''animeon'']]" using rows by auto
    then show thesis using that [of row "hd (hr_items row)"] by (cases "hr_items row") auto
  qed
  have build: "build_home ua_ucd open_env sample_settings (recommendation_rows ua_ucd sorted_list_of_set [] [] empty_resume None)
      (\<lambda>_. None) sample_site empty_resume
      [(0, Popular_task (u ''animeon'') (u ''popular''), Listed [dune ''animeon:1'' ''tt1160419''])] 0 (\<lambda>_. True) empty_desk =
      ((rows, g, late), d')"
    unfolding no_profiles_no_rows by (rule home [unfolded sample_home_def])
  have "keys_separate ua_ucd (all_listed g)" by (simp add: g keys_separate_def dune_valid)
  moreover have "owner empty_desk = cat_run (new_catalog 300 1800 1800) []"
    by (simp add: empty_desk_def sample_catalog_run [symmetric])
  moreover have "(10 :: rat) \<le> expiry (monotonic open_env (world d')) 1800 None"
    by (simp add: open_env_def sample_env_def sample_deadlines)
  ultimately have "\<exists>res. fst (resolve 10 (hi_group_key it) (owner d')) = Some res \<and> resolved_source res (u ''animeon'') \<noteq> None"
    using it(3) by (intro every_home_card_opens [OF ua_ucd_ok build _ _ it(1,2)]) simp_all
  then obtain res where "fst (resolve 10 (hi_group_key it) (owner d')) = Some res" "resolved_source res (u ''animeon'') \<noteq> None"
    by (elim exE conjE) (rule that)
  with home it(1,2) show ?thesis by (intro exI conjI)
qed

theorem empty_profile_changes_nothing_witness:
  "build_recommendation_rows ua_ucd sorted_list_of_set [history_item ua_ucd (sample_items ! 0)]
     [(u ''g3:tt1160419'', \<lparr>ip_genres = {u ''g''}, ip_people = {}, ip_year = None, ip_form = None, ip_styles = {}\<rparr>)] {} [] None [u ''g'']
     (Some \<lparr>tp_weights = [], tp_tags = [], tp_ideas = []\<rparr>) =
   build_recommendation_rows ua_ucd sorted_list_of_set [history_item ua_ucd (sample_items ! 0)]
     [(u ''g3:tt1160419'', \<lparr>ip_genres = {u ''g''}, ip_people = {}, ip_year = None, ip_form = None, ip_styles = {}\<rparr>)] {} [] None [u ''g''] None"
  by (rule empty_profile_changes_nothing) (simp_all add: walk_ok_def few_genres_def)

definition dub_row :: home_row where
  "dub_row = \<lparr>hr_title = [], hr_type = [], hr_items =
     [(history_item ua_ucd (sample_items ! 0))\<lparr>hi_group_key := u ''g2:x''\<rparr>]\<rparr>"

lemma dub_row_groups: "home_groups [dub_row] = [u ''g2:x'']"
  by (simp add: home_groups_def dub_row_def)

theorem warm_loop_ends_witness:
  "warm_rounds ua_ucd [(dub_env, \<lambda>_. True, [dub_row], dub_desk), (dub_env, \<lambda>_. False, [dub_row], dub_desk)] [] \<le> 1"
  using warm_loop_ends [of "{u ''g2:x''}" "[(dub_env, \<lambda>_. True, [dub_row], dub_desk), (dub_env, \<lambda>_. False, [dub_row], dub_desk)]" ua_ucd "[]"]
  by (simp add: dub_row_groups known_def)

lemma dub_row_late:
  "dkeys (ws_profiles (warm_one ua_ucd dub_env \<lparr>ws_profiles = [], ws_desk = dub_desk, ws_added = False\<rparr> (u ''g2:x''))) = [u ''g2:x'']"
  by code_simp

theorem late_profile_waits_witness:
  "\<exists>ps d. warm_profiles ua_ucd dub_env (\<lambda>_. False) [dub_row] [] dub_desk = (False, ps, d) \<and> u ''g2:x'' \<in> known ps \<and>
     \<not> fst (warm_profiles ua_ucd dub_env (\<lambda>_. True) [dub_row] ps d)"
proof -
  obtain anew ps d where w: "warm_profiles ua_ucd dub_env (\<lambda>_. False) [dub_row] [] dub_desk = (anew, ps, d)" by (metis prod.exhaust_sel)
  have "\<not> anew" and keys: "known ps = {u ''g2:x''}"
    using w dub_row_late by (auto simp: warm_profiles_def dub_row_groups Let_def known_def)
  with w have w: "warm_profiles ua_ucd dub_env (\<lambda>_. False) [dub_row] [] dub_desk = (False, ps, d)" by simp
  from late_profile_waits [OF w, of "u ''g2:x''" "[dub_row]" dub_env "\<lambda>_. True" d] w keys show ?thesis
    by (simp add: dub_row_groups) (simp add: known_def)
qed

end
