(* ===== verification/Catalog_Index.thy ===== *)
theory Catalog_Index
  imports Merge Row_Kinds Py_Url Json Py_Float "HOL-Library.Product_Lexorder" "HOL-Library.Sublist"
begin

text \<open>
  The local catalogue, \<^verbatim>\<open>backend/cs_uk_api/catalog_index.py\<close>: what is stored of a card, how a query finds and ranks
  the rows, the typeahead hints, and the nightly crawl with its retries.

  The table is a dictionary by id in the order of the rowids, as an upsert keeps it.  SQLite's full-text search is an
  argument (\<open>sqlite\<close>), a \<^verbatim>\<open>LIKE\<close> query an operation on the rows, the earlier row first among equally fresh ones.  Unicode's
  compatibility decomposition of a character is an argument too (\<open>nfkd\<close>).
\<close>

section \<open>Transliteration\<close>

text \<open>
  \<^verbatim>\<open>normalize("NFKD", s)\<close> decomposes every character and orders the marks; \<^verbatim>\<open>_fold\<close> drops the marks, so their order
  does not matter.
\<close>

record nfkd =
  decomposed :: "nat \<Rightarrow> ustr"
  combining :: "nat \<Rightarrow> bool"

definition fold_text :: "ucd \<Rightarrow> nfkd \<Rightarrow> ustr \<Rightarrow> ustr" where
  "fold_text U N s = filter (\<lambda>c. \<not> combining N c) (concat (map (decomposed N) (lower U s)))"

definition official_table :: "(nat, ustr) pdict" where
  "official_table =
     [(1072, u ''a''), (1073, u ''b''), (1074, u ''v''), (1075, u ''h''), (1169, u ''g''), (1076, u ''d''), (1077, u ''e''),
      (1108, u ''ye''), (1078, u ''zh''), (1079, u ''z''), (1080, u ''y''), (1110, u ''i''), (1111, u ''yi''), (1081, u ''i''),
      (1082, u ''k''), (1083, u ''l''), (1084, u ''m''), (1085, u ''n''), (1086, u ''o''), (1087, u ''p''), (1088, u ''r''),
      (1089, u ''s''), (1090, u ''t''), (1091, u ''u''), (1092, u ''f''), (1093, u ''kh''), (1094, u ''ts''), (1095, u ''ch''),
      (1096, u ''sh''), (1097, u ''shch''), (1100, []), (1102, u ''iu''), (1103, u ''ia''), (1105, u ''e''), (1099, u ''y''),
      (1101, u ''e''), (1098, [])]"

definition loose_table :: "(nat, ustr) pdict" where
  "loose_table =
     [(1072, u ''a''), (1073, u ''b''), (1074, u ''v''), (1075, u ''h''), (1169, u ''g''), (1076, u ''d''), (1077, u ''e''),
      (1108, u ''e''), (1078, u ''zh''), (1079, u ''z''), (1080, u ''y''), (1110, u ''i''), (1111, u ''i''), (1081, u ''i''),
      (1082, u ''k''), (1083, u ''l''), (1084, u ''m''), (1085, u ''n''), (1086, u ''o''), (1087, u ''p''), (1088, u ''r''),
      (1089, u ''s''), (1090, u ''t''), (1091, u ''u''), (1092, u ''f''), (1093, u ''h''), (1094, u ''c''), (1095, u ''ch''),
      (1096, u ''sh''), (1097, u ''sh''), (1100, []), (1102, u ''u''), (1103, u ''a''), (1105, u ''e''), (1099, u ''y''),
      (1101, u ''e''), (1098, [])]"

definition translate_with :: "(nat, ustr) pdict \<Rightarrow> ustr \<Rightarrow> ustr" where
  "translate_with t s = concat (map (\<lambda>c. case dget t c of None \<Rightarrow> [c] | Some r \<Rightarrow> r) s)"

definition transliterate :: "ucd \<Rightarrow> nfkd \<Rightarrow> ustr \<Rightarrow> ustr \<times> ustr" where
  "transliterate U N s =
     (let f = fold_text U N s in (translate_with official_table f, translate_with loose_table f))"

section \<open>Tokens\<close>

definition token_char :: "nat \<Rightarrow> bool" where
  "token_char c \<longleftrightarrow>
     48 \<le> c \<and> c \<le> 57 \<or> 97 \<le> c \<and> c \<le> 122 \<or> 1072 \<le> c \<and> c \<le> 1103 \<or>
     c \<in> set [1110, 1111, 1108, 1169, 1105, 1099, 1101]"

text \<open>\<^verbatim>\<open>_TOKEN_RE.findall\<close>: the maximal runs of token characters.\<close>

fun runs_from :: "ustr \<Rightarrow> ustr \<Rightarrow> ustr list" where
  "runs_from acc [] = (if acc = [] then [] else [acc])"
| "runs_from acc (c # s) =
     (if token_char c then runs_from (acc @ [c]) s else (if acc = [] then [] else [acc]) @ runs_from [] s)"

definition find_tokens :: "ustr \<Rightarrow> ustr list" where
  "find_tokens s = runs_from [] s"

definition normalize_for_index :: "ucd \<Rightarrow> ustr \<Rightarrow> ustr" where
  "normalize_for_index U raw =
     (let n = normalize_title U raw in if n \<noteq> [] then n else join (u '' '') (find_tokens (lower U raw)))"

definition query_tokens :: "ucd \<Rightarrow> ustr \<Rightarrow> ustr list" where
  "query_tokens U q = find_tokens (normalize_for_index U q)"

definition token_variants :: "ucd \<Rightarrow> nfkd \<Rightarrow> ustr \<Rightarrow> ustr list" where
  "token_variants U N t =
     (if length t < 3 then [t] else (let (official, loose) = transliterate U N t in uniq [t, official, loose]))"

definition search_text :: "ucd \<Rightarrow> ustr \<Rightarrow> ustr \<Rightarrow> ustr \<Rightarrow> ustr list \<Rightarrow> ustr" where
  "search_text U title_text official loose gs =
     join (u '' '') (uniq (filter (\<lambda>p. p \<noteq> [])
       ([title_text, official, loose] @ map (lower U) (filter (\<lambda>g. g \<noteq> []) gs))))"

section \<open>Rows\<close>

text \<open>The two list columns hold JSON; \<open>None\<close> is a text that is none.\<close>

record index_row =
  cx_id :: ustr
  cx_provider :: ustr
  cx_title :: ustr
  cx_title_norm :: ustr
  cx_title_latin :: ustr
  cx_year :: "int option"
  cx_form :: ustr
  cx_styles :: "json option"
  cx_genres :: "json option"
  cx_poster :: "ustr option"
  cx_url :: ustr
  cx_imdb :: "ustr option"
  cx_last_seen :: rat
  cx_text :: ustr

type_synonym index_table = "(ustr, index_row) pdict"

definition row_styles :: "json option \<Rightarrow> media_style set" where
  "row_styles raw =
     (case Option.bind raw as_list of
        None \<Rightarrow> {}
      | Some vs \<Rightarrow> set (List.map_filter (\<lambda>v. Option.bind (as_str v) style_of_token) vs))"

definition row_genres :: "json option \<Rightarrow> ustr list" where
  "row_genres raw = (case Option.bind raw as_list of None \<Rightarrow> [] | Some vs \<Rightarrow> List.map_filter as_str vs)"

definition row_to_result :: "index_row \<Rightarrow> search_result option" where
  "row_to_result r =
     (case form_of_token (cx_form r) of
        None \<Rightarrow> None
      | Some f \<Rightarrow>
          if cx_url r = [] then None
          else Some \<lparr>sr_id = cx_id r, provider = cx_provider r, form = f, title = cx_title r, year = cx_year r,
                     poster = cx_poster r, url = cx_url r, styles = row_styles (cx_styles r),
                     genres = row_genres (cx_genres r), imdb_id = cx_imdb r\<rparr>)"

definition indexed_row :: "ucd \<Rightarrow> nfkd \<Rightarrow> rat \<Rightarrow> search_result \<Rightarrow> index_row option" where
  "indexed_row U N stamp r =
     (if sr_id r = [] \<or> title r = [] then None
      else
        (let aliases = title_aliases U (title r);
             base = (case aliases of a # _ \<Rightarrow> a | [] \<Rightarrow> normalize_for_index U (title r));
             title_text = (if aliases \<noteq> [] then join (u '' '') aliases else base);
             (official, loose) = transliterate U N title_text
         in if base = [] then None
            else Some \<lparr>cx_id = sr_id r, cx_provider = provider r, cx_title = title r, cx_title_norm = base,
              cx_title_latin = (if official = loose then official else official @ u '' '' @ loose),
              cx_year = year r, cx_form = form_text (form r),
              cx_styles = Some (JList (map JStr (map style_text (sorted_styles (styles r))))),
              cx_genres = Some (JList (map JStr (genres r))), cx_poster = poster r, cx_url = url r, cx_imdb = imdb_id r,
              cx_last_seen = stamp, cx_text = search_text U title_text official loose (genres r)\<rparr>))"

text \<open>\<^verbatim>\<open>upsert\<close>: one row for each id of the batch, the last card of it; then the statement runs over the rows.\<close>

definition batch_rows :: "ucd \<Rightarrow> nfkd \<Rightarrow> rat \<Rightarrow> search_result list \<Rightarrow> index_table" where
  "batch_rows U N stamp rs =
     foldl (\<lambda>d r. case indexed_row U N stamp r of None \<Rightarrow> d | Some x \<Rightarrow> dset (sr_id r) x d) [] rs"

definition upsert :: "ucd \<Rightarrow> nfkd \<Rightarrow> rat \<Rightarrow> search_result list \<Rightarrow> index_table \<Rightarrow> nat \<times> index_table" where
  "upsert U N stamp rs table =
     (let new = batch_rows U N stamp rs in (length new, foldl (\<lambda>t (k, x). dset k x t) table new))"

section \<open>Finding rows\<close>

definition replace_quote :: "ustr \<Rightarrow> ustr" where
  "replace_quote s = concat (map (\<lambda>c. if c = 34 then [34, 34] else [c]) s)"

definition fts_query :: "ustr list list \<Rightarrow> ustr" where
  "fts_query alternatives =
     join (u '' AND '')
       (map (\<lambda>terms. u ''('' @ join (u '' OR '') terms @ u '')'')
         (filter (\<lambda>terms. terms \<noteq> [])
           (map (\<lambda>vs. map (\<lambda>v. [34] @ replace_quote v @ [34] @ u ''*'') (filter (\<lambda>v. v \<noteq> []) vs)) alternatives)))"

text \<open>\<open>fts\<close> answers a \<^verbatim>\<open>MATCH\<close> query with at most so many rows, \<open>None\<close> is an \<^verbatim>\<open>OperationalError\<close>.\<close>

record sqlite =
  fts_enabled :: bool
  fts :: "ustr \<Rightarrow> nat \<Rightarrow> index_table \<Rightarrow> index_row list option"

definition like_clauses :: "ustr list list \<Rightarrow> ustr list list" where
  "like_clauses alternatives = filter (\<lambda>terms. terms \<noteq> []) (map (filter (\<lambda>v. v \<noteq> [])) alternatives)"

definition like_match :: "ustr \<Rightarrow> ustr \<Rightarrow> bool" where
  "like_match v s \<longleftrightarrow> contains (ascii_lower v) (ascii_lower s)"

definition like_rows :: "ustr list list \<Rightarrow> index_table \<Rightarrow> index_row list" where
  "like_rows alternatives table =
     filter (\<lambda>r. list_all (list_ex (\<lambda>v. like_match v (cx_text r))) (like_clauses alternatives)) (map snd table)"

definition fetch_like :: "ustr list list \<Rightarrow> nat \<Rightarrow> index_table \<Rightarrow> index_row list" where
  "fetch_like alternatives n table =
     (if like_clauses alternatives = [] then []
      else take n (sort_key (\<lambda>r. - cx_last_seen r) (like_rows alternatives table)))"

definition query_rows :: "sqlite \<Rightarrow> ustr list list \<Rightarrow> nat \<Rightarrow> index_table \<Rightarrow> index_row list" where
  "query_rows Q alternatives n table =
     (if fts_enabled Q then
        (case fts Q (fts_query alternatives) n table of
           Some (r # rs) \<Rightarrow> r # rs
         | _ \<Rightarrow> fetch_like alternatives n table)
      else fetch_like alternatives n table)"

section \<open>Ranking\<close>

definition hay_words :: "ucd \<Rightarrow> nfkd \<Rightarrow> ustr \<Rightarrow> ustr list \<Rightarrow> ustr set \<times> ustr set" where
  "hay_words U N base gs =
     (let (official, loose) = transliterate U N base; latin = set (split_ws U (official @ u '' '' @ loose))
      in (latin, set (split_ws U base) \<union> latin \<union> lower U ` set gs))"

definition rank_tier :: "ucd \<Rightarrow> nfkd \<Rightarrow> search_result \<Rightarrow> ustr list list \<Rightarrow> nat" where
  "rank_tier U N r alternatives =
     (let base = (let n = normalize_for_index U (title r) in if n \<noteq> [] then n else lower U (title r));
          (latin, hay) = hay_words U N base (genres r);
          heads = map hd (filter (\<lambda>vs. vs \<noteq> []) alternatives);
          query = join (u '' '') heads; (q_official, q_loose) = transliterate U N query;
          variants = {query, q_official, q_loose}
      in if base = query then 0
         else if list_ex (\<lambda>v. \<exists>w \<in> set (split_ws U base). starts_with v w) heads then 1
         else if latin \<inter> variants \<noteq> {} \<or> (\<exists>w \<in> latin. \<exists>v \<in> variants. starts_with v w) then 2
         else if list_all (\<lambda>vs. \<exists>w \<in> hay. list_ex (\<lambda>v. starts_with v w) vs) alternatives then 3
         else 4)"

definition rank_key ::
  "ucd \<Rightarrow> nfkd \<Rightarrow> ustr list list \<Rightarrow> search_result \<times> rat \<Rightarrow> nat \<times> rat \<times> int \<times> nat \<times> ustr" where
  "rank_key U N alternatives rs =
     (case rs of (r, seen) \<Rightarrow>
        (rank_tier U N r alternatives, - seen, - (case year r of None \<Rightarrow> 0 | Some y \<Rightarrow> y),
         length (let n = normalize_for_index U (title r) in if n \<noteq> [] then n else lower U (title r)), title r))"

definition index_search ::
  "ucd \<Rightarrow> nfkd \<Rightarrow> sqlite \<Rightarrow> index_table \<Rightarrow> ustr \<Rightarrow> int \<Rightarrow> search_result list" where
  "index_search U N Q table q limit =
     (let tokens = query_tokens U q in
      if tokens = [] \<or> limit \<le> 0 then []
      else
        (let n = nat (min limit 200); alternatives = map (token_variants U N) tokens;
             ranked = List.map_filter (\<lambda>r. map_option (\<lambda>x. (x, cx_last_seen r)) (row_to_result r))
               (query_rows Q alternatives (n * 4) table)
         in map fst (take n (sort_key (rank_key U N alternatives) ranked))))"

section \<open>Hints\<close>

record search_hint =
  hn_id :: ustr
  hn_group_key :: ustr
  hn_title :: ustr
  hn_year :: "int option"
  hn_form :: media_form
  hn_poster :: "ustr option"
  hn_provider :: ustr

definition hint_title :: "ucd \<Rightarrow> ustr \<Rightarrow> ustr" where
  "hint_title U t = (let n = normalize_for_index U t in if n \<noteq> [] then n else lower U t)"

definition hint_of :: "ucd \<Rightarrow> search_result \<Rightarrow> search_hint" where
  "hint_of U r =
     \<lparr>hn_id = sr_id r, hn_group_key = item_group_key U r, hn_title = title r, hn_year = year r, hn_form = form r,
      hn_poster = poster r, hn_provider = provider r\<rparr>"

fun hint_candidates :: "ucd \<Rightarrow> ustr set \<Rightarrow> search_result list \<Rightarrow> search_hint list" where
  "hint_candidates U seen [] = []"
| "hint_candidates U seen (r # rs) =
     (if item_group_key U r \<in> seen then hint_candidates U seen rs
      else hint_of U r # hint_candidates U (insert (item_group_key U r) seen) rs)"

definition known_years :: "ucd \<Rightarrow> search_hint list \<Rightarrow> (ustr \<times> media_form) set" where
  "known_years U hs = set (map (\<lambda>h. (hint_title U (hn_title h), hn_form h)) (filter (\<lambda>h. hn_year h \<noteq> None) hs))"

text \<open>The second loop; \<open>n\<close> is what the limit still allows, at least one.\<close>

fun hint_rows ::
  "ucd \<Rightarrow> (ustr \<times> media_form) set \<Rightarrow> (ustr \<times> media_form \<times> int option) set \<Rightarrow> nat \<Rightarrow> search_hint list \<Rightarrow> search_hint list" where
  "hint_rows U known seen n [] = []"
| "hint_rows U known seen n (h # hs) =
     (let t = hint_title U (hn_title h); row = (t, hn_form h, hn_year h) in
      if hn_year h = None \<and> (t, hn_form h) \<in> known \<or> row \<in> seen then hint_rows U known seen n hs
      else h # (if n \<le> 1 then [] else hint_rows U known (insert row seen) (n - 1) hs))"

definition hints :: "ucd \<Rightarrow> nfkd \<Rightarrow> sqlite \<Rightarrow> index_table \<Rightarrow> ustr \<Rightarrow> int \<Rightarrow> ustr set option \<Rightarrow> search_hint list" where
  "hints U N Q table q limit allowed =
     (if limit \<le> 0 then []
      else
        (let cs = hint_candidates U {} (filter (\<lambda>r. case allowed of None \<Rightarrow> True | Some a \<Rightarrow> provider r \<in> a)
               (index_search U N Q table q (limit * 10)))
         in hint_rows U (known_years U cs) {} (nat limit) cs))"

section \<open>The seam the search uses\<close>

definition groups_from_sources :: "ucd \<Rightarrow> search_result list \<Rightarrow> group_projection list" where
  "groups_from_sources U ss = List.map_filter (project_group U) (merge_groups U ss)"

text \<open>\<open>None\<close> is an index that is off or broken; \<open>broken\<close> is a database error of the query.\<close>

definition search_groups ::
  "ucd \<Rightarrow> nfkd \<Rightarrow> sqlite \<Rightarrow> bool \<Rightarrow> index_table option \<Rightarrow> ustr \<Rightarrow> int \<Rightarrow> ustr set option \<Rightarrow> media_form option \<Rightarrow>
   media_style set option \<Rightarrow> group_projection list option" where
  "search_groups U N Q broken index q limit allowed f sf =
     (case index of
        None \<Rightarrow> None
      | Some table \<Rightarrow>
          (if broken then None
           else
             (let rs = filter (\<lambda>r. (case allowed of None \<Rightarrow> True | Some a \<Rightarrow> provider r \<in> a) \<and> matches_axes r f sf)
                    (index_search U N Q table q (limit * 3))
              in Some (take (nat limit) (groups_from_sources U rs)))))"

definition remember_groups ::
  "ucd \<Rightarrow> nfkd \<Rightarrow> rat \<Rightarrow> group_projection list \<Rightarrow> index_table option \<Rightarrow> index_table option" where
  "remember_groups U N now gs index =
     map_option (\<lambda>t. snd (upsert U N now (concat (map gp_sources gs)) t)) index"

section \<open>The crawl\<close>

text \<open>
  A provider's sections (\<open>None\<close> is an unknown provider), its answer to a page (\<open>Inl\<close> the text of what it raised), a
  database error of the write, and the pause between pages, all over the world's state.
\<close>

record 'w crawler =
  cw_sections :: "ustr \<Rightarrow> browse_section list option"
  cw_browse :: "ustr \<Rightarrow> ustr \<Rightarrow> nat \<Rightarrow> 'w \<Rightarrow> (ustr + search_result list \<times> bool) \<times> 'w"
  cw_db_error :: "'w \<Rightarrow> ustr option"
  cw_pause :: "rat \<Rightarrow> 'w \<Rightarrow> 'w"

record provider_stats =
  ps_provider :: ustr
  ps_sections :: nat
  ps_pages :: nat
  ps_seen :: nat
  ps_indexed :: nat
  ps_errors :: "ustr list"
  ps_attempts :: nat

definition answered :: "provider_stats \<Rightarrow> bool" where
  "answered s \<longleftrightarrow> 0 < ps_pages s"

record 'w crawl_state =
  cs_stats :: provider_stats
  cs_table :: index_table
  cs_world :: 'w

definition crawl_error :: "browse_section \<Rightarrow> nat \<Rightarrow> ustr \<Rightarrow> ustr \<Rightarrow> ustr" where
  "crawl_error sec n what e = sec_id sec @ u '' p'' @ dec_nat n @ what @ u '': '' @ e"

definition add_error :: "ustr \<Rightarrow> provider_stats \<Rightarrow> provider_stats" where
  "add_error e s = s\<lparr>ps_errors := ps_errors s @ [e]\<rparr>"

fun crawl_section ::
  "'w crawler \<Rightarrow> ucd \<Rightarrow> nfkd \<Rightarrow> rat \<Rightarrow> rat \<Rightarrow> browse_section \<Rightarrow> nat list \<Rightarrow> 'w crawl_state \<Rightarrow> 'w crawl_state" where
  "crawl_section W U N stamp delay sec [] c = c"
| "crawl_section W U N stamp delay sec (n # ns) c =
     (case cw_browse W (ps_provider (cs_stats c)) (sec_id sec) n (cs_world c) of
        (Inl e, w) \<Rightarrow> c\<lparr>cs_stats := add_error (crawl_error sec n [] e) (cs_stats c), cs_world := w\<rparr>
      | (Inr (its, has_next), w) \<Rightarrow>
          (let st = (cs_stats c)\<lparr>ps_pages := ps_pages (cs_stats c) + 1\<rparr>; fits = filter (\<lambda>it. section_matches it sec) its;
               st2 = st\<lparr>ps_seen := ps_seen st + length fits\<rparr>; (k, table) = upsert U N stamp fits (cs_table c);
               go = (\<lambda>c. if \<not> has_next then c
                 else crawl_section W U N stamp delay sec ns
                   (if 0 < delay then c\<lparr>cs_world := cw_pause W delay (cs_world c)\<rparr> else c))
           in if its = [] then c\<lparr>cs_stats := st, cs_world := w\<rparr>
              else if fits = [] then go (c\<lparr>cs_stats := st2, cs_world := w\<rparr>)
              else (case cw_db_error W w of
                 Some e \<Rightarrow> c\<lparr>cs_stats := add_error (crawl_error sec n (u '' index'') e) st2, cs_world := w\<rparr>
               | None \<Rightarrow> go (c\<lparr>cs_stats := st2\<lparr>ps_indexed := ps_indexed st2 + k\<rparr>, cs_table := table, cs_world := w\<rparr>))))"

definition no_stats :: "ustr \<Rightarrow> nat \<Rightarrow> ustr list \<Rightarrow> nat \<Rightarrow> provider_stats" where
  "no_stats p n es attempts =
     \<lparr>ps_provider = p, ps_sections = n, ps_pages = 0, ps_seen = 0, ps_indexed = 0, ps_errors = es, ps_attempts = attempts\<rparr>"

definition crawl_provider ::
  "'w crawler \<Rightarrow> ucd \<Rightarrow> nfkd \<Rightarrow> rat \<Rightarrow> rat \<Rightarrow> nat \<Rightarrow> nat \<Rightarrow> ustr \<Rightarrow> index_table \<times> 'w \<Rightarrow> provider_stats \<times> index_table \<times> 'w" where
  "crawl_provider W U N stamp delay pages attempts p tw =
     (case cw_sections W p of
        None \<Rightarrow> (no_stats p 0 [u ''unknown provider''] attempts, tw)
      | Some [] \<Rightarrow> (no_stats p 0 [u ''no browsable sections''] attempts, tw)
      | Some secs \<Rightarrow>
          (let c = foldl (\<lambda>c sec. crawl_section W U N stamp delay sec [1..<Suc pages] c)
                 \<lparr>cs_stats = no_stats p (length secs) [] attempts, cs_table = fst tw, cs_world = snd tw\<rparr> secs
           in (cs_stats c, cs_table c, cs_world c)))"

fun crawl_each ::
  "'w crawler \<Rightarrow> ucd \<Rightarrow> nfkd \<Rightarrow> rat \<Rightarrow> rat \<Rightarrow> nat \<Rightarrow> nat \<Rightarrow> ustr list \<Rightarrow> index_table \<times> 'w \<Rightarrow> provider_stats list \<times> index_table \<times> 'w" where
  "crawl_each W U N stamp delay pages attempts [] tw = ([], tw)"
| "crawl_each W U N stamp delay pages attempts (p # ps) tw =
     (let (s, tw1) = crawl_provider W U N stamp delay pages attempts p tw;
          (ss, tw2) = crawl_each W U N stamp delay pages attempts ps tw1 in (s # ss, tw2))"

definition retry_ids :: "provider_stats list \<Rightarrow> ustr list" where
  "retry_ids stats = map ps_provider (filter (\<lambda>s. \<not> answered s \<and> 0 < ps_sections s) stats)"

text \<open>The retry passes still to come, each with its number.\<close>

fun retry_passes ::
  "'w crawler \<Rightarrow> ucd \<Rightarrow> nfkd \<Rightarrow> rat \<Rightarrow> rat \<Rightarrow> rat \<Rightarrow> nat \<Rightarrow> nat list \<Rightarrow> provider_stats list \<Rightarrow> index_table \<times> 'w \<Rightarrow>
   provider_stats list \<times> index_table \<times> 'w" where
  "retry_passes W U N stamp delay retry_delay pages [] stats tw = (stats, tw)"
| "retry_passes W U N stamp delay retry_delay pages (n # ns) stats tw =
     (if retry_ids stats = [] then (stats, tw)
      else
        (let pause = f_mul (max 0 retry_delay) (f_of_int (int n));
             tw1 = (if 0 < pause then (fst tw, cw_pause W pause (snd tw)) else tw);
             (again, tw2) = crawl_each W U N stamp delay pages (n + 1) (retry_ids stats) tw1;
             retried = foldl (\<lambda>d s. dset (ps_provider s) s d) [] again
         in retry_passes W U N stamp delay retry_delay pages ns
              (map (\<lambda>s. case dget retried (ps_provider s) of None \<Rightarrow> s | Some x \<Rightarrow> x) stats) tw2))"

record crawl_stats =
  ct_providers :: "provider_stats list"
  ct_seen :: nat
  ct_indexed :: nat

definition crawl_index ::
  "'w crawler \<Rightarrow> ucd \<Rightarrow> nfkd \<Rightarrow> rat \<Rightarrow> int \<Rightarrow> rat \<Rightarrow> nat \<Rightarrow> rat \<Rightarrow> ustr list \<Rightarrow> index_table \<times> 'w \<Rightarrow>
   crawl_stats \<times> index_table \<times> 'w" where
  "crawl_index W U N stamp pages delay passes retry_delay ids tw =
     (let page_limit = nat (max 1 pages);
          (stats, tw1) = crawl_each W U N stamp delay page_limit 1 ids tw;
          (stats, tw2) = retry_passes W U N stamp delay retry_delay page_limit [1..<Suc passes] stats tw1
      in (\<lparr>ct_providers = stats, ct_seen = sum_list (map ps_seen stats), ct_indexed = sum_list (map ps_indexed stats)\<rparr>, tw2))"

section \<open>A row gives its card back\<close>

lemma form_of_form_text [simp]: "form_of_token (form_text f) = Some f"
  by (cases f) (simp_all add: form_of_token_def form_text_def)

lemma map_filter_total: "(\<And>x. f (g x) = Some x) \<Longrightarrow> List.map_filter f (map g xs) = xs"
  by (induction xs) (simp_all add: List.map_filter_simps)

lemma row_styles_back: "row_styles (Some (JList (map JStr (map style_text (sorted_styles st))))) = st"
proof -
  have "List.map_filter (\<lambda>v. Option.bind (as_str v) style_of_token) (map (\<lambda>s. JStr (style_text s)) (sorted_styles st)) =
        sorted_styles st"
    by (rule map_filter_total) simp
  then show ?thesis by (simp add: row_styles_def comp_def)
qed

lemma row_genres_back: "row_genres (Some (JList (map JStr gs))) = gs"
proof -
  have "List.map_filter as_str (map JStr gs) = gs" by (rule map_filter_total) simp
  then show ?thesis by (simp add: row_genres_def)
qed

lemma alias_ne: "n \<in> set (title_aliases U t) \<Longrightarrow> n \<noteq> []"
  by (simp add: title_aliases_def)

lemma indexed_rowE:
  assumes "indexed_row U N stamp r = Some x"
  obtains a b where "cx_id x = sr_id r" and "cx_last_seen x = stamp" and "cx_title_norm x = normalize_for_index U (title r)"
    and "cx_text x = search_text U (if title_aliases U (title r) \<noteq> [] then join (u '' '') (title_aliases U (title r))
                                    else normalize_for_index U (title r)) a b (genres r)"
    and "normalize_for_index U (title r) \<noteq> []"
    and "url r \<noteq> [] \<Longrightarrow> row_to_result x = Some r"
proof -
  define t where "t = (if title_aliases U (title r) \<noteq> [] then join (u '' '') (title_aliases U (title r))
                       else normalize_for_index U (title r))"
  have base: "(case title_aliases U (title r) of a # _ \<Rightarrow> a | [] \<Rightarrow> normalize_for_index U (title r)) =
      normalize_for_index U (title r)"
  proof (cases "title_aliases U (title r)")
    case (Cons a as)
    then have "a \<in> set (title_aliases U (title r))" by simp
    then have "a \<noteq> []" unfolding title_aliases_def by simp
    with Cons show ?thesis by (simp add: normalize_for_index_def normalize_title_def)
  qed simp
  from assms show thesis
    unfolding indexed_row_def Let_def base
    by (auto split: if_splits prod.splits
      intro!: that simp: row_to_result_def row_styles_back [simplified] row_genres_back t_def [symmetric])
qed

section \<open>A card is found by its title\<close>

lemma starts_with_append: "starts_with p (p @ s)"
  by (simp add: starts_with_def)

lemma contains_infix: "contains p (a @ p @ b)"
proof (induction a)
  case Nil
  show ?case by (cases "p @ b") (auto simp: starts_with_append simp flip: append.assoc, metis contains.simps(2) starts_with_append)
qed simp

lemma containsE:
  assumes "contains p s"
  obtains a b where "s = a @ p @ b"
proof -
  have "\<exists>a b. s = a @ p @ b"
    using assms
  proof (induction s)
    case (Cons c s)
    show ?case
    proof (cases "starts_with p (c # s)")
      case True
      then have "c # s = [] @ p @ drop (length p) (c # s)" by (metis append_Nil append_take_drop_id starts_with_def)
      then show ?thesis by blast
    next
      case False
      with Cons obtain a b where "s = a @ p @ b" by auto
      then have "c # s = (c # a) @ p @ b" by simp
      then show ?thesis by blast
    qed
  qed simp
  with that show thesis by blast
qed

lemma contains_trans: "contains p q \<Longrightarrow> contains q s \<Longrightarrow> contains p s"
  by (metis append.assoc containsE contains_infix)

lemma contains_join: "p \<in> set ps \<Longrightarrow> contains p (join sep ps)"
proof (induction sep ps rule: join.induct)
  case (2 sep p)
  then show ?case using contains_infix [of p "[]" "[]"] by simp
next
  case (3 sep q r rs)
  show ?case
  proof (cases "p = q")
    case True
    then show ?thesis using contains_infix [of q "[]" "sep @ join sep (r # rs)"] by simp
  next
    case False
    with 3 have "contains p (join sep (r # rs))" by simp
    moreover have "contains (join sep (r # rs)) (join sep (q # r # rs))"
      using contains_infix [of "join sep (r # rs)" "q @ sep" "[]"] by simp
    ultimately show ?thesis by (rule contains_trans)
  qed
qed simp

lemma contains_ascii_lower: "contains p s \<Longrightarrow> like_match p s"
  by (erule containsE) (simp add: like_match_def ascii_lower_def contains_infix)

lemma runs_from_infix: "t \<in> set (runs_from acc s) \<Longrightarrow> t \<noteq> [] \<and> contains t (acc @ s)"
proof (induction acc s rule: runs_from.induct)
  case (1 acc)
  then show ?case using contains_infix [of acc "[]" "[]"] by (auto split: if_splits)
next
  case (2 acc c s)
  show ?case
  proof (cases "token_char c")
    case True
    with 2 show ?thesis by simp
  next
    case False
    with "2.prems" consider "t = acc" "acc \<noteq> []" | "t \<in> set (runs_from [] s)" by (auto split: if_splits)
    then show ?thesis
    proof cases
      case 1
      then show ?thesis using contains_infix [of acc "[]" "c # s"] by simp
    next
      case 2
      with "2.IH"(2) [OF False] have "t \<noteq> []" "contains t s" by simp_all
      moreover have "contains s (acc @ c # s)" using contains_infix [of s "acc @ [c]" "[]"] by simp
      ultimately show ?thesis using contains_trans by blast
    qed
  qed
qed

lemma find_tokens_infix: "t \<in> set (find_tokens s) \<Longrightarrow> t \<noteq> [] \<and> contains t s"
  using runs_from_infix [of t "[]" s] by (simp add: find_tokens_def)

lemma hd_token_variants [simp]: "t \<in> set (token_variants U N t)"
  by (cases "transliterate U N t") (simp add: token_variants_def)

lemma text_has_title:
  assumes "indexed_row U N stamp r = Some x"
  shows "contains (normalize_for_index U (title r)) (cx_text x)"
proof -
  define t where "t = (if title_aliases U (title r) \<noteq> [] then join (u '' '') (title_aliases U (title r))
                       else normalize_for_index U (title r))"
  obtain a b where tx: "cx_text x = search_text U t a b (genres r)" and ne: "normalize_for_index U (title r) \<noteq> []"
    using assms by (rule indexed_rowE) (simp add: t_def)
  have nt: "contains (normalize_for_index U (title r)) t"
  proof (cases "title_aliases U (title r)")
    case (Cons n ns)
    then have "n \<in> set (title_aliases U (title r))" by simp
    then have "n \<noteq> []" unfolding title_aliases_def by simp
    with Cons have "normalize_for_index U (title r) \<in> set (title_aliases U (title r))"
      by (simp add: normalize_for_index_def normalize_title_def)
    then show ?thesis using contains_join [of "normalize_for_index U (title r)"] by (simp add: t_def Cons)
  qed (use contains_infix [of "normalize_for_index U (title r)" "[]" "[]"] in \<open>simp add: t_def\<close>)
  have "t \<noteq> []" using nt ne by (cases t) auto
  then have "contains t (cx_text x)" unfolding tx search_text_def by (intro contains_join) simp
  with nt show ?thesis by (rule contains_trans)
qed

lemma own_title_matches:
  assumes "indexed_row U N stamp r = Some x"
  shows "list_all (list_ex (\<lambda>v. like_match v (cx_text x))) (like_clauses (map (token_variants U N) (query_tokens U (title r))))"
proof -
  have "\<exists>v \<in> set (filter (\<lambda>v. v \<noteq> []) (token_variants U N t)). like_match v (cx_text x)"
    if "t \<in> set (query_tokens U (title r))" for t
  proof -
    from that find_tokens_infix have t: "t \<noteq> []" "contains t (normalize_for_index U (title r))"
      unfolding query_tokens_def by blast+
    then have "like_match t (cx_text x)" using contains_ascii_lower contains_trans text_has_title [OF assms] by blast
    with t(1) show ?thesis by (intro bexI [of _ t]) simp_all
  qed
  then show ?thesis by (auto simp: like_clauses_def list_all_iff list_ex_iff)
qed

lemma batch_one: "indexed_row U N stamp r = Some x \<Longrightarrow> upsert U N stamp [r] table = (1, dset (sr_id r) x table)"
  by (simp add: upsert_def batch_rows_def Let_def)

lemma dset_member: "(k, v) \<in> set (dset k v d)"
  by (induction d) auto

lemma find_tokens_Nil [simp]: "find_tokens [] = []"
  by (simp add: find_tokens_def)

lemma indexed_row_some:
  "sr_id r \<noteq> [] \<Longrightarrow> title r \<noteq> [] \<Longrightarrow> normalize_for_index U (title r) \<noteq> [] \<Longrightarrow> \<exists>x. indexed_row U N stamp r = Some x"
  using alias_ne [of "[]" U "title r"]
  by (cases "title_aliases U (title r)")
    (auto simp: indexed_row_def Let_def normalize_for_index_def normalize_title_def split: prod.splits if_splits)

lemma like_clauses_ne: "ts \<noteq> [] \<Longrightarrow> list_all (\<lambda>t. t \<noteq> []) ts \<Longrightarrow> like_clauses (map (token_variants U N) ts) \<noteq> []"
proof -
  assume "ts \<noteq> []" and "list_all (\<lambda>t. t \<noteq> []) ts"
  then have "filter (\<lambda>v. v \<noteq> []) (token_variants U N (hd ts)) \<noteq> []"
    using hd_token_variants [of "hd ts" U N] by (cases ts) (auto simp: filter_empty_conv)
  with \<open>ts \<noteq> []\<close> show ?thesis by (cases ts) (simp_all add: like_clauses_def)
qed

lemma set_index_search:
  assumes "query_tokens U q \<noteq> []" and "0 < limit" and "limit \<le> 200"
    and "length rows \<le> nat limit" and "rows = query_rows Q (map (token_variants U N) (query_tokens U q)) (nat limit * 4) table"
  shows "set (index_search U N Q table q limit) = set (List.map_filter row_to_result rows)"
proof -
  have fst: "fst ` set (List.map_filter (\<lambda>r. map_option (\<lambda>x. (x, cx_last_seen r)) (row_to_result r)) rows) =
      set (List.map_filter row_to_result rows)"
    by (induction rows) (auto simp: List.map_filter_simps split: option.splits)
  have "length (List.map_filter f rows) \<le> length rows" for f :: "index_row \<Rightarrow> (search_result \<times> rat) option"
    by (simp add: List.map_filter_def)
  then have "length (List.map_filter (\<lambda>r. map_option (\<lambda>x. (x, cx_last_seen r)) (row_to_result r)) rows) \<le> nat limit"
    using assms(4) le_trans by blast
  with assms fst show ?thesis by (simp add: index_search_def Let_def min_def)
qed


section \<open>The order of the results\<close>

text \<open>A search answers at most the limit (and never more than 200) cards, and no card stands behind one of a worse tier.\<close>

theorem results_by_tier:
  "length (index_search U N Q table q limit) \<le> nat (min limit 200) \<and>
   sorted_wrt (\<lambda>a b. rank_tier U N a (map (token_variants U N) (query_tokens U q)) \<le>
                     rank_tier U N b (map (token_variants U N) (query_tokens U q))) (index_search U N Q table q limit)"
proof (cases "query_tokens U q = [] \<or> limit \<le> 0")
  case False
  define alts where "alts = map (token_variants U N) (query_tokens U q)"
  define ranked where "ranked = List.map_filter (\<lambda>r. map_option (\<lambda>x. (x, cx_last_seen r)) (row_to_result r))
      (query_rows Q alts (nat (min limit 200) * 4) table)"
  have eq: "index_search U N Q table q limit = map fst (take (nat (min limit 200)) (sort_key (rank_key U N alts) ranked))"
    using False by (simp add: index_search_def Let_def alts_def ranked_def)
  have le: "rank_tier U N (fst a) alts \<le> rank_tier U N (fst b) alts" if "rank_key U N alts a \<le> rank_key U N alts b" for a b
    using that by (auto simp: rank_key_def less_eq_prod_def split: prod.splits)
  have "sorted (map (rank_key U N alts) (sort_key (rank_key U N alts) ranked))" by simp
  then have "sorted_wrt (\<lambda>a b. rank_key U N alts a \<le> rank_key U N alts b) (sort_key (rank_key U N alts) ranked)"
    by (simp add: sorted_map)
  then have "sorted_wrt (\<lambda>a b. rank_tier U N (fst a) alts \<le> rank_tier U N (fst b) alts) (sort_key (rank_key U N alts) ranked)"
    by (rule sorted_wrt_mono_rel [rotated]) (use le in blast)
  then show ?thesis unfolding eq by (simp add: sorted_wrt_map sorted_wrt_take alts_def [symmetric])
qed (auto simp: index_search_def Let_def)

section \<open>Hints are distinct\<close>

abbreviation hint_key :: "ucd \<Rightarrow> search_hint \<Rightarrow> ustr \<times> media_form" where
  "hint_key U h \<equiv> (hint_title U (hn_title h), hn_form h)"

definition hint_row :: "ucd \<Rightarrow> search_hint \<Rightarrow> ustr \<times> media_form \<times> int option" where
  "hint_row U h = (hint_title U (hn_title h), hn_form h, hn_year h)"

lemma subseq_set: "subseq xs ys \<Longrightarrow> set xs \<subseteq> set ys"
  by (induction rule: list_emb.induct) auto

lemma subseq_distinct: "subseq xs ys \<Longrightarrow> distinct ys \<Longrightarrow> distinct xs"
  by (induction rule: list_emb.induct) (auto dest: subseq_set)

lemma hint_rows_subseq: "subseq (hint_rows U known seen n hs) hs"
  by (induction U known seen n hs rule: hint_rows.induct) (auto simp: Let_def)

lemma length_hint_rows: "length (hint_rows U known seen n hs) \<le> max 1 n"
proof (induction hs arbitrary: seen n)
  case (Cons h hs)
  then have "length (hint_rows U known s (n - 1) hs) \<le> n - 1" if "1 < n" for s
    using that by (metis One_nat_def Suc_leI max.absorb2 zero_less_diff)
  then show ?case using Cons by (auto simp: Let_def not_le) (metis One_nat_def Suc_le_eq Suc_pred le_less_trans less_Suc_eq_le zero_le)+
qed simp

lemma hint_rows_distinct:
  "distinct (map (hint_row U) (hint_rows U known seen n hs)) \<and>
   hint_row U ` set (hint_rows U known seen n hs) \<inter> seen = {}"
  by (induction U known seen n hs rule: hint_rows.induct) (auto simp: Let_def hint_row_def)

lemma hint_rows_dated: "h \<in> set (hint_rows U known seen n hs) \<Longrightarrow> hn_year h = None \<Longrightarrow> hint_key U h \<notin> known"
  by (induction U known seen n hs rule: hint_rows.induct) (auto simp: Let_def split: if_splits)

lemma hint_candidates_keys:
  "distinct (map hn_group_key (hint_candidates U seen rs)) \<and> hn_group_key ` set (hint_candidates U seen rs) \<inter> seen = {}"
  by (induction U seen rs rule: hint_candidates.induct) (auto simp: hint_of_def)

lemma hint_candidates_providers: "hn_provider ` set (hint_candidates U seen rs) \<subseteq> provider ` set rs"
  by (induction U seen rs rule: hint_candidates.induct) (auto simp: hint_of_def)

text \<open>C18: The hints stay within the limit, no group and no title, form and year shows twice, a title with a known year shows no yearless row, and every hint is of an allowed provider.\<close>

theorem hints_are_distinct:
  "let hs = hints U N Q table q limit allowed in length hs \<le> nat limit \<and> distinct (map hn_group_key hs) \<and> distinct (map (hint_row U) hs) \<and>
    hint_key U ` {h. h \<in> set hs \<and> hn_year h = None} \<inter> known_years U hs = {} \<and>
    (case allowed of None \<Rightarrow> True | Some a \<Rightarrow> hn_provider ` set hs \<subseteq> a)"
proof -
  define hs where "hs = hints U N Q table q limit allowed"
  have "length hs \<le> nat limit \<and> distinct (map hn_group_key hs) \<and> distinct (map (hint_row U) hs) \<and>
    hint_key U ` {h. h \<in> set hs \<and> hn_year h = None} \<inter> known_years U hs = {} \<and>
    (case allowed of None \<Rightarrow> True | Some a \<Rightarrow> hn_provider ` set hs \<subseteq> a)"
  proof (cases "limit \<le> 0")
    case False
    define cs where "cs = hint_candidates U {} (filter (\<lambda>r. case allowed of None \<Rightarrow> True | Some a \<Rightarrow> provider r \<in> a)
        (index_search U N Q table q (limit * 10)))"
    have hs: "hs = hint_rows U (known_years U cs) {} (nat limit) cs"
      using False by (simp add: hs_def hints_def cs_def Let_def)
    have sub: "subseq hs cs" unfolding hs by (rule hint_rows_subseq)
    have len: "length hs \<le> nat limit" using length_hint_rows [of U "known_years U cs" "{}" "nat limit" cs] False by (simp add: hs)
    have keys: "distinct (map hn_group_key hs)"
      using hint_candidates_keys subseq_map [OF sub] unfolding cs_def by (metis subseq_distinct)
    have known: "known_years U hs \<subseteq> known_years U cs" using subseq_set [OF sub] by (auto simp: known_years_def)
    have dated: "hint_key U ` {h. h \<in> set hs \<and> hn_year h = None} \<inter> known_years U cs = {}"
      using hint_rows_dated unfolding hs by blast
    have allow: "case allowed of None \<Rightarrow> True | Some a \<Rightarrow> hn_provider ` set hs \<subseteq> a"
    proof (cases allowed)
      case (Some a)
      then have "hn_provider ` set cs \<subseteq> a" using hint_candidates_providers unfolding cs_def by fastforce
      then show ?thesis using subseq_set [OF sub] Some by auto
    qed simp
    have rows: "distinct (map (hint_row U) hs)" using hint_rows_distinct unfolding hs by blast
    have "hint_key U ` {h. h \<in> set hs \<and> hn_year h = None} \<inter> known_years U hs = {}" using known dated by blast
    with len keys rows allow show ?thesis by simp
  qed (simp add: hs_def hints_def known_years_def split: option.splits)
  then show ?thesis unfolding hs_def Let_def .
qed

section \<open>The crawl reports every provider\<close>

lemma keys_upsert: "fst ` set table \<subseteq> fst ` set (snd (upsert U N stamp rs table))"
proof -
  have "fst ` set t \<subseteq> fst ` set (foldl (\<lambda>t (k, x). dset k x t) t new)" for t new :: index_table
  proof (induction new arbitrary: t)
    case (Cons p new)
    have "fst ` set t \<subseteq> fst ` set (dset (fst p) (snd p) t)" by auto
    also have "\<dots> \<subseteq> fst ` set (foldl (\<lambda>t (k, x). dset k x t) (dset (fst p) (snd p) t) new)" by (rule Cons)
    finally show ?case by (cases p) simp
  qed simp
  then show ?thesis by (simp add: upsert_def Let_def)
qed

definition table_ids :: "index_table \<Rightarrow> ustr set" where
  "table_ids t = fst ` set t"

definition carries_on :: "'w crawl_state \<Rightarrow> 'w crawl_state \<Rightarrow> bool" where
  "carries_on c d \<longleftrightarrow> ps_provider (cs_stats d) = ps_provider (cs_stats c) \<and> ps_attempts (cs_stats d) = ps_attempts (cs_stats c) \<and>
     table_ids (cs_table c) \<subseteq> table_ids (cs_table d)"

lemma carries_on_refl [simp]: "carries_on c c"
  by (simp add: carries_on_def)

lemma carries_on_trans: "carries_on c d \<Longrightarrow> carries_on d e \<Longrightarrow> carries_on c e"
  unfolding carries_on_def by auto

lemma table_ids_upsert: "table_ids t \<subseteq> table_ids (snd (upsert U N stamp rs t))"
  unfolding table_ids_def by (rule keys_upsert)

lemma crawl_section_carries_on: "carries_on c (crawl_section W U N stamp delay sec ns c)"
proof (induction ns arbitrary: c)
  case (Cons n ns)
  define k t where "k = (\<lambda>fits. fst (upsert U N stamp fits (cs_table c)))" and "t = (\<lambda>fits. snd (upsert U N stamp fits (cs_table c)))"
  then have up: "upsert U N stamp fits (cs_table c) = (k fits, t fits)" for fits by simp
  have t: "table_ids (cs_table c) \<subseteq> table_ids (t fits)" for fits by (simp add: t_def table_ids_upsert)
  obtain res w where br: "cw_browse W (ps_provider (cs_stats c)) (sec_id sec) n (cs_world c) = (res, w)" by force
  show ?case
  proof (cases res)
    case (Inr page)
    show ?thesis
      by (cases page)
        (auto simp: br Inr Let_def up add_error_def t split: option.split intro!: carries_on_trans [OF _ Cons.IH];
         simp add: carries_on_def t)
  qed (simp add: br add_error_def carries_on_def)
qed simp

lemma foldl_carries_on: "carries_on c (foldl (\<lambda>c sec. crawl_section W U N stamp delay sec ns c) c secs)"
  by (induction secs arbitrary: c) (auto intro: carries_on_trans crawl_section_carries_on)

lemma crawl_provider_ok:
  "ps_provider (fst (crawl_provider W U N stamp delay pages n p tw)) = p \<and>
   ps_attempts (fst (crawl_provider W U N stamp delay pages n p tw)) = n \<and>
   table_ids (fst tw) \<subseteq> table_ids (fst (snd (crawl_provider W U N stamp delay pages n p tw)))"
proof -
  have ok: "ps_provider (cs_stats d) = p \<and> ps_attempts (cs_stats d) = n \<and> table_ids (fst tw) \<subseteq> table_ids (cs_table d)"
    if "carries_on \<lparr>cs_stats = no_stats p m [] n, cs_table = fst tw, cs_world = snd tw\<rparr> d" for m and d :: "'a crawl_state"
    using that by (simp add: carries_on_def no_stats_def)
  note go = ok [OF foldl_carries_on [of _ W U N stamp delay "[1..<Suc pages]"]]
  show ?thesis
  proof (cases "cw_sections W p")
    case (Some secs)
    then show ?thesis
      using go [of "length secs" secs] by (cases secs) (simp_all add: crawl_provider_def no_stats_def Let_def del: upt_Suc foldl_Cons)
  qed (simp add: crawl_provider_def no_stats_def)
qed

lemma crawl_each_ok:
  "map ps_provider (fst (crawl_each W U N stamp delay pages n ps tw)) = ps \<and>
   list_all (\<lambda>s. ps_attempts s = n) (fst (crawl_each W U N stamp delay pages n ps tw)) \<and>
   table_ids (fst tw) \<subseteq> table_ids (fst (snd (crawl_each W U N stamp delay pages n ps tw)))"
proof (induction ps arbitrary: tw)
  case (Cons p ps)
  obtain s tw1 where one: "crawl_provider W U N stamp delay pages n p tw = (s, tw1)" by (rule prod.exhaust)
  obtain ss tw2 where rest: "crawl_each W U N stamp delay pages n ps tw1 = (ss, tw2)" by (rule prod.exhaust)
  have "ps_provider s = p" "ps_attempts s = n" "table_ids (fst tw) \<subseteq> table_ids (fst tw1)"
    using crawl_provider_ok [of W U N stamp delay pages n p tw] by (simp_all add: one)
  with Cons [of tw1] show ?case by (auto simp: one rest)
qed simp

lemma list_all_mem: "list_all P xs \<Longrightarrow> x \<in> set xs \<Longrightarrow> P x"
  by (simp add: list_all_iff)

lemma retried_source:
  "dget (foldl (\<lambda>d s. dset (ps_provider s) s d) d xs) p = Some x \<Longrightarrow> (x \<in> set xs \<and> ps_provider x = p) \<or> dget d p = Some x"
proof (induction xs arbitrary: d)
  case (Cons y xs)
  from Cons.IH [of "dset (ps_provider y) y d"] Cons.prems show ?case by (auto simp: dget_dset split: if_splits)
qed simp

lemma retry_passes_ok:
  assumes "list_all (\<lambda>s. ps_attempts s \<le> b) stats" and "list_all (\<lambda>n. n < b) ns"
  shows "map ps_provider (fst (retry_passes W U N stamp delay rd pages ns stats tw)) = map ps_provider stats \<and>
    list_all (\<lambda>s. ps_attempts s \<le> b) (fst (retry_passes W U N stamp delay rd pages ns stats tw)) \<and>
    table_ids (fst tw) \<subseteq> table_ids (fst (snd (retry_passes W U N stamp delay rd pages ns stats tw)))"
  using assms
proof (induction ns arbitrary: stats tw)
  case (Cons n ns)
  show ?case
  proof (cases "retry_ids stats = []")
    case True
    with Cons.prems show ?thesis by simp
  next
    case False
    define pause where "pause = f_mul (max 0 rd) (f_of_int (int n))"
    define tw1 where "tw1 = (if 0 < pause then (fst tw, cw_pause W pause (snd tw)) else tw)"
    have t1: "fst tw1 = fst tw" by (simp add: tw1_def)
    obtain again tw2 where each: "crawl_each W U N stamp delay pages (n + 1) (retry_ids stats) tw1 = (again, tw2)"
      by (rule prod.exhaust)
    define retried where "retried = foldl (\<lambda>d s. dset (ps_provider s) s d) [] again"
    define stats1 where "stats1 = map (\<lambda>s. case dget retried (ps_provider s) of None \<Rightarrow> s | Some x \<Rightarrow> x) stats"
    have ok: "list_all (\<lambda>s. ps_attempts s = n + 1) again" "table_ids (fst tw) \<subseteq> table_ids (fst tw2)"
      using crawl_each_ok [of W U N stamp delay pages "n + 1" "retry_ids stats" tw1] t1 unfolding each by simp_all
    have re: "ps_provider x = p \<and> ps_attempts x = n + 1" if "dget retried p = Some x" for p x
      using retried_source [of "[]" again p x] that list_all_mem [OF ok(1)] by (auto simp: retried_def)
    have names: "map ps_provider stats1 = map ps_provider stats"
      by (auto simp: stats1_def re split: option.split)
    have small: "list_all (\<lambda>s. ps_attempts s \<le> b) stats1"
      using Cons.prems re by (auto simp: stats1_def list_all_iff split: option.split)
    have run: "retry_passes W U N stamp delay rd pages (n # ns) stats tw = retry_passes W U N stamp delay rd pages ns stats1 tw2"
      using False by (simp add: Let_def pause_def [symmetric] tw1_def [symmetric] each [unfolded add_Suc_right Suc_eq_plus1 [symmetric]] retried_def [symmetric] stats1_def [symmetric])
    show ?thesis using Cons.IH [OF small, of tw2] Cons.prems(2) names ok(2) unfolding run by auto
  qed
qed simp


section \<open>Letters that decompose never reach the tables\<close>

definition dead_letters :: "nat list" where
  "dead_letters = [1081, 1111, 1105]"

lemma translate_without:
  "set ds \<inter> set s = {} \<Longrightarrow> translate_with (filter (\<lambda>p. fst p \<notin> set ds) t) s = translate_with t s"
proof -
  assume dis: "set ds \<inter> set s = {}"
  have "dget (filter (\<lambda>p. fst p \<notin> set ds) t) c = dget t c" if "c \<notin> set ds" for c
    using that by (induction t) auto
  then have "dget (filter (\<lambda>p. fst p \<notin> set ds) t) c = dget t c" if "c \<in> set s" for c using dis that by blast
  then have "map (\<lambda>c. case dget (filter (\<lambda>p. fst p \<notin> set ds) t) c of None \<Rightarrow> [c] | Some r \<Rightarrow> r) s =
             map (\<lambda>c. case dget t c of None \<Rightarrow> [c] | Some r \<Rightarrow> r) s"
    by (intro map_cong) simp_all
  then show ?thesis by (simp only: translate_with_def)
qed

text \<open>Transliteration never uses the table entries of letters that Unicode decomposes: a Ukrainian short i is folded to the letter without its breve first.\<close>

theorem decomposed_letters_are_dead:
  assumes "\<And>c. set dead_letters \<inter> set (decomposed N c) = {}"
  shows "transliterate U N s =
    (translate_with (filter (\<lambda>p. fst p \<notin> set dead_letters) official_table) (fold_text U N s),
     translate_with (filter (\<lambda>p. fst p \<notin> set dead_letters) loose_table) (fold_text U N s))"
proof -
  have "set dead_letters \<inter> set (fold_text U N s) = {}" using assms by (fastforce simp: fold_text_def)
  then show ?thesis by (simp add: transliterate_def Let_def translate_without)
qed

text \<open>The decompositions of Unicode for the three letters.\<close>

definition ua_nfkd :: nfkd where
  "ua_nfkd = \<lparr>decomposed = (\<lambda>c. if c = 1081 then [1080, 774] else if c = 1111 then [1110, 776] else if c = 1105 then [1077, 776] else [c]),
     combining = (\<lambda>c. c = 774 \<or> c = 776)\<rparr>"

lemma ua_nfkd_ok: "set dead_letters \<inter> set (decomposed ua_nfkd c) = {}"
  by (simp add: dead_letters_def ua_nfkd_def)

lemma decomposed_letters_are_dead_witness:
  "transliterate ua_ucd ua_nfkd [1081, 1111] = (u ''yi'', u ''yi'') \<and> dget official_table 1081 = Some (u ''i'')"
proof -
  have "fold_text ua_ucd ua_nfkd [1081, 1111] = [1080, 1110]" by code_simp
  then have "transliterate ua_ucd ua_nfkd [1081, 1111] = (u ''yi'', u ''yi'')"
    unfolding decomposed_letters_are_dead [OF ua_nfkd_ok] by (simp only:) code_simp
  moreover have "dget official_table 1081 = Some (u ''i'')" by code_simp
  ultimately show ?thesis by simp
qed

section \<open>The row of a card\<close>

text \<open>The row that is stored for a card gives the card back.\<close>

theorem row_roundtrip: "indexed_row U N stamp r = Some x \<Longrightarrow> url r \<noteq> [] \<Longrightarrow> row_to_result x = Some r"
  by (erule indexed_rowE) simp

definition sample_card :: search_result where
  "sample_card = (sample_items ! 0)\<lparr>url := u ''/dune''\<rparr>"

lemma row_roundtrip_witness:
  "\<exists>x. indexed_row ua_ucd ua_nfkd 7 (sample_card) = Some x \<and> row_to_result x = Some (sample_card)"
proof -
  have "indexed_row ua_ucd ua_nfkd 7 (sample_card) \<noteq> None" by code_simp
  then obtain x where x: "indexed_row ua_ucd ua_nfkd 7 (sample_card) = Some x" by blast
  moreover have "url (sample_card) \<noteq> []" by code_simp
  ultimately show ?thesis using row_roundtrip by blast
qed


end
