(* ===== verification/Spec2Isabelle.thy ===== *)
theory Spec2Isabelle
  imports Home Watchdog Play_Request Ttl_Cache Crawl_Guard Resume_Store Drift_Monitor User_State Http_Cache Hls_Proxy Yts Delivery Snapshot Teleport Recommend Catalog_Index
begin

text \<open>
  A verification development for the backend of a Ukrainian streaming client
  (\<^verbatim>\<open>src/backend/cs_uk_api\<close>): one process that fans out to some twenty provider adapters, merges what they
  list into one catalogue, serves it to a Jellyfin client and a native one, and keeps a few small stores.

  \<^bold>\<open>The program.\<close>  An adapter (\<^verbatim>\<open>providers/*.py\<close>) turns a third-party site into lists of items; \<^verbatim>\<open>merge.py\<close>
  groups the items of all providers that are the same title, under a group key computed by
  \<^verbatim>\<open>wire_identity.py\<close>; \<^verbatim>\<open>home.py\<close> builds the shelves from the listings and the resume store.  A request to
  play goes through \<^verbatim>\<open>play_request.py\<close>, which records what happened on two axes: the health of the lane
  (\<^verbatim>\<open>health.py\<close>) and the attestation of playback (\<^verbatim>\<open>play_attestation.py\<close>).  The watchdog resets a wedged
  client when every relevant lane is down.  The stores mirror their memory to versioned files
  (\<^verbatim>\<open>versioned_store.py\<close>), some through a debouncer.  At night the crawler skips providers its guard has
  blocked (\<^verbatim>\<open>crawl_guard.py\<close>), and the drift monitor (\<^verbatim>\<open>drift/\<close>) probes every provider, judges it against a
  calibrated baseline and files issues.

  \<^bold>\<open>The theories.\<close>
  \<^item> \<open>Py_Prelude\<close>, \<open>Py_Float\<close>, \<open>Py_Unicode\<close>, \<open>Json\<close>: the Python the components share.  Strings are lists of
    code points, dictionaries association lists in insertion order (locale \<open>dict_ops\<close>, interpreted as
    \<open>pydict\<close>), doubles rationals with rounding \<open>fl\<close>; \<open>json\<close> values; regular expressions with Python's
    backtracking order over a Unicode database that is a parameter (\<open>ucd\<close>).
  \<^item> \<open>Health\<close>, \<open>Watchdog\<close>, \<open>Play_Attestation\<close>, \<open>Play_Request\<close>: the two axes of playback and the gate that
    feeds them; the watchdog reads the tracker through the locale \<open>health_source\<close>.
  \<^item> \<open>Titles\<close>, \<open>Sha1\<close>, \<open>Wire_Identity\<close>: title aliases, years, group keys, season and episode ids.
  \<^item> \<open>Union_Find\<close>, \<open>Merge\<close>: the partition of items, over a union-find, and the groups built from it.
  \<^item> \<open>Row_Kinds\<close>, \<open>Home\<close>: the row table, filters, the walk over listings, and the rows.
  \<^item> \<open>Ttl_Cache\<close>, \<open>Crawl_Guard\<close>: the response cache and the nightly breaker.
  \<^item> \<open>Versioned_Store\<close>, \<open>Resume_Store\<close>: the atomic write as a step relation, the load ladder, the two
    debouncers, and the resume store with its file as one system (locale \<open>store_adapter\<close>, interpreted as
    \<open>resume_file\<close> and, in \<open>Drift_Baseline\<close>, as \<open>baseline_file\<close>).
  \<^item> \<open>User_State\<close>: favourites, played marks and dub memory, written by every operation (\<open>user_file\<close>, the
    third interpretation of \<open>store_adapter\<close>).
  \<^item> \<open>Http_Cache\<close>: the crawler's conditional GET, its table and its transport (\<^verbatim>\<open>http_cache.py\<close>).
  \<^item> \<open>Py_Url\<close>, \<open>Hls_Proxy\<close>: the URL functions of the standard library, and the byte and playlist proxy of the
    stream routes over them (\<^verbatim>\<open>jellyfin/hls_proxy.py\<close>).
  \<^item> \<open>Fetch\<close>: the providers' fetch path, \<^verbatim>\<open>http_client.py\<close> and the fetching methods of \<^verbatim>\<open>providers/base.py\<close>.
  \<^item> \<open>Torrent_Engine\<close>, \<open>Torrent_Lane\<close>: the BitPlay adapter (\<^verbatim>\<open>torrent_engine.py\<close>) and the conversation with
    an engine (\<^verbatim>\<open>torrent_lane.py\<close>), specified by the protocol \<open>conversation\<close>.
  \<^item> \<open>Lru\<close>, \<open>Popcorn\<close>, \<open>Yts\<close>: the English provider (\<^verbatim>\<open>providers/yts.py\<close>, \<^verbatim>\<open>providers/popcorn.py\<close>) with its
    two bounded memories, and the provider behind \<open>Play_Request\<close>.
  \<^item> \<open>Catalog_State\<close>, \<open>Resolution\<close>: the catalogue's two layers and the walk over the members of a group
    (\<^verbatim>\<open>_catalog_state/_stores.py\<close>, \<^verbatim>\<open>_catalog_state/resolution.py\<close>); \<open>Delivery\<close>: the stream of a press on play
    (\<^verbatim>\<open>jellyfin/delivery.py\<close>).
  \<^item> \<open>Kin\<close>, \<open>Snapshot\<close>: what a group key stands for whatever list is merged, and the home build and the deep
    rows (\<^verbatim>\<open>_catalog_state/snapshot.py\<close>).
  \<^item> \<open>Playback\<close>, \<open>Recommend\<close>: the dub picker with its memory and the PlaybackInfo route (\<^verbatim>\<open>_catalog_state/playback.py\<close>,
    \<^verbatim>\<open>jellyfin/playback_info.py\<close>); the taste profiles, their scoring, the personal rows and the warm-up that feeds them
    (\<^verbatim>\<open>recommend.py\<close>, \<^verbatim>\<open>_catalog_state/warm.py\<close>).
  \<^item> \<open>Catalog_Index\<close>: the local index: rows, queries, ranking, hints and the nightly crawl (\<^verbatim>\<open>catalog_index.py\<close>).
  \<^item> \<open>Teleport\<close>: the fingerprint matcher that finds a failed stream's position in another (\<^verbatim>\<open>teleport.py\<close>).
  \<^item> \<open>Drift_Baseline\<close>, \<open>Drift_Monitor\<close>: verdicts, calibration, provider states, probes, the issue gateway and
    a whole run of the monitor.

  \<^bold>\<open>Correspondence.\<close>  A class becomes a record of its fields and a definition per method that answers the
  new state; a closed vocabulary of strings becomes a datatype; a raise becomes \<open>Inl\<close>, \<open>None\<close> or a datatype
  of outcomes; the clock, the network, an adapter's answer and the \<^verbatim>\<open>gh\<close> program are arguments.  Definitions
  keep the source's names except where those are reserved or taken.

  \<^bold>\<open>What the lemmas show.\<close>  The merge computes exactly the connected components of the matching relation, with
  distinct keys that can be recomputed from a group.  The status of a lane is a function of its last
  outcomes; the watchdog fires exactly when it should and never twice within its cooldown.  Ids and filters
  survive a round trip through the wire.  The rows of the home screen hold only items of their kind, without
  duplicates, and the walk that fills them interleaves the providers fairly.  The cache answers the last
  write until it expires; the guard blocks after enough nights and probes again.  A write leaves the old or
  the new file; no request to a debouncer is lost; the resume store survives a restart and stays within its
  bounds, and so do the user's marks.  The conditional cache cannot be told from none, and fits its budget.  The
  proxy opens at most six URLs, all on the item's own domains, and rewrites a playlist so that the client stays
  on the backend.  The drift monitor files on the second failure in a row, never twice, and converges when a shape
  has moved; its rotation covers every provider.  A fetch never leaves the allowed hosts.  A play of the English
  lane makes at most six engine calls, in the order of the policy, hands out only a stream that was probed and
  spoke, plays an episode from its own torrents, survives an outage of its upstream inside the cache's time, and
  leaves in the health tracker what the engine's answer says; with a series host configured a movie that is not
  in memory cannot be played.
  A snapshot that is applied leaves nothing of the old one and keeps what searches promised, except that the map
  behind a repeated search lapses before its registrations.  A group resolves to the page of the first member
  that can serve it, in at most six calls, and a gated or blocked title ends the walk and is remembered; the
  cache-only reads answer what was resolved, and the sweep drops exactly the gated cards.  Every press on play
  is attested, with one event for each member asked, and a stream is the answer of a registered member.
  Every card of a home build opens, under every key it carries and at every provider it lists; a row extended
  past the snapshot loses and repeats nothing, but the cards it adds are registered nowhere.  A fingerprint match
  is the best window of the candidate with a margin over all that are elsewhere, and a clip that occurs matches.
  A dub picked for one episode leads for every episode of the series that has it, though while it is remembered an
  echoed pick may name another; the recommended row is the best of the candidates, and the warm-up that rebuilds the
  home for new profiles comes to rest.  A card that was indexed is found by its title, hints never repeat a title, and
  a crawl reports every provider once.

  \<^bold>\<open>Bounds and fuel.\<close>  Loops are structural recursions or functions with a termination proof.  The find of the
  union-find takes fuel, the number of items, which is enough because a parent chain never repeats; the walk
  of \<open>Home\<close> ends because each round that goes on lengthens the collection, which the budget bounds.  \<^verbatim>\<open>safe_get\<close> recurs on the calls the interpreter still allows, which is what
  bounds it in the program too.  The proxy follows five redirects; eviction ends because each round removes a row.

  \<^bold>\<open>Not modelled.\<close>  Overflow and subnormal doubles, infinities and nans; lone surrogates; log lines.  The
  adapters other than the English one, which scrape documents that are not in the repository; the Jellyfin
  routes and data-transfer objects, which are wiring; the browser session, the torrent engine behind its
  adapter, SQL and the operator's scripts, which are I/O.  A catalogue operation reads the clock once; concurrent callers that share one
  resolution, and the pool of gate checks, are taken one after another, and a fan-out is the list of its tasks that
  finished, in the order of their effects.  The language model's
  answer is an argument, full-text search is one too; the native routes are left out.
\<close>

end
